(* ===== verification/Beam_Prelude.thy ===== *)
theory Beam_Prelude
  imports Main "HOL-Library.Word" "HOL-Library.Sublist"
begin

text \<open>
  The prelude of the development: the names of the machine integers the sources use
  (\<open>uint8_t\<close>, \<open>uint16_t\<close>, \<open>uint32_t\<close>, \<open>uint64_t\<close>), byte buffers as lists of bytes, the value
  of a buffer in Big-Endian representation (the convention of \<open>src/core/uintBig.h\<close>), and the
  generic lemmas on words, lists and divisions that the components share.  The collection
  \<open>byte_simps\<close> gathers the rules that move byte arithmetic to natural numbers; \<open>be_simps\<close> those
  that evaluate the value of a buffer built by appending, padding or cropping.
\<close>

unbundle bit_operations_syntax

named_theorems byte_simps \<open>machine words to natural numbers\<close>
named_theorems be_simps \<open>Big-Endian value of composed buffers\<close>

type_synonym u8 = "8 word"
type_synonym u16 = "16 word"
type_synonym u32 = "32 word"
type_synonym u64 = "64 word"
type_synonym bytes = "u8 list"

section \<open>Words\<close>

lemma unat_u8_less: "unat (x :: u8) < 256"
  using unsigned_less [of x, where ?'a = nat] by simp

lemma unat_u8_le: "unat (x :: u8) \<le> 255"
  using unat_u8_less [of x] by linarith

lemma unat_u16_less: "unat (x :: u16) < 65536"
  using unsigned_less [of x, where ?'a = nat] by simp

lemma unat_u32_less: "unat (x :: u32) < 4294967296"
  using unsigned_less [of x, where ?'a = nat] by simp

lemma unat_u64_less: "unat (x :: u64) < 2 ^ 64"
  using unsigned_less [of x, where ?'a = nat] by simp

lemma unat_of_nat_small: "n < 2 ^ LENGTH('a) \<Longrightarrow> unat (of_nat n :: 'a::len word) = n"
  by (simp add: unat_of_nat)

lemma unat_of_nat_u32: "n < 2 ^ 32 \<Longrightarrow> unat (of_nat n :: u32) = n"
  by (rule unat_of_nat_small) simp

lemma sint_of_int_u32: "- (2 ^ 31) \<le> x \<Longrightarrow> x < 2 ^ 31 \<Longrightarrow> sint (of_int x :: u32) = x"
  by (simp add: signed_of_int signed_take_bit_int_eq_self)

lemma unat_neg_u32: "0 < unat (x :: u32) \<Longrightarrow> unat (- x) = 2 ^ 32 - unat x"
proof -
  assume x: "0 < unat x"
  have "x + (- x) = 0" by simp
  then have "(unat x + unat (- x)) mod 2 ^ 32 = 0"
    using unat_word_ariths(1) [of x "- x"] by simp
  moreover have "unat x + unat (- x) < 2 * 2 ^ 32"
    using unat_u32_less [of x] unat_u32_less [of "- x"] by simp
  ultimately have "unat x + unat (- x) = 2 ^ 32" using x by (auto elim!: dvdE simp: mod_eq_0_iff_dvd)
  then show ?thesis by simp
qed

lemma unat_ucast_u8_u16 [byte_simps]: "unat (ucast (x :: u8) :: u16) = unat x"
  by (simp add: unsigned_ucast_eq take_bit_nat_eq_self_iff order.strict_trans [OF unat_u8_less])

lemma unat_ucast_u32_u64: "unat (ucast (x :: u32) :: u64) = unat x"
  by (simp add: unsigned_ucast_eq take_bit_nat_eq_self_iff order.strict_trans [OF unat_u32_less])

lemma unat_ucast_u16_u8 [byte_simps]: "unat (ucast (x :: u16) :: u8) = unat x mod 256"
  by (simp add: unsigned_ucast_eq take_bit_eq_mod)

lemma unat_drop_bit [byte_simps]: "unat (drop_bit n (x :: 'a::len word)) = unat x div 2 ^ n"
  by (subst unat_drop_bit_eq) (rule drop_bit_eq_div)

lemma unat_push_bit_u8 [byte_simps]: "unat (push_bit n (x :: u8)) = (unat x * 2 ^ n) mod 256"
  by (simp only: unsigned_push_bit_eq) (simp add: take_bit_eq_mod push_bit_eq_mult)

lemma unat_add_u16:
  "unat (a :: u16) + unat b < 65536 \<Longrightarrow> unat (a + b) = unat a + unat b"
  by (simp add: unat_word_ariths)

lemma unat_mult_u16:
  "unat (a :: u16) * unat b < 65536 \<Longrightarrow> unat (a * b) = unat a * unat b"
  by (simp add: unat_word_ariths)

lemma word_or_disjoint_add:
  fixes a b :: "'a::len word"
  assumes "unat a < 2 ^ n" and "b = push_bit n c"
  shows "b OR a = b + a"
proof -
  have "\<not> bit b k \<or> \<not> bit a k" for k
  proof (cases "k < n")
    case True
    then show ?thesis using assms(2) by (simp add: bit_push_bit_iff)
  next
    case False
    have "\<not> bit (unat a) k"
      using assms(1) False
      by (metis bit_take_bit_iff take_bit_nat_eq_self_iff)
    then show ?thesis by (simp add: bit_unsigned_iff)
  qed
  then show ?thesis by (simp add: disjunctive_add)
qed

section \<open>Lists\<close>

lemma nth_drop_take_split:
  "i < length xs \<Longrightarrow> xs = take i xs @ xs ! i # drop (Suc i) xs"
  by (simp add: id_take_nth_drop)

lemma list_eq_by_nth_drop:
  "length xs = length ys \<Longrightarrow> (\<And>i. i < length xs \<Longrightarrow> xs ! i = ys ! i) \<Longrightarrow> xs = ys"
  by (simp add: list_eq_iff_nth_eq)

section \<open>Big-Endian values of buffers\<close>

text \<open>The number a buffer denotes; the first byte is the most significant one.\<close>

fun be_val :: "bytes \<Rightarrow> nat" where
  "be_val [] = 0"
| "be_val (x # xs) = unat x * 256 ^ length xs + be_val xs"

lemma be_val_append [be_simps]:
  "be_val (xs @ ys) = be_val xs * 256 ^ length ys + be_val ys"
  by (induction xs) (simp_all add: algebra_simps power_add)

lemma be_val_replicate_0 [simp, be_simps]: "be_val (replicate n 0) = 0"
  by (induction n) simp_all

lemma be_val_less: "be_val xs < 256 ^ length xs"
proof (induction xs)
  case Nil
  then show ?case by simp
next
  case (Cons x xs)
  have "unat x * 256 ^ length xs + be_val xs < Suc (unat x) * 256 ^ length xs"
    using Cons by simp
  also have "\<dots> \<le> 256 * 256 ^ length xs"
    by (intro mult_right_mono) (simp_all add: Suc_le_eq unat_u8_less)
  finally show ?case by simp
qed

lemma be_val_drop [be_simps]:
  assumes "k \<le> length xs"
  shows "be_val (drop k xs) = be_val xs mod 256 ^ (length xs - k)"
proof -
  have "be_val xs = be_val (take k xs) * 256 ^ (length xs - k) + be_val (drop k xs)"
    using be_val_append [of "take k xs" "drop k xs"] by simp
  moreover have "be_val (drop k xs) < 256 ^ (length xs - k)"
    using be_val_less [of "drop k xs"] by simp
  ultimately show ?thesis by simp
qed

lemma be_val_take [be_simps]:
  assumes "k \<le> length xs"
  shows "be_val (take k xs) = be_val xs div 256 ^ (length xs - k)"
proof -
  have "be_val xs = be_val (take k xs) * 256 ^ (length xs - k) + be_val (drop k xs)"
    using be_val_append [of "take k xs" "drop k xs"] by simp
  moreover have "be_val (drop k xs) < 256 ^ (length xs - k)"
    using be_val_less [of "drop k xs"] by simp
  ultimately show ?thesis by simp
qed

lemma be_val_0_iff: "be_val xs = 0 \<longleftrightarrow> (\<forall>x \<in> set xs. x = 0)"
  by (induction xs) (auto simp: unat_eq_zero)

lemma be_val_inject:
  "length xs = length ys \<Longrightarrow> be_val xs = be_val ys \<longleftrightarrow> xs = ys"
proof (induction xs ys rule: list_induct2)
  case Nil
  then show ?case by simp
next
  case (Cons x xs y ys)
  let ?B = "256 ^ length ys :: nat"
  have lt: "be_val xs < ?B" "be_val ys < ?B"
    using be_val_less [of xs] be_val_less [of ys] Cons.hyps by simp_all
  show ?case
  proof
    assume "be_val (x # xs) = be_val (y # ys)"
    then have e: "unat x * ?B + be_val xs = unat y * ?B + be_val ys"
      using Cons.hyps by simp
    from arg_cong [OF e, of "\<lambda>v. v div ?B"] lt have "unat x = unat y" by simp
    moreover from arg_cong [OF e, of "\<lambda>v. v mod ?B"] lt have "be_val xs = be_val ys" by simp
    ultimately show "x # xs = y # ys" using Cons.IH by (simp add: word_unat_eq_iff)
  qed simp
qed

text \<open>Storing one byte changes the value by the weight of its position.\<close>

lemma be_val_update:
  assumes "i < length xs"
  shows "int (be_val (xs[i := y])) =
    int (be_val xs) + (int (unat y) - int (unat (xs ! i))) * 256 ^ (length xs - Suc i)"
proof -
  have "be_val (xs[i := y]) =
      be_val (take i xs) * 256 ^ Suc (length xs - Suc i) + be_val (y # drop (Suc i) xs)"
    using assms by (simp add: upd_conv_take_nth_drop be_val_append)
  moreover have "be_val xs =
      be_val (take i xs) * 256 ^ Suc (length xs - Suc i) + be_val (xs ! i # drop (Suc i) xs)"
    using assms be_val_append [of "take i xs" "xs ! i # drop (Suc i) xs"]
    by (simp add: id_take_nth_drop [symmetric])
  ultimately show ?thesis by (simp add: algebra_simps)
qed

text \<open>The buffer of a given size that denotes a number, reduced to that size.\<close>

fun be_bytes :: "nat \<Rightarrow> nat \<Rightarrow> bytes" where
  "be_bytes 0 v = []"
| "be_bytes (Suc n) v = be_bytes n (v div 256) @ [of_nat (v mod 256)]"

lemma length_be_bytes [simp]: "length (be_bytes n v) = n"
  by (induction n arbitrary: v) simp_all

lemma be_val_be_bytes [simp, be_simps]: "be_val (be_bytes n v) = v mod 256 ^ n"
proof (induction n arbitrary: v)
  case 0
  then show ?case by simp
next
  case (Suc n)
  have "be_val (be_bytes (Suc n) v) = (v div 256 mod 256 ^ n) * 256 + v mod 256"
    using Suc by (simp add: be_val_append unat_of_nat)
  also have "\<dots> = v mod (256 * 256 ^ n)"
    by (simp add: mod_mult2_eq)
  finally show ?case by simp
qed

lemma be_bytes_be_val [simp]: "be_bytes (length xs) (be_val xs) = xs"
  by (subst be_val_inject [symmetric]) (simp_all add: be_val_less)

section \<open>Numbers\<close>

lemma pow256: "(256 :: nat) ^ n = 2 ^ (8 * n)"
  by (simp add: power_mult)

lemma mod_mult_add_low: "(r :: nat) < b \<Longrightarrow> (x * b + r) mod (m * b) = (x mod m) * b + r"
proof -
  assume r: "r < b"
  have "(x * b + r) mod (b * m) = b * ((x * b + r) div b mod m) + (x * b + r) mod b"
    by (rule mod_mult2_eq)
  with r show ?thesis by (simp add: mult.commute)
qed

lemma less_pow_mono: "(v :: nat) < b ^ m \<Longrightarrow> m \<le> n \<Longrightarrow> 0 < b \<Longrightarrow> v < b ^ n"
  by (metis less_le_trans less_eq_Suc_le One_nat_def power_increasing)

end
