(* ===== verification/Uint_Big.thy ===== *)
theory Uint_Big
  imports Beam_Prelude
begin

text \<open>
  The arithmetic of \<open>src/core/uintBig.cpp\<close> and \<open>src/core/uintBig.h\<close>: unsigned numbers of any byte
  size in Big-Endian representation.  A pair \<open>pDst, nDst\<close> of the source is one list of bytes, a
  pointer that is advanced by \<open>k\<close> is \<open>drop k\<close>, and every loop is a recursive function over the
  index it counts, writing the buffer by index and keeping the 16-bit carry of the source.  The
  lemmas relate each routine to the number the buffer denotes (\<open>be_val\<close>).  Source and destination
  buffers are distinct objects, as in every call the sources make.
\<close>

section \<open>Assignment, increment and addition\<close>

definition uAssign :: "nat \<Rightarrow> bytes \<Rightarrow> bytes" where
  "uAssign nDst src =
     (if nDst \<le> length src then drop (length src - nDst) src
      else replicate (nDst - length src) 0 @ src)"

text \<open>\<open>_Inc(pDst, nDst)\<close>: add one; the result is the exceeding carry and the buffer.\<close>

fun uInc1_loop :: "nat \<Rightarrow> bytes \<Rightarrow> u8 \<times> bytes" where
  "uInc1_loop 0 d = (1, d)"
| "uInc1_loop (Suc i) d =
     (let d' = d[i := d ! i + 1]
      in if d' ! i \<noteq> 0 then (0, d') else uInc1_loop i d')"

definition uInc1 :: "bytes \<Rightarrow> u8 \<times> bytes" where
  "uInc1 d = uInc1_loop (length d) d"

text \<open>\<open>_Inc(pDst, nDst, pSrc)\<close>: both operands have the same size.\<close>

fun uInc2_loop :: "nat \<Rightarrow> u16 \<Rightarrow> bytes \<Rightarrow> bytes \<Rightarrow> u16 \<times> bytes" where
  "uInc2_loop 0 carry d s = (carry, d)"
| "uInc2_loop (Suc i) carry d s =
     (let c1 = carry + ucast (d ! i);
          c2 = c1 + ucast (s ! i)
      in uInc2_loop i (drop_bit 8 c2) (d[i := ucast c2]) s)"

definition uInc2 :: "bytes \<Rightarrow> bytes \<Rightarrow> u8 \<times> bytes" where
  "uInc2 d s = (case uInc2_loop (length d) 0 d s of (carry, d') \<Rightarrow> (ucast carry, d'))"

text \<open>\<open>_Inc(pDst, nDst, pSrc, nSrc)\<close>: operands of different sizes.\<close>

definition uInc3 :: "bytes \<Rightarrow> bytes \<Rightarrow> u8 \<times> bytes" where
  "uInc3 d s =
     (if length d \<le> length s then uInc2 d (drop (length s - length d) s)
      else
        (let k = length d - length s in
         case uInc2 (drop k d) s of (c, lo) \<Rightarrow>
           if c = 0 then (0, take k d @ lo)
           else (case uInc1 (take k d) of (c', hi) \<Rightarrow> (c', hi @ lo))))"

text \<open>\<open>_Inv\<close>, \<open>_Xor\<close> for equal sizes and for different sizes, \<open>Negate\<close>.\<close>

definition uInv :: "bytes \<Rightarrow> bytes" where
  "uInv d = map (\<lambda>x. x XOR 0xff) d"

definition uXor2 :: "bytes \<Rightarrow> bytes \<Rightarrow> bytes" where
  "uXor2 d s = map (\<lambda>i. d ! i XOR s ! i) [0..<length d]"

definition uXor :: "bytes \<Rightarrow> bytes \<Rightarrow> bytes" where
  "uXor d s =
     (if length d \<le> length s then uXor2 d (drop (length s - length d) s)
      else take (length d - length s) d @ uXor2 (drop (length d - length s) d) s)"

definition uNegate :: "bytes \<Rightarrow> bytes" where
  "uNegate d = snd (uInc1 (uInv d))"

lemma length_uAssign [simp]: "length (uAssign n s) = n"
  by (simp add: uAssign_def)

lemma be_val_uAssign [be_simps]: "be_val (uAssign n s) = be_val s mod 256 ^ n"
proof (cases "n \<le> length s")
  case True
  then show ?thesis by (simp add: uAssign_def be_val_drop)
next
  case False
  then have "be_val s < 256 ^ n"
    using less_pow_mono [OF be_val_less, of s n] by simp
  with False show ?thesis by (simp add: uAssign_def be_val_append)
qed

lemma length_uInc1_loop [simp]: "length (snd (uInc1_loop i d)) = length d"
  by (induction i arbitrary: d) (simp_all add: Let_def)

lemma uInc1_loop_val:
  "i \<le> length d \<Longrightarrow> uInc1_loop i d = (c, d') \<Longrightarrow>
   be_val d' + unat c * 256 ^ length d = be_val d + 256 ^ (length d - i)"
proof (induction i arbitrary: d)
  case 0
  then show ?case by simp
next
  case (Suc i)
  let ?y = "d ! i + 1"
  have up: "int (be_val (d[i := ?y])) =
      int (be_val d) + (int (unat ?y) - int (unat (d ! i))) * 256 ^ (length d - Suc i)"
    using Suc.prems by (intro be_val_update) simp
  show ?case
  proof (cases "?y = 0")
    case True
    then have "d ! i = - 1"
      by (simp only: eq_neg_iff_add_eq_0)
    then have m: "unat (d ! i) = 255"
      by (simp add: unsigned_minus_1_eq_mask mask_eq_exp_minus_1)
    have e: "length d - i = Suc (length d - Suc i)" using Suc.prems by simp
    have "be_val d' + unat c * 256 ^ length d = be_val (d[i := ?y]) + 256 ^ (length d - i)"
      using Suc.IH [of "d[i := ?y]"] Suc.prems True by simp
    moreover have "int (be_val (d[i := ?y])) = int (be_val d) - 255 * 256 ^ (length d - Suc i)"
      using up True m by simp
    ultimately have "int (be_val d' + unat c * 256 ^ length d) =
        int (be_val d + 256 ^ (length d - Suc i))"
      by (simp add: e)
    then show ?thesis by (simp only: of_nat_eq_iff)
  next
    case False
    then have "unat ?y = Suc (unat (d ! i))"
      by (simp add: unatSuc add.commute)
    with up have "int (be_val (d[i := ?y])) = int (be_val d + 256 ^ (length d - Suc i))"
      by simp
    then have "be_val (d[i := ?y]) = be_val d + 256 ^ (length d - Suc i)"
      by (simp only: of_nat_eq_iff)
    with False Suc.prems show ?thesis by auto
  qed
qed

lemma uInc1_spec:
  "uInc1 d = (c, d') \<Longrightarrow> be_val d' + unat c * 256 ^ length d = be_val d + 1 \<and> length d' = length d"
  using uInc1_loop_val [of "length d" d c d'] length_uInc1_loop [of "length d" d]
  by (simp add: uInc1_def)

lemma length_uInc2_loop [simp]: "length (snd (uInc2_loop i c d s)) = length d"
  by (induction i arbitrary: c d) (simp_all add: Let_def)

lemma uInc2_loop_val:
  "i \<le> length d \<Longrightarrow> i \<le> length s \<Longrightarrow> unat carry \<le> 1 \<Longrightarrow> uInc2_loop i carry d s = (c, d') \<Longrightarrow>
   unat c \<le> 1 \<and>
   int (be_val d') + int (unat c) * 256 ^ length d =
   int (be_val d) + (int (be_val (take i s)) + int (unat carry)) * 256 ^ (length d - i)"
proof (induction i arbitrary: carry d)
  case 0
  then show ?case by simp
next
  case (Suc i)
  let ?c1 = "carry + ucast (d ! i) :: u16"
  let ?c2 = "?c1 + ucast (s ! i)"
  let ?w = "length d - Suc i"
  have u8s: "unat (d ! i) \<le> 255" "unat (s ! i) \<le> 255" by (rule unat_u8_le)+
  have c1: "unat ?c1 = unat carry + unat (d ! i)"
  proof (subst unat_add_u16)
    show "unat carry + unat (ucast (d ! i) :: u16) < 65536"
      unfolding unat_ucast_u8_u16 using Suc.prems(3) u8s by linarith
  qed (simp add: byte_simps)
  have c2: "unat ?c2 = unat carry + unat (d ! i) + unat (s ! i)"
  proof (subst unat_add_u16)
    show "unat ?c1 + unat (ucast (s ! i) :: u16) < 65536"
      unfolding unat_ucast_u8_u16 c1 using Suc.prems(3) u8s by linarith
  qed (simp add: byte_simps c1)
  have out: "unat (drop_bit 8 ?c2) \<le> 1"
    unfolding unat_drop_bit c2 using u8s Suc.prems(3) by simp
  have "uInc2_loop i (drop_bit 8 ?c2) (d[i := ucast ?c2]) s = (c, d')"
    using Suc.prems(4) by (simp add: Let_def)
  from Suc.IH [OF _ _ out this] Suc.prems(1,2)
  have ih: "unat c \<le> 1"
    "int (be_val d') + int (unat c) * 256 ^ length d =
     int (be_val (d[i := ucast ?c2])) +
     (int (be_val (take i s)) + int (unat ?c2 div 256)) * 256 ^ Suc ?w"
    by (simp_all add: byte_simps Suc_diff_Suc)
  have up: "int (be_val (d[i := ucast ?c2])) =
      int (be_val d) + (int (unat ?c2 mod 256) - int (unat (d ! i))) * 256 ^ ?w"
    using be_val_update [of i d "ucast ?c2"] Suc.prems(1) by (simp add: byte_simps)
  have t: "int (be_val (take (Suc i) s)) = int (be_val (take i s)) * 256 + int (unat (s ! i))"
    using Suc.prems(2) by (simp add: take_Suc_conv_app_nth be_val_append)
  have dm: "int (unat ?c2 mod 256) = int (unat ?c2) - 256 * int (unat ?c2 div 256)"
    by (simp add: zmod_int zdiv_int minus_mult_div_eq_mod)
  have c2i: "int (unat ?c2) = int (unat carry) + int (unat (d ! i)) + int (unat (s ! i))"
    using c2 by simp
  show ?case
    using ih(1) unfolding ih(2) up t dm c2i by (simp add: algebra_simps)
qed

text \<open>Addition of equal sizes: the value and the exceeding carry.\<close>

lemma uInc2_spec:
  assumes "uInc2 d s = (c, d')" and "length s = length d"
  shows "be_val d' + unat c * 256 ^ length d = be_val d + be_val s \<and> unat c \<le> 1
    \<and> length d' = length d"
proof -
  obtain c' where r: "uInc2_loop (length d) 0 d s = (c', d')" and c: "c = ucast c'"
    using assms(1) by (auto simp: uInc2_def split: prod.splits)
  have le: "unat c' \<le> 1" and
    e: "int (be_val d') + int (unat c') * 256 ^ length d = int (be_val d) + int (be_val s)"
    using uInc2_loop_val [OF _ _ _ r] assms(2) by auto
  have "unat c = unat c'" using le c by (simp add: byte_simps)
  moreover have "int (be_val d' + unat c' * 256 ^ length d) = int (be_val d + be_val s)"
    using e by simp
  then have "be_val d' + unat c' * 256 ^ length d = be_val d + be_val s"
    by (simp only: of_nat_eq_iff)
  moreover have "length d' = length d"
    using length_uInc2_loop [of "length d" 0 d s] r by simp
  ultimately show ?thesis using le by simp
qed

text \<open>Addition of any sizes: the source operand is reduced to the size of the destination.\<close>

lemma uInc3_spec:
  assumes "uInc3 d s = (c, d')"
  shows "be_val d' + unat c * 256 ^ length d = be_val d + be_val s mod 256 ^ length d
    \<and> unat c \<le> 1 \<and> length d' = length d"
proof (cases "length d \<le> length s")
  case True
  with assms have "uInc2 d (drop (length s - length d) s) = (c, d')"
    by (simp add: uInc3_def)
  from uInc2_spec [OF this] True show ?thesis
    by (simp add: be_val_drop)
next
  case False
  let ?k = "length d - length s"
  let ?B = "256 ^ length s :: nat"
  have sless: "be_val s < 256 ^ length d"
    using False less_pow_mono [OF be_val_less, of s "length d"] by simp
  then have small: "be_val s mod 256 ^ length d = be_val s" by simp
  obtain c1 lo where r1: "uInc2 (drop ?k d) s = (c1, lo)" by fastforce
  have s1: "be_val lo + unat c1 * ?B = be_val (drop ?k d) + be_val s"
    "unat c1 \<le> 1" "length lo = length s"
    using uInc2_spec [OF r1] False by simp_all
  have dval: "be_val d = be_val (take ?k d) * ?B + be_val (drop ?k d)"
    using be_val_append [of "take ?k d" "drop ?k d"] False by simp
  have pow: "256 ^ length d = 256 ^ ?k * ?B"
    using False by (simp flip: power_add)
  show ?thesis
  proof (cases "c1 = 0")
    case True
    with assms False r1 have "c = 0" "d' = take ?k d @ lo"
      by (simp_all add: uInc3_def Let_def)
    with True s1 dval small False show ?thesis by (simp add: be_val_append)
  next
    case nz: False
    then have c1: "unat c1 = 1" using s1(2) by (simp add: le_Suc_eq unat_eq_zero)
    obtain c2 hi where r2: "uInc1 (take ?k d) = (c2, hi)" by fastforce
    with assms False r1 nz have d': "c = c2" "d' = hi @ lo"
      by (simp_all add: uInc3_def Let_def)
    have s2: "be_val hi + unat c2 * 256 ^ ?k = be_val (take ?k d) + 1" "length hi = ?k"
      using uInc1_spec [OF r2] False by simp_all
    have "be_val d' + unat c * 256 ^ length d =
        (be_val hi + unat c2 * 256 ^ ?k) * ?B + be_val lo"
      using d' s1(3) pow by (simp add: be_val_append algebra_simps)
    also have "\<dots> = be_val d + be_val s"
      using s1(1) s2(1) c1 dval by (simp add: algebra_simps)
    finally have val: "be_val d' + unat c * 256 ^ length d = be_val d + be_val s" .
    have "be_val d + be_val s < 2 * 256 ^ length d"
      using be_val_less [of d] sless by linarith
    with val have "unat c * 256 ^ length d < 2 * 256 ^ length d" by linarith
    then have "unat c \<le> 1" by simp
    with val small d' s1(3) s2(2) False show ?thesis by simp
  qed
qed

corollary be_val_uInc3:
  "be_val (snd (uInc3 d s)) = (be_val d + be_val s) mod 256 ^ length d"
proof -
  obtain c d' where r: "uInc3 d s = (c, d')" by fastforce
  have e: "be_val d' + unat c * 256 ^ length d = be_val d + be_val s mod 256 ^ length d"
    and l: "length d' = length d"
    using uInc3_spec [OF r] by simp_all
  have "be_val d' = (be_val d' + unat c * 256 ^ length d) mod 256 ^ length d"
    using be_val_less [of d'] l by simp
  then show ?thesis unfolding e using r by (simp add: mod_add_right_eq)
qed

lemma length_uInc3 [simp]: "length (snd (uInc3 d s)) = length d"
  using uInc3_spec [of d s "fst (uInc3 d s)" "snd (uInc3 d s)"] by simp

lemma be_val_uInc1: "be_val (snd (uInc1 d)) = (be_val d + 1) mod 256 ^ length d"
proof -
  obtain c d' where r: "uInc1 d = (c, d')" by fastforce
  have e: "be_val d' + unat c * 256 ^ length d = be_val d + 1" and l: "length d' = length d"
    using uInc1_spec [OF r] by simp_all
  have "be_val d' = (be_val d' + unat c * 256 ^ length d) mod 256 ^ length d"
    using be_val_less [of d'] l by simp
  then show ?thesis unfolding e using r by simp
qed

lemma length_uInc1 [simp]: "length (snd (uInc1 d)) = length d"
  using uInc1_spec [of d "fst (uInc1 d)" "snd (uInc1 d)"] by simp

section \<open>Complement and negation\<close>

lemma unat_xor_ff: "unat ((x :: u8) XOR 0xff) = 255 - unat x"
proof -
  have "(0xff :: u8) = - 1" by simp
  then have "x XOR 0xff = - 1 - x"
    by (simp only: bit.xor_one_right not_eq_complement) simp
  moreover have "unat ((- 1 :: u8) - x) = unat (- 1 :: u8) - unat x"
    by (rule unat_sub) simp
  ultimately show ?thesis
    by (simp add: unsigned_minus_1_eq_mask mask_eq_exp_minus_1)
qed

lemma length_uInv [simp]: "length (uInv d) = length d"
  by (simp add: uInv_def)

lemma be_val_uInv: "be_val (uInv d) + be_val d + 1 = 256 ^ length d"
proof (induction d)
  case Nil
  then show ?case by (simp add: uInv_def)
next
  case (Cons x d)
  have "unat (x XOR 0xff) + unat x = 255"
    using unat_u8_le [of x] unat_xor_ff [of x] by simp
  then have "unat (x XOR 0xff) * 256 ^ length d + unat x * 256 ^ length d = 255 * 256 ^ length d"
    by (simp flip: add_mult_distrib)
  with Cons show ?case by (simp add: uInv_def)
qed

lemma length_uNegate [simp]: "length (uNegate d) = length d"
  by (simp add: uNegate_def)

lemma be_val_uNegate: "be_val (uNegate d) = (256 ^ length d - be_val d) mod 256 ^ length d"
proof -
  have "be_val (uInv d) + 1 = 256 ^ length d - be_val d"
    using be_val_uInv [of d] by simp
  then show ?thesis by (simp add: uNegate_def be_val_uInc1)
qed

section \<open>Comparison\<close>

text \<open>The C library's \<open>memcmp\<close> on buffers of one size (only its sign is specified), and
  \<open>memis0\<close> of \<open>src/utility/common.cpp\<close>.\<close>

fun memcmp :: "bytes \<Rightarrow> bytes \<Rightarrow> int" where
  "memcmp (x # xs) (y # ys) =
     (if x < y then - 1 else if y < x then 1 else memcmp xs ys)"
| "memcmp _ _ = 0"

definition memis0 :: "bytes \<Rightarrow> bool" where
  "memis0 d = list_all (\<lambda>x. x = 0) d"

definition uCmp :: "bytes \<Rightarrow> bytes \<Rightarrow> int" where
  "uCmp s0 s1 =
     (if length s1 < length s0 then
        (let diff = length s0 - length s1 in
         if \<not> memis0 (take diff s0) then 1 else memcmp (drop diff s0) s1)
      else if length s0 < length s1 then
        (let diff = length s1 - length s0 in
         if \<not> memis0 (take diff s1) then - 1 else memcmp s0 (drop diff s1))
      else memcmp s0 s1)"

lemma memis0_be_val: "memis0 d \<longleftrightarrow> be_val d = 0"
  by (simp add: memis0_def be_val_0_iff list_all_iff)

lemma memcmp_spec:
  "length xs = length ys \<Longrightarrow> memcmp xs ys = sgn (int (be_val xs) - int (be_val ys))"
proof (induction xs ys rule: list_induct2)
  case Nil
  then show ?case by simp
next
  case (Cons x xs y ys)
  let ?B = "256 ^ length ys :: int"
  have b: "int (be_val xs) < ?B" "int (be_val ys) < ?B"
    using be_val_less [of xs] be_val_less [of ys] Cons.hyps
    by (metis of_nat_less_iff of_nat_numeral of_nat_power)+
  have step: "(int (unat v) - int (unat u)) * ?B \<ge> ?B" if "u < v" for u v :: u8
  proof -
    have "1 \<le> int (unat v) - int (unat u)"
      using that by (simp add: word_less_def)
    from mult_right_mono [OF this, of ?B] show ?thesis by simp
  qed
  have e: "int (be_val (x # xs)) - int (be_val (y # ys)) =
      (int (unat x) - int (unat y)) * ?B + (int (be_val xs) - int (be_val ys))"
    using Cons.hyps by (simp add: algebra_simps)
  consider "x < y" | "y < x" | "x = y" by (meson linorder_cases)
  then show ?case
  proof cases
    case 1
    have "(int (unat x) - int (unat y)) * ?B = - ((int (unat y) - int (unat x)) * ?B)"
      by (simp add: algebra_simps)
    then have "int (be_val (x # xs)) - int (be_val (y # ys)) < 0"
      using step [OF 1] b unfolding e by linarith
    with 1 show ?thesis by (simp only: memcmp.simps) simp
  next
    case 2
    then have "0 < int (be_val (x # xs)) - int (be_val (y # ys))"
      using step [OF 2] b unfolding e by linarith
    moreover have "\<not> x < y" using 2 by simp
    ultimately show ?thesis using 2 by (simp only: memcmp.simps) simp
  next
    case 3
    with Cons show ?thesis unfolding e by simp
  qed
qed

lemma uCmp_spec: "uCmp a b = sgn (int (be_val a) - int (be_val b))"
proof -
  have *: "uCmp a b = sgn (int (be_val a) - int (be_val b)) \<and>
      uCmp b a = sgn (int (be_val b) - int (be_val a))"
    if "length a < length b" for a b
  proof -
    let ?k = "length b - length a"
    have v: "be_val b = be_val (take ?k b) * 256 ^ length a + be_val (drop ?k b)"
      using be_val_append [of "take ?k b" "drop ?k b"] that by simp
    show ?thesis
    proof (cases "memis0 (take ?k b)")
      case True
      with v have "be_val b = be_val (drop ?k b)" by (simp add: memis0_be_val)
      with True that show ?thesis by (simp add: uCmp_def memcmp_spec Let_def)
    next
      case False
      then have "1 \<le> be_val (take ?k b)" by (simp add: memis0_be_val)
      from mult_right_mono [OF this, of "256 ^ length a"] v be_val_less [of a]
      have "be_val a < be_val b" by linarith
      with False that show ?thesis by (simp add: uCmp_def Let_def)
    qed
  qed
  show ?thesis
  proof (cases "length a = length b")
    case True
    then show ?thesis by (simp add: uCmp_def memcmp_spec)
  next
    case False
    then show ?thesis using * by (meson linorder_neqE_nat)
  qed
qed

lemma uCmp_le_0: "uCmp a b \<le> 0 \<longleftrightarrow> be_val a \<le> be_val b"
  and uCmp_ge_0: "0 \<le> uCmp a b \<longleftrightarrow> be_val b \<le> be_val a"
  and uCmp_less_0: "uCmp a b < 0 \<longleftrightarrow> be_val a < be_val b"
  and uCmp_greater_0: "0 < uCmp a b \<longleftrightarrow> be_val b < be_val a"
  and uCmp_eq_0: "uCmp a b = 0 \<longleftrightarrow> be_val a = be_val b"
  by (auto simp: uCmp_spec sgn_if)

section \<open>Bit length and uniform sampling\<close>

text \<open>\<open>_GetOrder\<close>: the inner \<open>while (x >>= 1) nOrder++\<close>, then the scan for the first nonzero byte.\<close>

function uOrder_loop :: "u8 \<Rightarrow> nat \<Rightarrow> nat" where
  "uOrder_loop x nOrder =
     (let x' = drop_bit 1 x in if x' \<noteq> 0 then uOrder_loop x' (nOrder + 1) else nOrder)"
  by pat_completeness auto
termination
proof (relation "measure (\<lambda>(x, n). unat x)", goal_cases)
  case 1
  then show ?case by simp
next
  case (2 x n x')
  then have "unat x' = unat x div 2" by (simp only: unat_drop_bit power_one_right)
  moreover have "0 < unat x'" using 2 by (simp add: unat_gt_0)
  ultimately show ?case by simp
qed

declare uOrder_loop.simps [simp del]

fun uGetOrder :: "bytes \<Rightarrow> nat" where
  "uGetOrder [] = 0"
| "uGetOrder (x # xs) =
     (if x = 0 then uGetOrder xs else uOrder_loop x (8 * length (x # xs) - 7))"

lemma uOrder_loop_spec:
  "x \<noteq> 0 \<Longrightarrow> n \<le> uOrder_loop x n \<and>
   2 ^ (uOrder_loop x n - n) \<le> unat x \<and> unat x < 2 ^ Suc (uOrder_loop x n - n)"
proof (induction x n rule: uOrder_loop.induct)
  case (1 x n)
  let ?x' = "drop_bit 1 x :: u8"
  have half: "unat ?x' = unat x div 2" by (simp only: unat_drop_bit power_one_right)
  have pos: "0 < unat x" using 1(2) by (simp add: unat_gt_0)
  show ?case
  proof (cases "?x' = 0")
    case True
    then have "unat x < 2" using half by (simp add: unat_eq_zero div_eq_0_iff)
    with True pos show ?thesis by (simp add: uOrder_loop.simps [of x n])
  next
    case False
    have r: "uOrder_loop x n = uOrder_loop ?x' (n + 1)"
      using False by (simp add: uOrder_loop.simps [of x n])
    let ?k = "uOrder_loop ?x' (n + 1) - (n + 1)"
    have ih: "n + 1 \<le> uOrder_loop ?x' (n + 1)" "2 ^ ?k \<le> unat x div 2" "unat x div 2 < 2 ^ Suc ?k"
      using 1(1) [OF refl] False half by simp_all
    then have "uOrder_loop x n - n = Suc ?k" unfolding r by simp
    moreover have "2 ^ Suc ?k \<le> unat x" "unat x < 2 ^ Suc (Suc ?k)" using ih(2,3) by simp_all
    ultimately show ?thesis using ih(1) r by simp
  qed
qed

lemma uGetOrder_spec:
  "(be_val d = 0 \<longrightarrow> uGetOrder d = 0) \<and>
   (be_val d \<noteq> 0 \<longrightarrow> 0 < uGetOrder d \<and> 2 ^ (uGetOrder d - 1) \<le> be_val d \<and> be_val d < 2 ^ uGetOrder d)"
proof (induction d)
  case Nil
  then show ?case by simp
next
  case (Cons x d)
  show ?case
  proof (cases "x = 0")
    case True
    with Cons show ?thesis by simp
  next
    case False
    let ?n = "8 * length d + 1"
    let ?o = "uOrder_loop x ?n"
    let ?B = "256 ^ length d :: nat"
    have o: "?n \<le> ?o" "2 ^ (?o - ?n) \<le> unat x" "unat x < 2 ^ Suc (?o - ?n)"
      using uOrder_loop_spec [OF False, of ?n] by simp_all
    have g: "uGetOrder (x # d) = ?o" using False by simp
    have "2 ^ (?o - 1) = 2 ^ (?o - ?n) * ?B"
      using o(1) by (simp add: pow256 flip: power_add)
    also have "\<dots> \<le> unat x * ?B" using o(2) by simp
    finally have lo: "2 ^ (?o - 1) \<le> be_val (x # d)" by simp
    have "be_val (x # d) < (unat x + 1) * ?B" using be_val_less [of d] by simp
    also have "\<dots> \<le> 2 ^ Suc (?o - ?n) * ?B" using o(3) by (intro mult_right_mono) simp_all
    also have "\<dots> = 2 ^ ?o" using o(1) by (simp add: pow256 flip: power_add power_Suc)
    finally have hi: "be_val (x # d) < 2 ^ ?o" .
    have "0 < be_val (x # d)" by (rule less_le_trans [OF _ lo]) simp
    with lo hi g o(1) show ?thesis by simp
  qed
qed

text \<open>\<open>_Accept\<close>: truncate a random value to the bit length of the threshold, accept it when it is
  below the threshold.  The result tells acceptance and the destination afterwards.\<close>

definition uAccept :: "bytes \<Rightarrow> bytes \<Rightarrow> nat \<Rightarrow> bool \<times> bytes" where
  "uAccept d thr nThrOrder =
     (if nThrOrder = 0 then (False, d)
      else
        (let o1 = nThrOrder - 1;
             nOffs = length d - 1 - o1 div 8;
             msk = push_bit (o1 mod 8) 2 - 1;
             d1 = d[nOffs := d ! nOffs AND msk]
         in if 0 \<le> memcmp (drop nOffs d1) (drop nOffs thr) then (False, d1)
            else (True, replicate nOffs 0 @ drop nOffs d1)))"

lemma unat_and_low_bits: "unat ((x :: u8) AND (push_bit k 2 - 1)) = unat x mod 2 ^ Suc k"
proof -
  have "(push_bit k 2 - 1 :: u8) = mask (Suc k)"
    by (simp add: mask_eq_exp_minus_1 push_bit_eq_mult mult.commute)
  then have "x AND (push_bit k 2 - 1) = take_bit (Suc k) x"
    by (simp only: take_bit_eq_mask)
  moreover have "unat (take_bit (Suc k) x) = unat x mod 2 ^ Suc k"
    by (subst unsigned_take_bit_eq) (rule take_bit_eq_mod)
  ultimately show ?thesis by simp
qed

lemma uAccept_masked:
  assumes "0 < o1" and "o1 \<le> 8 * length d"
    and "nOffs = length d - 1 - (o1 - 1) div 8"
  shows "be_val (drop nOffs (d[nOffs := d ! nOffs AND (push_bit ((o1 - 1) mod 8) 2 - 1)]))
    = be_val d mod 2 ^ o1"
proof -
  let ?k = "(o1 - 1) mod 8"
  let ?m = "(o1 - 1) div 8"
  let ?B = "256 ^ ?m :: nat"
  let ?t = "drop (Suc nOffs) d"
  have m: "?m < length d" using assms(1,2) by (simp add: div_less_iff_less_mult)
  have n: "nOffs < length d" "length d - nOffs = Suc ?m" "length ?t = ?m"
    using m assms(3) by simp_all
  have o: "o1 = Suc ?k + 8 * ?m" using assms(1) by simp
  have p: "2 ^ Suc ?k * ?B = 2 ^ o1"
    by (subst (3) o) (simp only: power_add pow256)
  have "drop nOffs (d[nOffs := y]) = y # ?t" for y
    using n(1) by (simp add: drop_update_swap Cons_nth_drop_Suc [symmetric])
  then have "be_val (drop nOffs (d[nOffs := d ! nOffs AND (push_bit ?k 2 - 1)])) =
      (unat (d ! nOffs) mod 2 ^ Suc ?k) * ?B + be_val ?t"
    using n(3) by (simp add: unat_and_low_bits del: power_Suc)
  also have "\<dots> = (unat (d ! nOffs) * ?B + be_val ?t) mod (2 ^ Suc ?k * ?B)"
    using be_val_less [of ?t] n(3) by (simp only: mod_mult_add_low)
  also have "unat (d ! nOffs) * ?B + be_val ?t = be_val (drop nOffs d)"
    using n by (simp add: Cons_nth_drop_Suc [symmetric])
  also have "\<dots> mod (2 ^ Suc ?k * ?B) = be_val d mod 256 ^ Suc ?m mod 2 ^ o1"
    using n by (simp only: be_val_drop less_imp_le p)
  also have "\<dots> = be_val d mod 2 ^ o1"
  proof -
    have "(2 :: nat) ^ o1 dvd 256 ^ Suc ?m"
      unfolding pow256 by (rule le_imp_power_dvd) presburger
    then show ?thesis by (simp add: mod_mod_cancel)
  qed
  finally show ?thesis .
qed

lemma uAccept_spec:
  assumes "length thr = length d" and "be_val thr \<noteq> 0"
  shows "case uAccept d thr (uGetOrder thr) of (ok, d') \<Rightarrow>
    length d' = length d \<and>
    (ok \<longleftrightarrow> be_val d mod 2 ^ uGetOrder thr < be_val thr) \<and>
    (ok \<longrightarrow> be_val d' = be_val d mod 2 ^ uGetOrder thr \<and> be_val d' < be_val thr)"
proof -
  let ?o = "uGetOrder thr"
  let ?nOffs = "length d - 1 - (?o - 1) div 8"
  let ?d1 = "d[?nOffs := d ! ?nOffs AND (push_bit ((?o - 1) mod 8) 2 - 1)]"
  have o: "0 < ?o" "2 ^ (?o - 1) \<le> be_val thr" "be_val thr < 2 ^ ?o"
    using uGetOrder_spec [of thr] assms(2) by simp_all
  have "2 ^ (?o - 1) < (2 :: nat) ^ (8 * length d)"
    using le_less_trans [OF o(2) be_val_less] assms(1) by (simp only: pow256)
  then have ole: "?o \<le> 8 * length d" using o(1) by simp
  have dv: "be_val (drop ?nOffs ?d1) = be_val d mod 2 ^ ?o"
    by (rule uAccept_masked [OF o(1) ole refl])
  have m: "(?o - 1) div 8 < length d" using o(1) ole by (simp add: div_less_iff_less_mult)
  then have n: "?nOffs < length d" "length d - ?nOffs = Suc ((?o - 1) div 8)" by simp_all
  have "(2 :: nat) ^ ?o \<le> 256 ^ (length d - ?nOffs)"
    unfolding pow256 n(2) by (rule power_increasing) (use o(1) in simp_all)
  then have tv: "be_val (drop ?nOffs thr) = be_val thr"
    using n assms(1) o(3) by (simp add: be_val_drop)
  define d1 where "d1 = ?d1"
  define k where "k = ?nOffs"
  have dv': "be_val (drop k d1) = be_val d mod 2 ^ ?o" and tv': "be_val (drop k thr) = be_val thr"
    using dv tv by (simp_all only: d1_def k_def)
  have l: "length d1 = length d" "k < length d"
    using n(1) by (simp_all only: d1_def k_def length_list_update)
  have "memcmp (drop k d1) (drop k thr) = sgn (int (be_val d mod 2 ^ ?o) - int (be_val thr))"
    using l assms(1) dv' tv' by (subst memcmp_spec) simp_all
  then have c: "0 \<le> memcmp (drop k d1) (drop k thr) \<longleftrightarrow> be_val thr \<le> be_val d mod 2 ^ ?o"
    by (auto simp: sgn_if)
  have u: "uAccept d thr ?o =
      (if 0 \<le> memcmp (drop k d1) (drop k thr) then (False, d1)
       else (True, replicate k 0 @ drop k d1))"
    using o(1) unfolding d1_def k_def by (simp only: uAccept_def Let_def) simp
  have v: "be_val (replicate k 0 @ drop k d1) = be_val d mod 2 ^ ?o"
    by (simp add: be_val_append dv')
  show ?thesis
    unfolding u c using l v by simp
qed

section \<open>Properties\<close>

text \<open>\<open>_Cmp\<close> on two buffers of any sizes returns a number with the sign of the difference of their Big-Endian
  values, so the comparison operators built on it order \<open>uintBig_t\<close> values numerically.\<close>

theorem Cmp_is_numeric_order: "uCmp a b = sgn (int (be_val a) - int (be_val b))"
  by (rule uCmp_spec)

text \<open>\<open>_Inc\<close> with an addend of any size adds modulo the size of the destination and returns the carry: the
  destination and the carry together are the exact sum with the addend cropped to the destination.\<close>

theorem Inc_adds_with_carry:
  "case uInc3 d s of (c, d') \<Rightarrow>
     length d' = length d \<and> unat c \<le> 1 \<and>
     be_val d' + unat c * 256 ^ length d = be_val d + be_val s mod 256 ^ length d"
  using uInc3_spec [of d s] by (auto split: prod.split)

text \<open>\<open>Threshold::Accept\<close> for a nonzero threshold of the same size cuts the candidate to the bit length of
  the threshold and accepts it exactly when the result is below the threshold; an accepted candidate holds the
  cut value.\<close>

theorem Accept_below_threshold:
  assumes "length thr = length d" and "be_val thr \<noteq> 0"
  shows "case uAccept d thr (uGetOrder thr) of (ok, d') \<Rightarrow>
    length d' = length d \<and>
    (ok \<longleftrightarrow> be_val d mod 2 ^ uGetOrder thr < be_val thr) \<and>
    (ok \<longrightarrow> be_val d' = be_val d mod 2 ^ uGetOrder thr \<and> be_val d' < be_val thr)"
  by (rule uAccept_spec [OF assms])

theorem Accept_below_threshold_witness:
  "uAccept [7, 0xf3] [0, 5] (uGetOrder [0, 5]) = (True, [0, 3]) \<and>
   (case uAccept [7, 0xf3] [0, 5] (uGetOrder [0, 5]) of (ok, d') \<Rightarrow>
      length d' = length [7, 0xf3 :: u8] \<and>
      (ok \<longleftrightarrow> be_val [7, 0xf3] mod 2 ^ uGetOrder [0, 5] < be_val [0, 5]) \<and>
      (ok \<longrightarrow> be_val d' = be_val [7, 0xf3] mod 2 ^ uGetOrder [0, 5] \<and> be_val d' < be_val [0, 5]))"
proof
  show "uAccept [7, 0xf3] [0, 5] (uGetOrder [0, 5]) = (True, [0, 3])" by code_simp
  show "case uAccept [7, 0xf3] [0, 5] (uGetOrder [0, 5]) of (ok, d') \<Rightarrow>
      length d' = length [7, 0xf3 :: u8] \<and>
      (ok \<longleftrightarrow> be_val [7, 0xf3] mod 2 ^ uGetOrder [0, 5] < be_val [0, 5]) \<and>
      (ok \<longrightarrow> be_val d' = be_val [7, 0xf3] mod 2 ^ uGetOrder [0, 5] \<and> be_val d' < be_val [0, 5])"
    by (rule Accept_below_threshold) simp_all
qed

end
