(* ===== verification/Uint_Codec.thy ===== *)
theory Uint_Codec
  imports Uint_Big
begin

text \<open>
  The conversions of \<open>uintBig_t\<close> (\<open>src/core/uintBig.h\<close>, \<open>src/core/uintBig.cpp\<close>): writing an unsigned
  ordinal into a buffer (\<open>_AssignRangeAligned\<close>, \<open>_AssignRangeAlignedSafe\<close>, \<open>_AssignSafe\<close>,
  \<open>AssignOrdinal\<close>), reading it back (\<open>_ExportAligned\<close>), the hexadecimal text of a buffer (\<open>_Print\<close>,
  \<open>_Scan\<close>) and the four-character codes (\<open>FourCC::Text\<close>).  An ordinal of the C++ type \<open>T\<close> is a word of
  type \<open>'a word\<close>; \<open>sizeof(T)\<close> is \<open>LENGTH('a) div 8\<close>.
\<close>

section \<open>Ordinals\<close>

text \<open>The loop \<open>for (i = nBytesX; i--; x >>= 8)\<close> of \<open>_AssignRangeAligned\<close>.\<close>

fun uAssignRange_loop :: "nat \<Rightarrow> nat \<Rightarrow> 'a::len word \<Rightarrow> bytes \<Rightarrow> bytes" where
  "uAssignRange_loop b 0 x d = d"
| "uAssignRange_loop b (Suc i) x d = uAssignRange_loop b i (drop_bit 8 x) (d[b + i := ucast x])"

definition uAssignRangeAligned :: "bytes \<Rightarrow> 'a::len word \<Rightarrow> nat \<Rightarrow> nat \<Rightarrow> bytes" where
  "uAssignRangeAligned d x nOffsetBytes nBytesX =
     uAssignRange_loop (length d - (nOffsetBytes + nBytesX)) nBytesX x d"

definition uAssignRangeAlignedSafe :: "bytes \<Rightarrow> 'a::len word \<Rightarrow> nat \<Rightarrow> nat \<Rightarrow> bool \<times> bytes" where
  "uAssignRangeAlignedSafe d x nOffsetBytes nBytesX =
     (if length d < nOffsetBytes then (False, d)
      else
        (let n = length d - nOffsetBytes; b = nBytesX \<le> n
         in (b, uAssignRangeAligned d x nOffsetBytes (if b then nBytesX else n))))"

definition uAssignSafe :: "bytes \<Rightarrow> 'a::len word \<Rightarrow> nat \<Rightarrow> bool \<times> bytes" where
  "uAssignSafe d x nOffset =
     (let sz = LENGTH('a) div 8; nOffsetBytes = nOffset div 8; r = nOffset mod 8;
          (b, d1) = uAssignRangeAlignedSafe d (push_bit r x) nOffsetBytes sz
      in if \<not> b then (False, d1)
         else if r \<noteq> 0 then
           (if length d - 1 < nOffsetBytes + sz then (False, d1)
            else (True, d1[length d - 1 - (nOffsetBytes + sz) := ucast (drop_bit (8 * sz - r) x)]))
         else (True, d1))"

definition uAssignOrdinal :: "bytes \<Rightarrow> 'a::len word \<Rightarrow> bytes" where
  "uAssignOrdinal d x =
     (let sz = LENGTH('a) div 8; k = length d - sz
      in uAssignRangeAligned (replicate k 0 @ drop k d) x 0 sz)"

definition uExport :: "bytes \<Rightarrow> 'a::len word" where
  "uExport d = foldl (\<lambda>out x. push_bit 8 out OR ucast x) (ucast (hd d)) (tl d)"

lemma ucast_u8_of_nat: "(ucast (x :: 'a::len word) :: u8) = of_nat (unat x mod 256)"
  by (rule unsigned_word_eqI [where ?'a = nat])
    (simp add: unsigned_ucast_eq take_bit_eq_mod unat_of_nat)

lemma uAssignRange_loop_eq:
  fixes x :: "'a::len word"
  assumes "b + i \<le> length d"
  shows "uAssignRange_loop b i x d = take b d @ be_bytes i (unat x) @ drop (b + i) d"
  using assms
proof (induction i arbitrary: x d)
  case 0
  then show ?case by simp
next
  case (Suc i)
  let ?d = "d[b + i := ucast x]"
  have "(ucast x :: u8) = of_nat (unat x mod 256)" by (rule ucast_u8_of_nat)
  then have "drop (b + i) ?d = of_nat (unat x mod 256) # drop (b + Suc i) d"
    using Suc.prems by (simp add: drop_update_swap Cons_nth_drop_Suc [symmetric])
  moreover have "unat (drop_bit 8 x) = unat x div 256" by (simp add: unat_drop_bit)
  ultimately show ?case using Suc.IH [of ?d "drop_bit 8 x"] Suc.prems by simp
qed

lemma length_uAssignRange_loop [simp]: "length (uAssignRange_loop b i x d) = length d"
  by (induction i arbitrary: x d) simp_all

lemma length_uAssignSafe [simp]: "length (snd (uAssignSafe d x n)) = length d"
  by (simp add: uAssignSafe_def uAssignRangeAlignedSafe_def uAssignRangeAligned_def Let_def)

lemma uAssignRangeAligned_zero:
  assumes "o8 + k \<le> n"
  shows "uAssignRangeAligned (replicate n 0) x o8 k =
    replicate (n - (o8 + k)) 0 @ be_bytes k (unat x) @ replicate o8 0"
  using assms by (simp add: uAssignRangeAligned_def uAssignRange_loop_eq)

lemma mod_pow256_shift: "o8 \<le> n \<Longrightarrow> (v mod 256 ^ (n - o8)) * 256 ^ o8 = (v * 256 ^ o8) mod (256 :: nat) ^ n"
  by (metis mult_mod_left le_add_diff_inverse2 power_add)

text \<open>\<open>AssignSafe\<close> on a zeroed buffer stores the shifted ordinal reduced to the buffer, and says \<open>true\<close> only
  when nothing was cut off.\<close>

lemma uAssignSafe_zero:
  fixes x :: "'a::len word"
  assumes sz: "LENGTH('a) = 8 * k" and run: "uAssignSafe (replicate n 0) x nOffset = (b, d)"
  shows "be_val d = (unat x * 2 ^ nOffset) mod 256 ^ n" "b \<Longrightarrow> unat x * 2 ^ nOffset < 256 ^ n"
proof -
  define o8 r where "o8 = nOffset div 8" and "r = nOffset mod 8"
  define y where "y = unat x * 2 ^ r"
  have off: "unat x * 2 ^ nOffset = y * 256 ^ o8"
    by (simp add: y_def o8_def r_def pow256 flip: power_add)
  have X: "unat x < 256 ^ k" using unsigned_less [of x, where ?'a = nat] sz by (simp add: pow256)
  have px: "unat (push_bit r x) = y mod 256 ^ k"
    by (simp only: unsigned_push_bit_eq) (simp add: take_bit_eq_mod push_bit_eq_mult sz pow256 y_def)
  have "be_val d = (y * 256 ^ o8) mod 256 ^ n \<and> (b \<longrightarrow> y * 256 ^ o8 < 256 ^ n)"
  proof (cases "n < o8")
    case True
    then have "256 ^ n dvd y * 256 ^ o8" by (intro dvd_mult le_imp_power_dvd) simp
    then show ?thesis
      using True run by (auto simp: uAssignSafe_def uAssignRangeAlignedSafe_def Let_def o8_def)
  next
    case False
    define m where "m = min k (n - o8)"
    define d1 where "d1 = replicate (n - (o8 + m)) 0 @ be_bytes m (y mod 256 ^ k) @ replicate o8 (0 :: u8)"
    have a: "uAssignRangeAlignedSafe (replicate n 0) (push_bit r x) o8 k = (k \<le> n - o8, d1)"
      using False uAssignRangeAligned_zero [of o8 m n "push_bit r x"]
      by (auto simp: uAssignRangeAlignedSafe_def Let_def m_def d1_def px min_def)
    have v1: "be_val d1 = (y mod 256 ^ m) * 256 ^ o8" and l1: "length d1 = n"
      using False mod_mod_cancel [OF le_imp_power_dvd [of m k "256 :: nat"], of y]
      by (simp_all add: d1_def be_val_append m_def)
    have full: "be_val d1 = (y * 256 ^ o8) mod 256 ^ n" if "n \<le> o8 + k"
    proof -
      have "m = n - o8" using that False by (simp add: m_def)
      then show ?thesis using False v1 mod_pow256_shift [of o8 n y] by simp
    qed
    have exact: ?thesis if "be_val d = y * 256 ^ o8" "length d = n"
      using that be_val_less [of d] by simp
    have k0: "0 < k" using sz by (metis len_gt_0 mult_0_right neq0_conv)
    have step: "(b, d) = (if \<not> k \<le> n - o8 then (False, d1)
        else if r \<noteq> 0 then (if n - 1 < o8 + k then (False, d1)
          else (True, d1[n - 1 - (o8 + k) := ucast (drop_bit (8 * k - r) x)]))
        else (True, d1))"
    proof -
      have "LENGTH('a) div 8 = k" by (simp add: sz)
      then show ?thesis
        unfolding run [symmetric] uAssignSafe_def Let_def o8_def [symmetric] r_def [symmetric]
        by (simp only: a prod.case length_replicate)
    qed
    have "n - 1 < o8 + k \<or> o8 + k < n" using k0 by linarith
    then consider "\<not> k \<le> n - o8" | "k \<le> n - o8" "r = 0" | "k \<le> n - o8" "r \<noteq> 0" "n - 1 < o8 + k"
      | "k \<le> n - o8" "r \<noteq> 0" "o8 + k < n"
      by blast
    then show ?thesis
    proof cases
      case 1
      then show ?thesis using step full by simp
    next
      case 2
      then have "d = d1" "y mod 256 ^ m = y" using step X by (simp_all add: m_def y_def)
      then show ?thesis using exact v1 l1 by simp
    next
      case 3
      then have "n \<le> o8 + k" using k0 by linarith
      then show ?thesis using 3 step full by simp
    next
      case 4
      define j where "j = n - 1 - (o8 + k)"
      have j: "j < length d1" "length d1 - Suc j = o8 + k" "m = k" "j < n - (o8 + k)"
        using 4 l1 by (simp_all add: j_def m_def)
      then have z: "d1 ! j = 0" by (simp add: d1_def nth_append)
      have d: "d = d1[j := ucast (drop_bit (8 * k - r) x)]" 
      proof -
        have "\<not> n - 1 < o8 + k" using 4 by linarith
        then show ?thesis using 4 step by (simp add: j_def)
      qed
      have "r < 8" by (simp add: r_def)
      then have "8 * k = 8 * k - r + r" using k0 by simp
      then have "(256 :: nat) ^ k = 2 ^ (8 * k - r) * 2 ^ r" by (metis pow256 power_add)
      then have q: "unat x div 2 ^ (8 * k - r) = y div 256 ^ k" by (simp add: y_def)
      have "y < 2 ^ r * 256 ^ k" using X by (simp add: y_def)
      then have "y div 256 ^ k < 2 ^ r" by (simp add: div_less_iff_less_mult)
      also have "(2 :: nat) ^ r < 256" using \<open>r < 8\<close> power_strict_increasing [of r 8 "2 :: nat"] by simp
      finally have u: "unat (ucast (drop_bit (8 * k - r) x) :: u8) = y div 256 ^ k"
        by (simp add: ucast_u8_of_nat unat_of_nat unat_drop_bit q)
      have "int (be_val d) = int ((y mod 256 ^ k) * 256 ^ o8 + (y div 256 ^ k) * 256 ^ (o8 + k))"
        using be_val_update [OF j(1), of "ucast (drop_bit (8 * k - r) x)"] v1 u j d z by simp
      then have "be_val d = (y mod 256 ^ k) * 256 ^ o8 + (y div 256 ^ k) * 256 ^ (o8 + k)"
        by (simp only: of_nat_eq_iff)
      also have "\<dots> = (y mod 256 ^ k + 256 ^ k * (y div 256 ^ k)) * 256 ^ o8"
        by (simp only: power_add distrib_left distrib_right mult.commute mult.left_commute)
      also have "\<dots> = y * 256 ^ o8" by (simp only: mod_mult_div_eq)
      finally show ?thesis using exact l1 d by simp
    qed
  qed
  then show "be_val d = (unat x * 2 ^ nOffset) mod 256 ^ n" "b \<Longrightarrow> unat x * 2 ^ nOffset < 256 ^ n"
    by (simp_all add: off)
qed


lemma uExport_step:
  fixes v :: "'a::len word"
  assumes "unat v * 256 + 255 < 2 ^ LENGTH('a)" and "8 \<le> LENGTH('a)"
  shows "unat (push_bit 8 v OR ucast (x :: u8)) = unat v * 256 + unat x"
proof -
  have ux: "unat (ucast x :: 'a word) = unat x"
    using assms(2) unsigned_less [of x, where ?'a = nat] power_increasing [of 8 "LENGTH('a)" "2 :: nat"]
    by (simp add: unsigned_ucast_eq take_bit_nat_eq_self_iff)
  have uv: "unat (push_bit 8 v) = unat v * 256"
    using assms(1) by (simp only: unsigned_push_bit_eq) (simp add: take_bit_eq_mod push_bit_eq_mult)
  have "push_bit 8 v OR ucast x = push_bit 8 v + ucast x"
    using ux unat_u8_less [of x] by (intro word_or_disjoint_add [where n = 8 and c = v]) simp_all
  then show ?thesis using ux uv unat_u8_le [of x] assms(1) by (simp add: unat_word_ariths)
qed

lemma uExport_fold:
  fixes v :: "'a::len word"
  assumes "unat v * 256 ^ length d + be_val d < 2 ^ LENGTH('a)"
    and "(unat v + 1) * 256 ^ length d \<le> 2 ^ LENGTH('a)" and "8 \<le> LENGTH('a)"
  shows "unat (foldl (\<lambda>out x. push_bit 8 out OR ucast x) v d) = unat v * 256 ^ length d + be_val d"
  using assms
proof (induction d arbitrary: v)
  case Nil
  then show ?case by simp
next
  case (Cons x d)
  have p: "1 \<le> (256 :: nat) ^ length d" by simp
  have "(unat v + 1) * 256 * 1 \<le> (unat v + 1) * 256 * 256 ^ length d" using p by (rule mult_le_mono2)
  also have "\<dots> \<le> 2 ^ LENGTH('a)" using Cons.prems(2) by (simp only: length_Cons power_Suc mult.assoc)
  finally have "(unat v + 1) * 256 \<le> 2 ^ LENGTH('a)" by simp
  then have s: "unat (push_bit 8 v OR ucast x) = unat v * 256 + unat x"
    using Cons.prems(3) by (intro uExport_step) simp_all
  have "(unat v * 256 + unat x + 1) * 256 ^ length d \<le> ((unat v + 1) * 256) * 256 ^ length d"
    using unat_u8_le [of x] by (intro mult_le_mono1) simp
  also have "\<dots> \<le> 2 ^ LENGTH('a)" using Cons.prems(2) by (simp add: algebra_simps)
  finally show ?case
    using Cons.IH [of "push_bit 8 v OR ucast x"] Cons.prems(1,3) s by (simp add: algebra_simps)
qed

text \<open>\<open>Export\<close> reads the Big-Endian value of a buffer no larger than the ordinal.\<close>

lemma unat_uExport:
  assumes "d \<noteq> []" and "8 * length d \<le> LENGTH('a)"
  shows "unat (uExport d :: 'a::len word) = be_val d"
proof -
  obtain x ds where d: "d = x # ds" using assms(1) by (cases d) auto
  have L: "8 \<le> LENGTH('a)" using assms(2) d by simp
  have ux: "unat (ucast x :: 'a word) = unat x"
    using L unsigned_less [of x, where ?'a = nat] power_increasing [of 8 "LENGTH('a)" "2 :: nat"]
    by (simp add: unsigned_ucast_eq take_bit_nat_eq_self_iff)
  have c: "(256 :: nat) ^ length d \<le> 2 ^ LENGTH('a)" using assms(2) by (simp add: pow256)
  have "(unat x + 1) * 256 ^ length ds \<le> 256 * 256 ^ length ds"
    using unat_u8_le [of x] by (intro mult_le_mono1) simp
  then have "(unat x + 1) * 256 ^ length ds \<le> 2 ^ LENGTH('a)"
    by (rule order_trans) (use c d in simp)
  then show ?thesis
    using uExport_fold [of "ucast x :: 'a word" ds] L ux c be_val_less [of d] d by (simp add: uExport_def)
qed

text \<open>\<open>AssignOrdinal\<close> stores an ordinal in a buffer at least as large.\<close>

lemma uAssignOrdinal_eq:
  fixes x :: "'a::len word"
  assumes "LENGTH('a) = 8 * k" and "k \<le> length d"
  shows "uAssignOrdinal d x = be_bytes (length d) (unat x)"
proof -
  have X: "unat x < 256 ^ k" using unsigned_less [of x, where ?'a = nat] assms(1) by (simp add: pow256)
  have e: "uAssignOrdinal d x = replicate (length d - k) 0 @ be_bytes k (unat x)"
    using assms by (simp add: uAssignOrdinal_def uAssignRangeAligned_def uAssignRange_loop_eq Let_def)
  have "be_val (uAssignOrdinal d x) = be_val (be_bytes (length d) (unat x))"
    using X less_pow_mono [OF X assms(2)] by (simp add: e be_val_append)
  then show ?thesis using e assms(2) by (subst (asm) be_val_inject) simp_all
qed

lemma uExport_uAssignOrdinal:
  fixes x :: "'a::len word"
  assumes "LENGTH('a) = 8 * k" and "k = length d"
  shows "uExport (uAssignOrdinal d x) = x"
proof -
  have X: "unat x < 256 ^ k" using unsigned_less [of x, where ?'a = nat] assms(1) by (simp add: pow256)
  have "0 < k" using assms(1) by (metis len_gt_0 mult_0_right neq0_conv)
  moreover have "length (uAssignOrdinal d x) = k" using uAssignOrdinal_eq [OF assms(1)] assms(2) by simp
  ultimately have "uAssignOrdinal d x \<noteq> []" by auto
  then have "unat (uExport (uAssignOrdinal d x) :: 'a word) = unat x"
    using X assms by (subst unat_uExport) (simp_all add: uAssignOrdinal_eq [OF assms(1)])
  then show ?thesis by (rule unsigned_word_eqI)
qed

section \<open>Hexadecimal text\<close>

text \<open>Characters are bytes; \<open>'0'\<close> is 48, \<open>'a'\<close> 97, \<open>'f'\<close> 102, \<open>'A'\<close> 65, \<open>'F'\<close> 70.\<close>

definition ChFromHex :: "u8 \<Rightarrow> u8" where
  "ChFromHex v = v + (if v < 10 then 48 else 97 - 10)"

definition Ch2Hex :: "u8 \<Rightarrow> u8" where
  "Ch2Hex c =
     (if 97 \<le> c \<and> c \<le> 102 then 0xa + (c - 97)
      else if 65 \<le> c \<and> c \<le> 70 then 0xa + (c - 65)
      else c - 48)"

text \<open>\<open>_Print\<close> into a character buffer, with the terminating zero.\<close>

definition uPrint :: "bytes \<Rightarrow> bytes" where
  "uPrint d = concat (map (\<lambda>x. [ChFromHex (drop_bit 4 x), ChFromHex (x AND 0xf)]) d) @ [0]"

text \<open>\<open>_Str\<close>: the text without the terminator.\<close>

definition uStr :: "bytes \<Rightarrow> bytes" where
  "uStr d = (if d \<noteq> [] then take (2 * length d) (uPrint d) else [])"

text \<open>The stream printers: \<open>_Print\<close> truncates to eight bytes; \<open>_PrintFull\<close> prints chunks of eight.\<close>

definition uPrint_stream :: "bytes \<Rightarrow> bytes" where
  "uPrint_stream d = butlast (uPrint (take (if 8 < length d then 8 else length d) d))"

function uPrintFull :: "bytes \<Rightarrow> bytes" where
  "uPrintFull d =
     (if d = [] then []
      else
        (let bLast = length d \<le> 8; out = butlast (uPrint (take (if bLast then length d else 8) d))
         in if bLast then out else out @ uPrintFull (drop 8 d)))"
  by pat_completeness auto
termination by (relation "measure length") auto

declare uPrintFull.simps [simp del]

text \<open>\<open>_Scan\<close>: \<open>k\<close> characters remain, \<open>ret\<close> are consumed and \<open>p\<close> is the offset of the destination pointer.\<close>

fun uScan_loop :: "bytes \<Rightarrow> nat \<Rightarrow> nat \<Rightarrow> nat \<Rightarrow> bytes \<Rightarrow> nat \<times> bytes" where
  "uScan_loop sz 0 ret p d = (ret, d)"
| "uScan_loop sz (Suc k) ret p d =
     (let x = Ch2Hex (sz ! ret)
      in if 0xf < x then (ret, d)
         else if odd ret then uScan_loop sz k (ret + 1) (p + 1) (d[p := d ! p OR x])
         else uScan_loop sz k (ret + 1) p (d[p := push_bit 4 x]))"

definition uScan :: "bytes \<Rightarrow> bytes \<Rightarrow> nat \<Rightarrow> nat \<times> bytes" where
  "uScan d sz nTxtLen = uScan_loop sz nTxtLen 0 0 d"

lemma Ch2Hex_ChFromHex:
  assumes "unat v < 16"
  shows "Ch2Hex (ChFromHex v) = v"
proof -
  have "\<forall>n \<in> set [0..<16]. Ch2Hex (ChFromHex (of_nat n)) = of_nat n" by code_simp
  from bspec [OF this, of "unat v"] assms show ?thesis by simp
qed

lemma nibbles:
  "unat (drop_bit 4 (x :: u8)) < 16" "unat (x AND 0xf) < 16"
  "push_bit 4 (drop_bit 4 x) OR (x AND 0xf) = x"
proof -
  have m: "x AND 0xf = take_bit 4 x" by (simp add: take_bit_eq_mask mask_eq_exp_minus_1)
  show "unat (drop_bit 4 x) < 16" using unat_u8_less [of x] by (simp add: unat_drop_bit)
  show "unat (x AND 0xf) < 16" by (simp only: m unsigned_take_bit_eq) (simp add: take_bit_eq_mod)
  have "push_bit 4 (drop_bit 4 x) OR take_bit 4 x = push_bit 4 (drop_bit 4 x) + take_bit 4 x"
  proof (rule word_or_disjoint_add [where n = 4 and c = "drop_bit 4 x"])
    show "unat (take_bit 4 x) < 2 ^ 4" by (simp only: unsigned_take_bit_eq) (simp add: take_bit_eq_mod)
  qed simp
  then show "push_bit 4 (drop_bit 4 x) OR (x AND 0xf) = x" by (simp add: m bits_ident)
qed

lemma not_less_16: "unat (x :: u8) < 16 \<Longrightarrow> \<not> 0xf < x"
  by (simp add: word_less_nat_alt)

lemma length_hex [simp]:
  "length (concat (map (\<lambda>x. [f x, g x]) d)) = 2 * length d"
  by (induction d) simp_all

lemma uScan_loop_print:
  assumes "length rest = length suf" and "pre @ suf = d"
  shows "uScan_loop (uPrint d) (2 * length suf) (2 * length pre) (length pre) (pre @ rest) =
    (2 * length d, d)"
  using assms
proof (induction suf arbitrary: pre rest)
  case Nil
  then show ?case by simp
next
  case (Cons x suf)
  obtain r rest' where r: "rest = r # rest'" "length rest' = length suf"
    using Cons.prems(1) by (cases rest) auto
  have c: "uPrint d ! (2 * length pre) = ChFromHex (drop_bit 4 x)"
      "uPrint d ! Suc (2 * length pre) = ChFromHex (x AND 0xf)"
    unfolding uPrint_def Cons.prems(2) [symmetric] by (simp_all add: nth_append)
  have "uScan_loop (uPrint d) (2 * length (x # suf)) (2 * length pre) (length pre) (pre @ rest) =
      uScan_loop (uPrint d) (2 * length suf) (2 * length (pre @ [x])) (length (pre @ [x])) ((pre @ [x]) @ rest')"
    by (simp add: c Ch2Hex_ChFromHex nibbles not_less_16 r list_update_append nth_append)
  also have "\<dots> = (2 * length d, d)" using Cons.prems(2) r(2) by (intro Cons.IH) simp_all
  finally show ?case .
qed

text \<open>Scanning the printed text gives the buffer back, whatever the destination held.\<close>

lemma uScan_uPrint: "length d0 = length d \<Longrightarrow> uScan d0 (uPrint d) (2 * length d) = (2 * length d, d)"
  using uScan_loop_print [of d0 d "[]" d] by (simp add: uScan_def)

lemma uPrintFull_eq: "uPrintFull d = butlast (uPrint d)"
proof (induction d rule: uPrintFull.induct)
  case (1 d)
  show ?case
  proof (cases "length d \<le> 8")
    case True
    then show ?thesis by (subst uPrintFull.simps) (simp add: uPrint_def Let_def)
  next
    case False
    then have "uPrintFull d = butlast (uPrint (take 8 d)) @ butlast (uPrint (drop 8 d))"
      using 1 by (subst uPrintFull.simps) (auto simp: Let_def)
    also have "\<dots> = butlast (uPrint d)"
      unfolding uPrint_def butlast_snoc by (simp flip: concat_append map_append)
    finally show ?thesis .
  qed
qed

section \<open>Four-character codes\<close>

text \<open>\<open>FourCC::Text\<close>: the bytes of the code, most significant first, with the characters outside \<open>' '..'~'\<close>
  replaced, and the terminator.\<close>

definition fourCC_fix :: "u8 \<Rightarrow> u8" where
  "fourCC_fix c = (if c < 32 \<or> 126 < c then 32 else c)"

definition fourCC_Text :: "u32 \<Rightarrow> bytes" where
  "fourCC_Text n = map fourCC_fix (uAssignOrdinal (replicate 4 0) n) @ [0]"

definition fourCC_Const :: "u8 \<Rightarrow> u8 \<Rightarrow> u8 \<Rightarrow> u8 \<Rightarrow> u32" where
  "fourCC_Const a b c d =
     (push_bit 8 (push_bit 8 (push_bit 8 (ucast a) OR ucast b) OR ucast c) OR ucast d)"

lemma fourCC_Const_export: "fourCC_Const a b c d = uExport [a, b, c, d]"
  by (simp add: fourCC_Const_def uExport_def)

lemma fourCC_fix_printable: "32 \<le> x \<Longrightarrow> x \<le> 126 \<Longrightarrow> fourCC_fix x = x"
  by (auto simp: fourCC_fix_def)

lemma fourCC_Text_Const:
  assumes "\<forall>x \<in> {a, b, c, d}. 32 \<le> x \<and> x \<le> 126"
  shows "fourCC_Text (fourCC_Const a b c d) = [a, b, c, d, 0]"
proof -
  have u: "unat (fourCC_Const a b c d) = be_val [a, b, c, d]"
    unfolding fourCC_Const_export by (rule unat_uExport) simp_all
  have "length [a, b, c, d] = 4" by simp
  then have "be_bytes 4 (be_val [a, b, c, d]) = [a, b, c, d]" by (metis be_bytes_be_val)
  then have "uAssignOrdinal (replicate 4 0) (fourCC_Const a b c d) = [a, b, c, d]"
    using uAssignOrdinal_eq [of 4 "replicate 4 0" "fourCC_Const a b c d"] unfolding u by simp
  then show ?thesis using assms by (simp add: fourCC_Text_def fourCC_fix_printable)
qed

section \<open>Properties\<close>

text \<open>C36: scanning the hexadecimal text that \<open>_Print\<close> writes for a buffer consumes all of it and restores the
  buffer, whatever the destination of the same size held before.\<close>

theorem Scan_inverts_Print:
  assumes "length d0 = length d"
  shows "uScan d0 (uPrint d) (2 * length d) = (2 * length d, d)"
  by (rule uScan_uPrint [OF assms])

theorem Scan_inverts_Print_witness:
  "uPrint [0x1f, 0xa0] = [49, 102, 97, 48, 0] \<and>
   uScan [9, 9] (uPrint [0x1f, 0xa0]) (2 * length [0x1f, 0xa0 :: u8]) = (2 * length [0x1f, 0xa0 :: u8], [0x1f, 0xa0])"
proof
  show "uPrint [0x1f, 0xa0] = [49, 102, 97, 48, 0]" by code_simp
  show "uScan [9, 9] (uPrint [0x1f, 0xa0]) (2 * length [0x1f, 0xa0 :: u8]) = (2 * length [0x1f, 0xa0 :: u8], [0x1f, 0xa0])"
    by (rule Scan_inverts_Print) simp
qed

text \<open>\<open>AssignSafe\<close> of a 32-bit ordinal at a bit offset into a zeroed buffer stores the shifted ordinal cropped
  to the buffer, and returns \<open>true\<close> only when nothing was cropped.\<close>

theorem AssignSafe_stores_shifted:
  fixes x :: u32
  assumes "uAssignSafe (replicate n 0) x nOffset = (ok, d)"
  shows "be_val d = (unat x * 2 ^ nOffset) mod 256 ^ n \<and> (ok \<longrightarrow> unat x * 2 ^ nOffset < 256 ^ n)"
  using uAssignSafe_zero [OF _ assms, of 4] by simp

theorem AssignSafe_stores_shifted_witness:
  "uAssignSafe (replicate 5 0) (0x80000001 :: u32) 3 = (True, [4, 0, 0, 0, 8]) \<and>
   be_val [4, 0, 0, 0, 8] = (unat (0x80000001 :: u32) * 2 ^ 3) mod 256 ^ 5 \<and>
   unat (0x80000001 :: u32) * 2 ^ 3 < 256 ^ 5"
proof
  show r: "uAssignSafe (replicate 5 0) (0x80000001 :: u32) 3 = (True, [4, 0, 0, 0, 8])" by code_simp
  show "be_val [4, 0, 0, 0, 8] = (unat (0x80000001 :: u32) * 2 ^ 3) mod 256 ^ 5 \<and>
      unat (0x80000001 :: u32) * 2 ^ 3 < 256 ^ 5"
    using AssignSafe_stores_shifted [OF r] by simp
qed

end
