(* ===== verification/Uint_Shift.thy ===== *)
theory Uint_Shift
  imports Uint_Big
begin

text \<open>
  Bit shifts of \<open>src/core/uintBig.cpp\<close>: \<open>_ShiftRight\<close> and \<open>_ShiftLeft\<close> with source and destination
  of any sizes.  The lemmas show that both compute the shifted number, reduced to the size of the
  destination, for every shift count (also past the size of the operands).
\<close>

section \<open>Definitions\<close>

definition uShiftRight :: "nat \<Rightarrow> bytes \<Rightarrow> nat \<Rightarrow> bytes" where
  "uShiftRight nDst0 src nBits0 =
     (let nBytes = nBits0 div 8;
          (nSrc, nBits) = (if length src \<le> nBytes then (0, 0) else (length src - nBytes, nBits0 mod 8));
          (pad, nDst, off) =
            (if nSrc < nDst0 then (nDst0 - nSrc, nSrc, 0) else (0, nDst0, nSrc - nDst0))
      in replicate pad 0 @
         (if nBits \<noteq> 0 then
            map (\<lambda>i. let x = drop_bit nBits (src ! (off + i)) in
                     if nDst < nSrc + i then x OR push_bit (8 - nBits) (src ! (off + i - 1)) else x)
              [0..<nDst]
          else take nDst (drop off src)))"

definition uShiftLeft :: "nat \<Rightarrow> bytes \<Rightarrow> nat \<Rightarrow> bytes" where
  "uShiftLeft nDst0 src0 nBits0 =
     (let (nBytes, nDst, nBits) =
            (if nDst0 \<le> nBits0 div 8 then (nDst0, 0, 0)
             else (nBits0 div 8, nDst0 - nBits0 div 8, nBits0 mod 8));
          src = (if nDst < length src0 then drop (length src0 - nDst) src0 else src0);
          nSrc = length src;
          pre = replicate (nDst - nSrc) 0;
          pre' = (if nBits \<noteq> 0 \<and> nSrc \<noteq> 0 \<and> nSrc < nDst
                  then pre[nDst - nSrc - 1 := drop_bit (8 - nBits) (src ! 0)] else pre);
          body = (if nBits \<noteq> 0 then
                    map (\<lambda>i. let x = push_bit nBits (src ! i) in
                             if i + 1 < nSrc then x OR drop_bit (8 - nBits) (src ! (i + 1)) else x)
                      [0..<nSrc]
                  else src)
      in pre' @ body @ replicate nBytes 0)"

section \<open>Shifting a run of bytes by less than a byte\<close>

lemma unat_shl_or:
  assumes "0 < b" "b < 8"
  shows "unat (push_bit b (x :: u8) OR drop_bit (8 - b) y) =
    (unat x mod 2 ^ (8 - b)) * 2 ^ b + unat y div 2 ^ (8 - b)"
proof -
  have p: "(256 :: nat) = 2 ^ (8 - b) * 2 ^ b" using assms by (simp flip: power_add)
  have lt: "unat (drop_bit (8 - b) y) < 2 ^ b"
    using unat_u8_less [of y] by (simp only: unat_drop_bit p less_mult_imp_div_less mult.commute)
  have hi: "unat (push_bit b x) = (unat x mod 2 ^ (8 - b)) * 2 ^ b"
    by (simp only: unat_push_bit_u8 p mult_mod_left)
  have "unat x mod 2 ^ (8 - b) < 2 ^ (8 - b)"
    by (rule mod_less_divisor) simp
  then have "unat x mod 2 ^ (8 - b) \<le> 2 ^ (8 - b) - 1"
    by linarith
  then have "(unat x mod 2 ^ (8 - b)) * 2 ^ b \<le> (2 ^ (8 - b) - 1) * 2 ^ b"
    by (rule mult_right_mono) simp
  also have "\<dots> = 256 - 2 ^ b" using p by (simp add: diff_mult_distrib)
  finally have "(unat x mod 2 ^ (8 - b)) * 2 ^ b + unat (drop_bit (8 - b) y) < 256"
    using lt assms(2) power_strict_increasing [of b 8 "2 :: nat"] by simp
  then have "unat (push_bit b x + drop_bit (8 - b) y) = unat (push_bit b x) + unat (drop_bit (8 - b) y)"
    using hi by (simp add: unat_word_ariths)
  moreover have "push_bit b x OR drop_bit (8 - b) y = push_bit b x + drop_bit (8 - b) y"
    using lt by (rule word_or_disjoint_add) (rule refl)
  ultimately show ?thesis using hi by (simp only: unat_drop_bit)
qed

lemma unat_shr_or:
  assumes "0 < b" "b < 8"
  shows "unat (drop_bit b (x :: u8) OR push_bit (8 - b) y) =
    (unat y mod 2 ^ b) * 2 ^ (8 - b) + unat x div 2 ^ b"
  using unat_shl_or [of "8 - b" y x] assms by (simp add: or.commute)

text \<open>The byte-wise shifts as recursive functions over the run, with the neighbour's bits.\<close>

fun shl_run :: "nat \<Rightarrow> bytes \<Rightarrow> bytes" where
  "shl_run b [] = []"
| "shl_run b (x # xs) =
     (push_bit b x OR drop_bit (8 - b) (case xs of [] \<Rightarrow> 0 | y # _ \<Rightarrow> y)) # shl_run b xs"

fun shr_run :: "nat \<Rightarrow> u8 \<Rightarrow> bytes \<Rightarrow> bytes" where
  "shr_run b p [] = []"
| "shr_run b p (x # xs) = (drop_bit b x OR push_bit (8 - b) p) # shr_run b x xs"

lemma length_shl_run [simp]: "length (shl_run b xs) = length xs"
  by (induction xs) simp_all

lemma length_shr_run [simp]: "length (shr_run b p xs) = length xs"
  by (induction xs arbitrary: p) simp_all

lemma nth_shr_run:
  "i < length xs \<Longrightarrow> shr_run b p xs ! i =
     drop_bit b (xs ! i) OR push_bit (8 - b) (if i = 0 then p else xs ! (i - 1))"
  by (induction xs arbitrary: p i) (auto simp: nth_Cons split: nat.splits)

lemma nth_shl_run:
  "i < length xs \<Longrightarrow> shl_run b xs ! i =
     push_bit b (xs ! i) OR drop_bit (8 - b) (if i + 1 < length xs then xs ! (i + 1) else 0)"
  by (induction xs arbitrary: i) (auto simp: nth_Cons split: nat.splits list.splits)

lemma be_val_shl_run:
  assumes b: "0 < b" "b < 8"
  shows "xs \<noteq> [] \<Longrightarrow>
    (unat (hd xs) div 2 ^ (8 - b)) * 256 ^ length xs + be_val (shl_run b xs) = be_val xs * 2 ^ b"
proof (induction xs)
  case Nil
  then show ?case by simp
next
  case (Cons x xs)
  have p: "(256 :: nat) = 2 ^ (8 - b) * 2 ^ b" using b by (simp flip: power_add)
  define y where "y = (case xs of [] \<Rightarrow> 0 | y # _ \<Rightarrow> (y :: u8))"
  have r: "(unat y div 2 ^ (8 - b)) * 256 ^ length xs + be_val (shl_run b xs) = be_val xs * 2 ^ b"
    using Cons.IH by (cases xs) (simp_all add: y_def)
  have "unat x * 2 ^ b =
      ((unat x div 2 ^ (8 - b)) * 2 ^ (8 - b) + unat x mod 2 ^ (8 - b)) * 2 ^ b"
    by (simp only: div_mult_mod_eq)
  also have "\<dots> = (unat x div 2 ^ (8 - b)) * 256 + (unat x mod 2 ^ (8 - b)) * 2 ^ b"
    unfolding p by (simp only: add_mult_distrib mult.assoc)
  finally have x: "unat x * 2 ^ b = \<dots>" .
  have "be_val (shl_run b (x # xs)) =
      ((unat x mod 2 ^ (8 - b)) * 2 ^ b + unat y div 2 ^ (8 - b)) * 256 ^ length xs
      + be_val (shl_run b xs)"
    by (simp add: unat_shl_or [OF b] y_def)
  also have "\<dots> = (unat x mod 2 ^ (8 - b)) * 2 ^ b * 256 ^ length xs + be_val xs * 2 ^ b"
    using r by (simp add: add_mult_distrib)
  finally have "be_val (shl_run b (x # xs)) = \<dots>" .
  moreover have "be_val (x # xs) * 2 ^ b = (unat x * 2 ^ b) * 256 ^ length xs + be_val xs * 2 ^ b"
    by (simp add: algebra_simps)
  ultimately show ?case unfolding x by (simp add: algebra_simps)
qed

lemma be_val_shr_run:
  assumes b: "0 < b" "b < 8"
  shows "be_val (shr_run b p xs) = ((unat p mod 2 ^ b) * 256 ^ length xs + be_val xs) div 2 ^ b"
proof (induction xs arbitrary: p)
  case Nil
  then show ?case by simp
next
  case (Cons x xs)
  let ?B = "256 ^ length xs :: nat"
  have q: "(256 :: nat) = 2 ^ (8 - b) * 2 ^ b" using b by (simp flip: power_add)
  have e: "(unat p mod 2 ^ b) * 256 ^ length (x # xs) + be_val (x # xs) =
      ((unat p mod 2 ^ b) * 2 ^ (8 - b) + unat x div 2 ^ b) * ?B * 2 ^ b
      + ((unat x mod 2 ^ b) * ?B + be_val xs)"
  proof -
    define xq xr pm where "xq = unat x div 2 ^ b" and "xr = unat x mod 2 ^ b"
      and "pm = unat p mod 2 ^ b"
    have "unat x = xq * 2 ^ b + xr" unfolding xq_def xr_def by (simp only: div_mult_mod_eq)
    moreover have "256 ^ length (x # xs) = 2 ^ (8 - b) * 2 ^ b * ?B" using q by simp
    ultimately have "pm * 256 ^ length (x # xs) + be_val (x # xs) =
        pm * (2 ^ (8 - b) * 2 ^ b * ?B) + (xq * 2 ^ b + xr) * ?B + be_val xs" by simp
    also have "\<dots> = (pm * 2 ^ (8 - b) + xq) * ?B * 2 ^ b + (xr * ?B + be_val xs)"
      by (simp add: algebra_simps)
    finally show ?thesis unfolding xq_def xr_def pm_def .
  qed
  have "((unat p mod 2 ^ b) * 256 ^ length (x # xs) + be_val (x # xs)) div 2 ^ b =
      ((unat p mod 2 ^ b) * 2 ^ (8 - b) + unat x div 2 ^ b) * ?B
      + ((unat x mod 2 ^ b) * ?B + be_val xs) div 2 ^ b"
    unfolding e by (rule div_mult_self3) simp
  then show ?case using Cons by (simp add: unat_shr_or [OF b])
qed

section \<open>Whole shifts\<close>

lemma div_pow_mod_split:
  assumes "L < (N :: nat)"
  shows "(H * N + L) div 2 ^ b mod N = ((H mod 2 ^ b) * N + L) div 2 ^ b"
proof -
  let ?q = "((H mod 2 ^ b) * N + L) div 2 ^ b"
  define hq hr where "hq = H div 2 ^ b" and "hr = H mod 2 ^ b"
  have "H = hq * 2 ^ b + hr" unfolding hq_def hr_def by (simp only: div_mult_mod_eq)
  then have "H * N + L = (hq * N) * 2 ^ b + (hr * N + L)"
    by (simp add: algebra_simps)
  then have e: "H * N + L = (H div 2 ^ b * N) * 2 ^ b + ((H mod 2 ^ b) * N + L)"
    unfolding hq_def hr_def .
  have d: "(H * N + L) div 2 ^ b = H div 2 ^ b * N + ?q"
    unfolding e by (rule div_mult_self3) simp
  have m: "H mod 2 ^ b < 2 ^ b" by (rule mod_less_divisor) simp
  have "(H mod 2 ^ b) * N + L < (H mod 2 ^ b + 1) * N" using assms(1) by simp
  also have "\<dots> \<le> 2 ^ b * N" using m by (intro mult_right_mono) (simp_all add: Suc_le_eq)
  finally have "?q < N" by (simp add: less_mult_imp_div_less mult.commute)
  with d show ?thesis by simp
qed

lemma be_val_uShiftRight:
  "be_val (uShiftRight n src nBits) = (be_val src div 2 ^ nBits) mod 256 ^ n"
proof (cases "length src \<le> nBits div 8")
  case True
  have "be_val src < 2 ^ (8 * length src)" using be_val_less [of src] by (simp only: pow256)
  also have "\<dots> \<le> 2 ^ nBits" using True by (intro power_increasing) simp_all
  finally have "be_val src div 2 ^ nBits = 0" by simp
  moreover have "uShiftRight n src nBits = replicate n 0"
    using True by (simp add: uShiftRight_def)
  ultimately show ?thesis by simp
next
  case False
  define b where "b = nBits mod 8"
  define m where "m = length src - nBits div 8"
  define eff where "eff = take m src"
  have m: "m \<le> length src" "length src - m = nBits div 8" using False by (simp_all add: m_def)
  have le: "length eff = m" using m by (simp add: eff_def)
  have ev: "be_val eff = be_val src div 256 ^ (nBits div 8)"
    unfolding eff_def using m by (simp only: be_val_take)
  have "be_val src div 2 ^ nBits = be_val src div 2 ^ (8 * (nBits div 8) + b)"
    by (simp add: b_def)
  also have "\<dots> = be_val eff div 2 ^ b"
    unfolding ev pow256 by (simp only: power_add div_mult2_eq)
  finally have tgt: "be_val src div 2 ^ nBits = be_val eff div 2 ^ b" .
  define nD where "nD = (if m < n then m else n)"
  define off where "off = (if m < n then 0 else m - n)"
  have od: "off + nD = m" "nD \<le> n" by (auto simp: off_def nD_def)
  define run where "run = take nD (drop off src)"
  have lr: "length run = nD" and runeff: "run = drop off eff"
    using od(1) m by (auto simp: run_def eff_def drop_take)
  define p where "p = (if off = 0 then 0 else src ! (off - 1))"
  define H where "H = be_val (take off eff)"
  have eH: "be_val eff = H * 256 ^ nD + be_val run"
    using be_val_append [of "take off eff" "drop off eff"] lr by (simp add: H_def runeff)
  have Hp: "H mod 2 ^ b = unat p mod 2 ^ b"
  proof (cases "off = 0")
    case True
    then show ?thesis by (simp add: H_def p_def)
  next
    case False
    then have "take off eff = take (off - 1) eff @ [p]"
      using od m take_Suc_conv_app_nth [of "off - 1" eff] by (simp add: p_def eff_def)
    then have "H = be_val (take (off - 1) eff) * 256 + unat p"
      by (simp add: H_def be_val_append)
    moreover have "(2 :: nat) ^ b dvd 256"
      using le_imp_power_dvd [of b 8 "2 :: nat"] by (simp add: b_def)
    ultimately show ?thesis by (metis dvd_mult mod_add_left_eq mod_mult_self1_is_0 dvd_eq_mod_eq_0 add_0)
  qed
  have body: "be_val (if b \<noteq> 0 then shr_run b p run else run) = be_val eff div 2 ^ b mod 256 ^ nD"
  proof (cases "b = 0")
    case True
    then show ?thesis using eH be_val_less [of run] lr by simp
  next
    case False
    then have b8: "0 < b" "b < 8" by (simp_all add: b_def)
    have "be_val run < 256 ^ nD" using be_val_less [of run] lr by simp
    then show ?thesis using False Hp
      by (simp add: be_val_shr_run [OF b8] lr eH div_pow_mod_split)
  qed
  have form: "uShiftRight n src nBits =
      replicate (n - nD) 0 @ (if b \<noteq> 0 then shr_run b p run else run)"
  proof -
    define F where "F = (\<lambda>i. let x = drop_bit b (src ! (off + i)) in
      if nD < m + i then x OR push_bit (8 - b) (src ! (off + i - 1)) else x)"
    have "map F [0..<nD] = shr_run b p run"
    proof (rule nth_equalityI)
      fix i assume "i < length (map F [0..<nD])"
      then have i: "i < nD" by simp
      then have "run ! i = src ! (off + i)" "0 < i \<Longrightarrow> run ! (i - 1) = src ! (off + i - 1)"
        using od m by (simp_all add: run_def)
      moreover have "nD < m + i \<longleftrightarrow> off \<noteq> 0 \<or> i \<noteq> 0" using od by auto
      ultimately show "map F [0..<nD] ! i = shr_run b p run ! i"
        using i lr by (auto simp: nth_shr_run p_def Let_def F_def)
    qed (simp add: lr)
    moreover have "uShiftRight n src nBits =
        replicate (n - nD) 0 @ (if b \<noteq> 0 then map F [0..<nD] else run)"
    proof (cases "m < n")
      case True
      then have "nD = m" "off = 0" by (simp_all add: nD_def off_def)
      with True False show ?thesis
        by (simp add: uShiftRight_def Let_def F_def run_def flip: b_def m_def)
    next
      case ge: False
      then have "nD = n" "off = m - n" by (simp_all add: nD_def off_def)
      with ge False show ?thesis
        by (simp add: uShiftRight_def Let_def F_def run_def flip: b_def m_def)
    qed
    ultimately show ?thesis by simp
  qed
  have "be_val (uShiftRight n src nBits) = be_val eff div 2 ^ b mod 256 ^ nD"
    unfolding form using body by (simp add: be_val_append)
  also have "\<dots> = be_val eff div 2 ^ b mod 256 ^ n"
  proof (cases "m < n")
    case True
    have "be_val eff div 2 ^ b \<le> be_val eff" by (rule div_le_dividend)
    also have "\<dots> < 256 ^ nD" using be_val_less [of eff] le True by (simp add: nD_def)
    finally have lt: "be_val eff div 2 ^ b < 256 ^ nD" .
    also have "\<dots> \<le> 256 ^ n" using od by (intro power_increasing) simp_all
    finally show ?thesis using lt by simp
  next
    case False
    then show ?thesis by (simp add: nD_def)
  qed
  finally show ?thesis unfolding tgt .
qed

lemma length_uShiftRight [simp]: "length (uShiftRight n src nBits) = n"
  by (auto simp: uShiftRight_def Let_def)

lemma replicate_update_last: "(replicate (Suc r) z)[r := y] = replicate r z @ [y]"
  by (induction r) simp_all

lemma be_val_uShiftLeft:
  "be_val (uShiftLeft n src0 nBits) = (be_val src0 * 2 ^ nBits) mod 256 ^ n"
proof (cases "n \<le> nBits div 8")
  case True
  then have "(256 :: nat) ^ n dvd 2 ^ nBits"
    unfolding pow256 by (intro le_imp_power_dvd) simp
  then have "(be_val src0 * 2 ^ nBits) mod 256 ^ n = 0"
    by (simp only: mod_eq_0_iff_dvd dvd_mult)
  moreover have "uShiftLeft n src0 nBits = replicate n 0"
    using True by (simp add: uShiftLeft_def Let_def)
  ultimately show ?thesis by simp
next
  case False
  define b where "b = nBits mod 8"
  define q where "q = nBits div 8"
  define nD where "nD = n - q"
  define src where "src = (if nD < length src0 then drop (length src0 - nD) src0 else src0)"
  have q: "q + nD = n" "nBits = 8 * q + b" using False by (simp_all add: nD_def q_def b_def)
  have ls: "length src \<le> nD" by (simp add: src_def)
  have vs: "be_val src mod 256 ^ nD = be_val src0 mod 256 ^ nD"
    by (simp add: src_def be_val_drop)
  define pre where "pre = (if b \<noteq> 0 \<and> length src \<noteq> 0 \<and> length src < nD
      then (replicate (nD - length src) 0)[nD - length src - 1 := drop_bit (8 - b) (src ! 0)]
      else replicate (nD - length src) 0)"
  define body where "body = (if b \<noteq> 0 then shl_run b src else src)"
  have mapeq: "map (\<lambda>i. let x = push_bit b (src ! i) in
        if i + 1 < length src then x OR drop_bit (8 - b) (src ! (i + 1)) else x) [0..<length src] =
      shl_run b src"
    by (rule nth_equalityI) (auto simp: nth_shl_run Let_def)
  have form: "uShiftLeft n src0 nBits = pre @ body @ replicate q 0"
  proof -
    have nq: "\<not> n \<le> q" using False by (simp add: q_def)
    show ?thesis
      unfolding uShiftLeft_def q_def [symmetric] b_def [symmetric] nD_def [symmetric]
        if_not_P [OF nq] Let_def prod.case src_def [symmetric]
        mapeq [unfolded Let_def] pre_def body_def
      by (rule refl)
  qed
  have core: "be_val (pre @ body) = (be_val src * 2 ^ b) mod 256 ^ nD"
  proof (cases "b = 0 \<or> src = []")
    case True
    have "be_val src < 256 ^ nD" using less_pow_mono [OF be_val_less ls] by simp
    with True show ?thesis by (auto simp: pre_def body_def be_val_append)
  next
    case F: False
    then have b8: "0 < b" "b < 8" and ne: "src \<noteq> []" by (simp_all add: b_def)
    define c where "c = unat (hd src) div 2 ^ (8 - b)"
    have bd: "c * 256 ^ length src + be_val body = be_val src * 2 ^ b"
      using be_val_shl_run [OF b8 ne] F by (simp add: c_def body_def)
    have lb: "length body = length src" using F by (simp add: body_def)
    show ?thesis
    proof (cases "length src < nD")
      case True
      then obtain r where r: "nD - length src = Suc r" by (metis Suc_diff_Suc)
      have "pre = (replicate (Suc r) 0)[r := drop_bit (8 - b) (src ! 0)]"
        using F True ne r by (simp add: pre_def)
      also have "\<dots> = replicate r 0 @ [drop_bit (8 - b) (src ! 0)]"
        by (rule replicate_update_last)
      finally have "be_val pre = c"
        using ne by (simp add: be_val_append c_def hd_conv_nth unat_drop_bit)
      then have v: "be_val (pre @ body) = be_val src * 2 ^ b"
        using bd lb by (simp add: be_val_append)
      have "length (pre @ body) = nD" using ls lb True by (simp add: pre_def)
      then show ?thesis using be_val_less [of "pre @ body"] v by simp
    next
      case False
      then have "length src = nD" using ls by simp
      moreover from this have "pre = []" by (simp add: pre_def)
      ultimately show ?thesis
        using bd lb be_val_less [of body] by (metis append_Nil mod_less mod_mult_self3)
    qed
  qed
  have "be_val (uShiftLeft n src0 nBits) = ((be_val src * 2 ^ b) mod 256 ^ nD) * 256 ^ q"
    unfolding form append_assoc [symmetric] be_val_append [of "pre @ body"] core by simp
  also have "(be_val src * 2 ^ b) mod 256 ^ nD = (be_val src0 * 2 ^ b) mod 256 ^ nD"
    using vs by (metis mod_mult_left_eq)
  also have "\<dots> * 256 ^ q = (be_val src0 * 2 ^ b * 256 ^ q) mod (256 ^ nD * 256 ^ q)"
    by (simp add: mult_mod_left)
  also have "256 ^ nD * 256 ^ q = (256 :: nat) ^ n"
    using q(1) by (simp add: add.commute flip: power_add)
  also have "be_val src0 * 2 ^ b * 256 ^ q = be_val src0 * 2 ^ nBits"
    unfolding q(2) by (simp add: power_add pow256)
  finally show ?thesis .
qed

lemma length_uShiftLeft [simp]: "length (uShiftLeft n src nBits) = n"
  by (auto simp: uShiftLeft_def Let_def)

section \<open>Properties\<close>

text \<open>\<open>_ShiftRight\<close> and \<open>_ShiftLeft\<close> between buffers of any sizes divide and multiply the value by the power
  of two and crop the result to the destination.\<close>

theorem Shift_scales:
  "be_val (uShiftRight n src nBits) = (be_val src div 2 ^ nBits) mod 256 ^ n \<and>
   be_val (uShiftLeft n src nBits) = (be_val src * 2 ^ nBits) mod 256 ^ n"
  by (simp add: be_val_uShiftRight be_val_uShiftLeft)

end
