(* ===== verification/Uint_Mul_Div.thy ===== *)
theory Uint_Mul_Div
  imports Uint_Shift
begin

text \<open>
  Multiplication and division of \<open>src/core/uintBig.cpp\<close>: \<open>_Mul\<close> with its unsigned 32-bit index
  arithmetic (the destination offset is allowed to wrap below zero when the product is truncated)
  and its 16-bit accumulator, and \<open>_Div\<close>, the shift-and-subtract division built from
  \<open>_ShiftLeft\<close>, \<open>_Inc\<close> and \<open>_Cmp\<close>.
\<close>

section \<open>Multiplication\<close>

text \<open>The loop over the second operand; \<open>i1\<close> counts down to \<open>i1Min\<close>.\<close>

fun uMul_inner :: "u8 \<Rightarrow> u32 \<Rightarrow> nat \<Rightarrow> bytes \<Rightarrow> nat \<Rightarrow> u16 \<Rightarrow> bytes \<Rightarrow> u16 \<times> bytes" where
  "uMul_inner x0 iDst i1Min s1 0 carry d = (carry, d)"
| "uMul_inner x0 iDst i1Min s1 (Suc i1) carry d =
     (if i1Min < Suc i1 then
        (let k = unat (iDst + of_nat i1);
             x1 = ucast (s1 ! i1) * ucast x0;
             c1 = carry + x1;
             c2 = c1 + ucast (d ! k)
         in uMul_inner x0 iDst i1Min s1 i1 (drop_bit 8 c2) (d[k := ucast c2]))
      else (carry, d))"

text \<open>\<open>while (carry && iDst--)\<close>: propagate the carry towards the most significant byte.\<close>

fun uMul_carry :: "nat \<Rightarrow> u16 \<Rightarrow> bytes \<Rightarrow> bytes" where
  "uMul_carry 0 carry d = d"
| "uMul_carry (Suc k) carry d =
     (if carry = 0 then d
      else (let c1 = carry + ucast (d ! k)
            in uMul_carry k (drop_bit 8 c1) (d[k := ucast c1])))"

fun uMul_outer :: "bytes \<Rightarrow> bytes \<Rightarrow> u32 \<Rightarrow> nat \<Rightarrow> bytes \<Rightarrow> bytes" where
  "uMul_outer s0 s1 nDelta 0 d = d"
| "uMul_outer s0 s1 nDelta (Suc i0) d =
     (let iDst = of_nat i0 - nDelta;
          i1Min = (if of_nat (length d) < iDst then - iDst else 0)
      in case uMul_inner (s0 ! i0) iDst (unat i1Min) s1 (length s1) 0 d of (carry, d1) \<Rightarrow>
           uMul_outer s0 s1 nDelta i0
             (if iDst \<le> of_nat (length d) then uMul_carry (unat iDst) carry d1 else d1))"

definition uMul :: "nat \<Rightarrow> bytes \<Rightarrow> bytes \<Rightarrow> bytes" where
  "uMul nDst src0 src1 =
     (let s0 = (if nDst < length src0 then drop (length src0 - nDst) src0 else src0);
          s1 = (if nDst < length src1 then drop (length src1 - nDst) src1 else src1);
          nDelta = of_nat (length s0) + of_nat (length s1) - of_nat nDst - 1
      in uMul_outer s0 s1 nDelta (length s0) (replicate nDst 0))"

lemma length_uMul_inner [simp]:
  "length (snd (uMul_inner x0 iDst m s1 i1 c d)) = length d"
  by (induction i1 arbitrary: c d) (simp_all add: Let_def)

lemma length_uMul_carry [simp]: "length (uMul_carry k c d) = length d"
  by (induction k arbitrary: c d) (simp_all add: Let_def)

lemma length_uMul_innerD:
  "uMul_inner x0 iDst m s1 i1 c d = (c', d') \<Longrightarrow> length d' = length d"
  using length_uMul_inner [of x0 iDst m s1 i1 c d] by simp

lemma length_uMul_outer [simp]: "length (uMul_outer s0 s1 nd i d) = length d"
  by (induction i arbitrary: d) (auto simp: Let_def dest: length_uMul_innerD split: prod.splits)

lemma length_uMul [simp]: "length (uMul n a b) = n"
  by (simp add: uMul_def Let_def)

text \<open>One step of the accumulator never exceeds 16 bits.\<close>

lemma uMul_step:
  assumes "unat carry \<le> 255"
  shows "unat (carry + ucast (y :: u8) * ucast (x :: u8) + ucast (z :: u8) :: u16) =
      unat carry + unat y * unat x + unat z"
    and "unat carry + unat y * unat x + unat z < 65536"
proof -
  have "unat y * unat x \<le> 255 * 255"
    using unat_u8_le [of y] unat_u8_le [of x] by (intro mult_le_mono) simp_all
  then show s: "unat carry + unat y * unat x + unat z < 65536"
    using assms unat_u8_le [of z] by linarith
  have "unat (ucast y * ucast x :: u16) = unat y * unat x"
    using s by (subst unat_mult_u16) (simp_all add: byte_simps)
  then have "unat (carry + ucast y * ucast x :: u16) = unat carry + unat y * unat x"
    using s by (subst unat_add_u16) (simp_all add: byte_simps)
  then show "unat (carry + ucast y * ucast x + ucast z :: u16) =
      unat carry + unat y * unat x + unat z"
    using s by (subst unat_add_u16) (simp_all add: byte_simps)
qed

text \<open>Writing the low byte of \<open>t\<close> at the position of weight \<open>256 ^ w\<close> and carrying the rest.\<close>

lemma be_val_store_carry:
  assumes "k < length d" and "length d = Suc (k + w)"
  shows "int (be_val (d[k := ucast (t :: u16)])) + int (unat t div 256) * 256 ^ Suc w =
    int (be_val d) + (int (unat t) - int (unat (d ! k))) * 256 ^ w"
proof -
  have "int (be_val (d[k := ucast t])) =
      int (be_val d) + (int (unat t mod 256) - int (unat (d ! k))) * 256 ^ w"
    using be_val_update [OF assms(1), of "ucast t"] assms(2) by (simp add: byte_simps)
  moreover have "int (unat t mod 256) = int (unat t) - 256 * int (unat t div 256)"
    by (simp add: zmod_int zdiv_int minus_mult_div_eq_mod)
  ultimately show ?thesis by (simp add: algebra_simps)
qed

lemma uMul_inner_val:
  assumes idx: "\<And>j. m \<le> j \<Longrightarrow> j < length s1 \<Longrightarrow>
      Suc (unat (iDst + of_nat j) + (e + (length s1 - Suc j))) = length d"
    and "m \<le> i1" "i1 \<le> length s1" "unat carry \<le> 255"
    and "uMul_inner x0 iDst m s1 i1 carry d = (c, d')"
  shows "unat c \<le> 255 \<and>
    int (be_val d') + int (unat c) * 256 ^ (e + (length s1 - m)) =
    int (be_val d) + (int (unat x0) * int (be_val (drop m (take i1 s1))) + int (unat carry))
      * 256 ^ (e + (length s1 - i1))"
  using assms
proof (induction i1 arbitrary: carry d)
  case 0
  then show ?case by simp
next
  case (Suc i1)
  show ?case
  proof (cases "m = Suc i1")
    case True
    with Suc.prems show ?thesis by simp
  next
    case False
    define w where "w = e + (length s1 - Suc i1)"
    define k where "k = unat (iDst + of_nat i1)"
    define t where "t = carry + ucast (s1 ! i1) * ucast x0 + ucast (d ! k)"
    have m: "m \<le> i1" using False Suc.prems(2) by simp
    have lw: "length d = Suc (k + w)"
      using Suc.prems(1) [of i1] m Suc.prems(3) by (simp add: k_def w_def)
    have ws: "e + (length s1 - i1) = Suc w" using Suc.prems(3) by (simp add: w_def)
    have t: "unat t = unat carry + unat (s1 ! i1) * unat x0 + unat (d ! k)" "unat t < 65536"
      unfolding t_def using uMul_step [OF Suc.prems(4)] by simp_all
    then have cl: "unat (drop_bit 8 t) \<le> 255" by (simp add: unat_drop_bit)
    have "uMul_inner x0 iDst m s1 i1 (drop_bit 8 t) (d[k := ucast t]) = (c, d')"
      using Suc.prems(5) m by (simp add: Let_def k_def t_def)
    note r = this
    have p: "Suc (unat (iDst + of_nat j) + (e + (length s1 - Suc j))) = length (d[k := ucast t])"
      if "m \<le> j" "j < length s1" for j
      using Suc.prems(1) [OF that] by simp
    have du: "unat (drop_bit 8 t) = unat t div 256" by (simp only: unat_drop_bit) simp
    have "i1 \<le> length s1" using Suc.prems(3) by simp
    from Suc.IH [OF p m this cl r]
    have ih: "unat c \<le> 255"
      "int (be_val d') + int (unat c) * 256 ^ (e + (length s1 - m)) =
       int (be_val (d[k := ucast t])) + (int (unat x0) * int (be_val (drop m (take i1 s1)))
         + int (unat t div 256)) * 256 ^ Suc w"
      by (simp_all only: ws du)
    have st: "int (be_val (d[k := ucast t])) + int (unat t div 256) * 256 ^ Suc w =
        int (be_val d) + (int (unat t) - int (unat (d ! k))) * 256 ^ w"
      by (rule be_val_store_carry [OF _ lw]) (simp add: lw)
    have tk: "int (be_val (drop m (take (Suc i1) s1))) =
        int (be_val (drop m (take i1 s1))) * 256 + int (unat (s1 ! i1))"
      using Suc.prems(3) m by (simp add: take_Suc_conv_app_nth be_val_append)
    have ti: "int (unat t) - int (unat (d ! k)) = int (unat carry) + int (unat (s1 ! i1)) * int (unat x0)"
      using t(1) by simp
    have "int (be_val d') + int (unat c) * 256 ^ (e + (length s1 - m)) =
        (int (be_val (d[k := ucast t])) + int (unat t div 256) * 256 ^ Suc w)
        + int (unat x0) * int (be_val (drop m (take i1 s1))) * 256 ^ Suc w"
      unfolding ih(2) by (simp add: algebra_simps)
    also have "\<dots> = int (be_val d) +
        (int (unat x0) * int (be_val (drop m (take (Suc i1) s1))) + int (unat carry)) * 256 ^ w"
      unfolding st ti tk by (simp add: algebra_simps)
    finally show ?thesis using ih(1) by (simp add: w_def)
  qed
qed

lemma uMul_carry_val:
  assumes "k \<le> length d" "unat carry \<le> 255"
  shows "be_val (uMul_carry k carry d) =
    (be_val d + unat carry * 256 ^ (length d - k)) mod 256 ^ length d"
  using assms
proof (induction k arbitrary: carry d)
  case 0
  then show ?case using be_val_less [of d] by simp
next
  case (Suc k)
  show ?case
  proof (cases "carry = 0")
    case True
    then show ?thesis using be_val_less [of d] by simp
  next
    case False
    define t where "t = carry + ucast (d ! k)"
    define w where "w = length d - Suc k"
    have lw: "length d = Suc (k + w)" using Suc.prems(1) by (simp add: w_def)
    have t: "unat t = unat carry + unat (d ! k)"
      unfolding t_def using Suc.prems(2) unat_u8_le [of "d ! k"]
      by (subst unat_add_u16) (simp_all add: byte_simps)
    have cl: "unat (drop_bit 8 t) \<le> 255"
      using t Suc.prems(2) unat_u8_le [of "d ! k"] by (simp add: unat_drop_bit)
    have "int (be_val (d[k := ucast t])) + int (unat t div 256) * 256 ^ Suc w =
        int (be_val d) + (int (unat t) - int (unat (d ! k))) * 256 ^ w"
      by (rule be_val_store_carry [OF _ lw]) (simp add: lw)
    then have "int (be_val (d[k := ucast t]) + unat t div 256 * 256 ^ Suc w) =
        int (be_val d + unat carry * 256 ^ w)"
      using t by simp
    then have st: "be_val (d[k := ucast t]) + unat t div 256 * 256 ^ Suc w =
        be_val d + unat carry * 256 ^ w"
      by (simp only: of_nat_eq_iff)
    have "be_val (uMul_carry (Suc k) carry d) = be_val (uMul_carry k (drop_bit 8 t) (d[k := ucast t]))"
      using False by (simp add: Let_def t_def)
    also have "\<dots> = (be_val (d[k := ucast t]) + unat t div 256 * 256 ^ Suc w) mod 256 ^ length d"
      using Suc.IH [OF _ cl, of "d[k := ucast t]"] lw by (simp add: unat_drop_bit)
    finally show ?thesis unfolding st by (simp add: w_def)
  qed
qed

text \<open>One pass of the outer loop adds \<open>x0 * s1\<close> at the weight of \<open>x0\<close>, with \<open>e\<close> bytes below it.\<close>

definition uMul_pass :: "u8 \<Rightarrow> u32 \<Rightarrow> bytes \<Rightarrow> bytes \<Rightarrow> bytes" where
  "uMul_pass x0 iDst s1 d =
     (let i1Min = (if of_nat (length d) < iDst then - iDst else 0)
      in case uMul_inner x0 iDst (unat i1Min) s1 (length s1) 0 d of (carry, d1) \<Rightarrow>
           if iDst \<le> of_nat (length d) then uMul_carry (unat iDst) carry d1 else d1)"

lemma uMul_outer_pass:
  "uMul_outer s0 s1 nDelta (Suc i0) d =
    uMul_outer s0 s1 nDelta i0 (uMul_pass (s0 ! i0) (of_nat i0 - nDelta) s1 d)"
  by (simp add: uMul_pass_def Let_def split: prod.splits)

declare uMul_outer.simps(2) [simp del]

lemma length_uMul_pass [simp]: "length (uMul_pass x0 iDst s1 d) = length d"
  by (auto simp: uMul_pass_def Let_def dest: length_uMul_innerD split: prod.splits)

lemma uMul_pass_full:
  assumes "e + length s1 \<le> length d" and "length d < 2 ^ 30"
    and "iDst = of_nat (length d - (e + length s1))"
  shows "be_val (uMul_pass x0 iDst s1 d) =
    (be_val d + unat x0 * be_val s1 * 256 ^ e) mod 256 ^ length d"
proof -
  let ?k = "length d - (e + length s1)"
  have ui: "unat (iDst + of_nat j) = ?k + j" if "j \<le> length s1" for j
  proof -
    have "iDst + of_nat j = of_nat (?k + j)" using assms(3) by simp
    moreover have "?k + j < 2 ^ 32" using assms(1,2) that by simp
    ultimately show ?thesis by (simp only: unat_of_nat_u32)
  qed
  have u0: "unat iDst = ?k" using ui [of 0] by simp
  have le: "iDst \<le> of_nat (length d)"
    using u0 assms(2) by (simp add: word_le_nat_alt unat_of_nat_u32)
  obtain c d1 where r: "uMul_inner x0 iDst 0 s1 (length s1) 0 d = (c, d1)" by fastforce
  have idx: "Suc (unat (iDst + of_nat j) + (e + (length s1 - Suc j))) = length d"
    if "0 \<le> j" "j < length s1" for j
    using ui [of j] that assms(1) by simp
  have cc: "unat c \<le> 255" and
    v: "int (be_val d1) + int (unat c) * 256 ^ (e + length s1) =
        int (be_val d) + int (unat x0) * int (be_val s1) * 256 ^ e"
    using uMul_inner_val [OF idx _ _ _ r] by simp_all
  from v have "int (be_val d1 + unat c * 256 ^ (e + length s1)) =
      int (be_val d + unat x0 * be_val s1 * 256 ^ e)" by simp
  then have vn: "be_val d1 + unat c * 256 ^ (e + length s1) = be_val d + unat x0 * be_val s1 * 256 ^ e"
    by (simp only: of_nat_eq_iff)
  have l1: "length d1 = length d" using r by (rule length_uMul_innerD)
  have "uMul_pass x0 iDst s1 d = uMul_carry ?k c d1"
    using le leD [OF le] r u0 by (simp add: uMul_pass_def Let_def)
  moreover have "length d - ?k = e + length s1" using assms(1) by simp
  ultimately show ?thesis
    using uMul_carry_val [of ?k d1 c] cc l1 vn by simp
qed

lemma uMul_pass_cropped:
  assumes "length d < e + length s1" "e < length d" "length s1 \<le> length d" "length d < 2 ^ 30"
    and "iDst = - of_nat (e + length s1 - length d)"
  shows "be_val (uMul_pass x0 iDst s1 d) =
    (be_val d + unat x0 * be_val s1 * 256 ^ e) mod 256 ^ length d"
proof -
  let ?m = "e + length s1 - length d"
  have m: "?m < length s1" "0 < ?m" "?m < 2 ^ 30" using assms by simp_all
  have um: "unat (of_nat ?m :: u32) = ?m" using m(3) by (simp add: unat_of_nat_u32)
  have "unat iDst = 2 ^ 32 - ?m"
    using um m(2,3) unfolding assms(5) by (simp only: unat_neg_u32)
  moreover have "unat (of_nat (length d) :: u32) = length d"
    using assms(4) by (simp add: unat_of_nat_u32)
  ultimately have gt: "of_nat (length d) < iDst"
    using m(3) assms(4) by (simp add: word_less_nat_alt)
  have neg: "unat (- iDst) = ?m" unfolding assms(5) using um by simp
  obtain c d1 where r: "uMul_inner x0 iDst ?m s1 (length s1) 0 d = (c, d1)" by fastforce
  have idx: "Suc (unat (iDst + of_nat j) + (e + (length s1 - Suc j))) = length d"
    if "?m \<le> j" "j < length s1" for j
  proof -
    have "iDst + of_nat j = of_nat (j - ?m)"
      unfolding assms(5) using that(1) by (simp add: of_nat_diff)
    moreover have "j - ?m < 2 ^ 32" using that(2) assms(3,4) by simp
    ultimately have "unat (iDst + of_nat j) = j - ?m" by (simp add: unat_of_nat_u32)
    then show ?thesis using that assms(1) by simp
  qed
  have ex: "e + (length s1 - ?m) = length d" using assms(1) m(1) by simp
  have v: "int (be_val d1) + int (unat c) * 256 ^ length d =
        int (be_val d) + int (unat x0) * int (be_val (drop ?m s1)) * 256 ^ e"
    using uMul_inner_val [OF idx _ _ _ r] m(1) unfolding ex by simp
  then have "int (be_val d1 + unat c * 256 ^ length d) =
      int (be_val d + unat x0 * be_val (drop ?m s1) * 256 ^ e)" by simp
  then have vn: "be_val d1 + unat c * 256 ^ length d = be_val d + unat x0 * be_val (drop ?m s1) * 256 ^ e"
    by (simp only: of_nat_eq_iff)
  have l1: "length d1 = length d" using r by (rule length_uMul_innerD)
  have "uMul_pass x0 iDst s1 d = d1"
    using gt gt [unfolded not_le [symmetric]] neg r by (simp add: uMul_pass_def Let_def)
  then have "be_val (uMul_pass x0 iDst s1 d) = (be_val d1 + unat c * 256 ^ length d) mod 256 ^ length d"
    using be_val_less [of d1] l1 by simp
  also have "\<dots> = (be_val d + unat x0 * be_val (drop ?m s1) * 256 ^ e
      + unat x0 * be_val (take ?m s1) * 256 ^ length d) mod 256 ^ length d"
    unfolding vn by simp
  also have "be_val d + unat x0 * be_val (drop ?m s1) * 256 ^ e
      + unat x0 * be_val (take ?m s1) * 256 ^ length d = be_val d + unat x0 * be_val s1 * 256 ^ e"
  proof -
    have "be_val s1 = be_val (take ?m s1) * 256 ^ (length s1 - ?m) + be_val (drop ?m s1)"
      using be_val_append [of "take ?m s1" "drop ?m s1"] by simp
    moreover have "256 ^ length d = (256 :: nat) ^ (length s1 - ?m) * 256 ^ e"
      using ex by (simp add: add.commute flip: power_add)
    ultimately show ?thesis by (simp add: algebra_simps)
  qed
  finally show ?thesis .
qed

lemma uMul_outer_val:
  assumes "length s0 \<le> length d" "length s1 \<le> length d" "length d < 2 ^ 30" "i \<le> length s0"
    and nd: "nDelta = of_nat (length s0) + of_nat (length s1) - of_nat (length d) - 1"
  shows "be_val (uMul_outer s0 s1 nDelta i d) =
    (be_val d + be_val (take i s0) * be_val s1 * 256 ^ (length s0 - i)) mod 256 ^ length d"
  using assms
proof (induction i arbitrary: d)
  case 0
  then show ?case using be_val_less [of d] by simp
next
  case (Suc i)
  define e where "e = length s0 - Suc i"
  define iDst where "iDst = of_nat i - nDelta"
  let ?d1 = "uMul_pass (s0 ! i) iDst s1 d"
  let ?N = "256 ^ length d :: nat"
  have e: "length s0 = Suc (i + e)" using Suc.prems(4) by (simp add: e_def)
  have i: "iDst = of_nat (length d) - of_nat (e + length s1)"
    unfolding iDst_def Suc.prems(5) e by simp
  have pass: "be_val ?d1 = (be_val d + unat (s0 ! i) * be_val s1 * 256 ^ e) mod ?N"
  proof (cases "e + length s1 \<le> length d")
    case True
    then have "iDst = of_nat (length d - (e + length s1))" unfolding i by (simp add: of_nat_diff)
    from uMul_pass_full [OF True Suc.prems(3) this] show ?thesis .
  next
    case False
    then have "iDst = - of_nat (e + length s1 - length d)" unfolding i by (simp add: of_nat_diff)
    from uMul_pass_cropped [OF _ _ Suc.prems(2,3) this] False e Suc.prems(1) show ?thesis by simp
  qed
  have "be_val (uMul_outer s0 s1 nDelta (Suc i) d) = be_val (uMul_outer s0 s1 nDelta i ?d1)"
    by (simp add: uMul_outer_pass iDst_def)
  also have "\<dots> = (be_val ?d1 + be_val (take i s0) * be_val s1 * 256 ^ (length s0 - i)) mod ?N"
    using Suc.IH [of ?d1] Suc.prems by simp
  also have "\<dots> = (be_val d + unat (s0 ! i) * be_val s1 * 256 ^ e
      + be_val (take i s0) * be_val s1 * 256 ^ (length s0 - i)) mod ?N"
    unfolding pass by (simp add: mod_add_left_eq)
  also have "length s0 - i = Suc e" using e by simp
  also have "be_val d + unat (s0 ! i) * be_val s1 * 256 ^ e + be_val (take i s0) * be_val s1 * 256 ^ Suc e
      = be_val d + be_val (take (Suc i) s0) * be_val s1 * 256 ^ e"
    using e by (simp add: take_Suc_conv_app_nth be_val_append algebra_simps)
  finally show ?case by (simp add: e_def)
qed

text \<open>Multiplication: the product reduced to the size of the destination.\<close>

lemma be_val_uMul:
  assumes "n < 2 ^ 30"
  shows "be_val (uMul n a b) = (be_val a * be_val b) mod 256 ^ n"
proof -
  define s0 s1 where "s0 = (if n < length a then drop (length a - n) a else a)"
    and "s1 = (if n < length b then drop (length b - n) b else b)"
  have l: "length s0 \<le> n" "length s1 \<le> n" by (simp_all add: s0_def s1_def)
  have v: "be_val s0 mod 256 ^ n = be_val a mod 256 ^ n" "be_val s1 mod 256 ^ n = be_val b mod 256 ^ n"
    by (simp_all add: s0_def s1_def be_val_drop)
  have "uMul n a b = uMul_outer s0 s1
      (of_nat (length s0) + of_nat (length s1) - of_nat n - 1) (length s0) (replicate n 0)"
    unfolding uMul_def Let_def s0_def s1_def by (rule refl)
  then have "be_val (uMul n a b) = (be_val s0 * be_val s1) mod 256 ^ n"
    using uMul_outer_val [of s0 "replicate n 0" s1 "length s0"] l assms by simp
  also have "\<dots> = (be_val a * be_val b) mod 256 ^ n"
    using v by (metis mod_mult_eq)
  finally show ?thesis .
qed

section \<open>Division\<close>

text \<open>The loop \<open>for (nShift = ...; nShift--; )\<close> of \<open>_Div\<close>: its state is the quotient and \<open>pMul\<close>,
  the product of the quotient so far and the divisor.\<close>

fun uDiv_loop :: "bytes \<Rightarrow> bytes \<Rightarrow> nat \<Rightarrow> bytes \<Rightarrow> bytes \<Rightarrow> bytes \<times> bytes" where
  "uDiv_loop a b 0 d mul = (d, mul)"
| "uDiv_loop a b (Suc nShift) d mul =
     (let tmp = snd (uInc3 (uShiftLeft (length a) b nShift) mul)
      in if 0 < uCmp mul tmp then uDiv_loop a b nShift d mul
         else if uCmp a tmp < 0 then uDiv_loop a b nShift d mul
         else
           (let k = length d - nShift div 8 - 1
            in uDiv_loop a b nShift (d[k := d ! k OR push_bit (nShift mod 8) 1]) tmp))"

text \<open>The quotient buffer and \<open>pMul\<close> after \<open>_Div\<close>.\<close>

definition uDiv :: "nat \<Rightarrow> bytes \<Rightarrow> bytes \<Rightarrow> bytes \<times> bytes" where
  "uDiv nDst a b =
     (let nOrder = uGetOrder b in
      if 8 * length a < nOrder then (replicate nDst 0, replicate (length a) 0)
      else uDiv_loop a b (1 + min (8 * length a - nOrder) (8 * nDst - 1))
             (replicate nDst 0) (replicate (length a) 0))"

lemma be_val_set_bit:
  assumes "2 ^ Suc s dvd be_val d" and "s div 8 < length d"
    and "k = length d - s div 8 - 1"
  shows "be_val (d[k := d ! k OR push_bit (s mod 8) 1]) = be_val d + 2 ^ s"
proof -
  let ?m = "s div 8" and ?r = "s mod 8"
  let ?B = "256 ^ ?m :: nat"
  define x where "x = d ! k"
  define L where "L = be_val (drop (Suc k) d)"
  have k: "k < length d" "length (drop (Suc k) d) = ?m" using assms(2,3) by simp_all
  have lowk: "be_val (drop k d) = unat x * ?B + L"
    using k by (simp add: L_def x_def flip: Cons_nth_drop_Suc)
  have Bdvd: "?B dvd 2 ^ Suc s" and Sdvd: "(2 :: nat) ^ Suc s dvd 256 ^ Suc ?m"
    unfolding pow256 by (rule le_imp_power_dvd, presburger)+
  have "be_val (drop k d) = be_val d mod 256 ^ Suc ?m"
    using be_val_drop [of k d] k assms(2,3) by (simp add: Suc_diff_Suc)
  then have dv: "2 ^ Suc s dvd unat x * ?B + L"
    using assms(1) Sdvd lowk by (simp add: dvd_mod_iff)
  have "L < ?B" using be_val_less [of "drop (Suc k) d"] k by (simp add: L_def)
  moreover have "?B dvd L" using dvd_trans [OF Bdvd dv] by (simp add: dvd_add_right_iff)
  ultimately have "L = 0" using nat_dvd_not_less by blast
  with dv have "2 ^ Suc ?r * ?B dvd unat x * ?B"
    by (metis (no_types, lifting) add_0_right mult_div_mod_eq pow256 power_add add_Suc add.commute)
  then have xd: "2 ^ Suc ?r dvd unat x" by simp
  then obtain c where c: "unat x = 2 ^ Suc ?r * c" ..
  have px: "push_bit ?r (1 :: u8) = 2 ^ ?r" by (simp add: push_bit_eq_mult)
  have u1: "unat (push_bit ?r (1 :: u8)) = 2 ^ ?r"
    using power_strict_increasing [of ?r 8 "2 :: nat"] by (simp only: unat_push_bit_u8) simp
  have "x = of_nat (unat x)" by simp
  then have "x = push_bit (Suc ?r) (of_nat c)"
    unfolding c by (simp add: push_bit_eq_mult mult.commute)
  moreover have "unat (push_bit ?r (1 :: u8)) < 2 ^ Suc ?r" using u1 by simp
  ultimately have xor: "x OR push_bit ?r 1 = x + push_bit ?r 1"
    by (intro word_or_disjoint_add [where n = "Suc ?r" and c = "of_nat c"])
  have "unat x + 2 ^ ?r < 256"
  proof -
    have "2 ^ Suc ?r dvd (256 :: nat)" using le_imp_power_dvd [of "Suc ?r" 8 "2 :: nat"] by simp
    with xd have "2 ^ Suc ?r dvd 256 - unat x" by (rule dvd_diff_nat [rotated])
    moreover have "0 < 256 - unat x" using unat_u8_less [of x] by simp
    ultimately have "2 ^ Suc ?r \<le> 256 - unat x" by (rule dvd_imp_le)
    then show ?thesis using zero_less_power [of "2 :: nat" ?r] unfolding power_Suc by linarith
  qed
  then have "unat (x OR push_bit ?r 1) = unat x + 2 ^ ?r"
    unfolding xor using u1 by (simp add: unat_word_ariths)
  then have "int (be_val (d[k := x OR push_bit ?r 1])) = int (be_val d) + 2 ^ ?r * 256 ^ ?m"
    using be_val_update [OF k(1), of "x OR push_bit ?r 1"] k(2) by (simp add: x_def)
  also have "\<dots> = int (be_val d + 2 ^ s)"
  proof -
    have "(2 :: nat) ^ ?r * 256 ^ ?m = 2 ^ s" by (simp only: pow256 flip: power_add) simp
    from arg_cong [OF this, of int] show ?thesis
      by (simp only: of_nat_add of_nat_mult of_nat_power of_nat_numeral)
  qed
  finally show ?thesis by (simp only: x_def of_nat_eq_iff)
qed

text \<open>The loop on numbers: one candidate bit per iteration, kept when the product does not exceed the
  dividend.\<close>

fun div_bits :: "nat \<Rightarrow> nat \<Rightarrow> nat \<Rightarrow> nat \<Rightarrow> nat" where
  "div_bits A B 0 q = q"
| "div_bits A B (Suc s) q = div_bits A B s (if (q + 2 ^ s) * B \<le> A then q + 2 ^ s else q)"

lemma div_bits_spec:
  assumes "q * B \<le> A"
  shows "div_bits A B s q * B \<le> A \<and> q \<le> div_bits A B s q \<and> div_bits A B s q < q + 2 ^ s \<and>
    (div_bits A B s q + 1 = q + 2 ^ s \<or> A < (div_bits A B s q + 1) * B)"
  using assms
proof (induction s arbitrary: q)
  case 0
  then show ?case by simp
next
  case (Suc s)
  show ?case
  proof (cases "(q + 2 ^ s) * B \<le> A")
    case True
    then show ?thesis using Suc.IH [OF True] by (simp del: mult_Suc) linarith
  next
    case False
    then show ?thesis using Suc.IH [OF Suc.prems] by (auto simp del: mult_Suc)
  qed
qed

lemma uDiv_loop_refines:
  assumes "be_val mul = be_val d * be_val b" and "be_val mul \<le> be_val a" and "length mul = length a"
    and "2 ^ S dvd be_val d" and "S \<le> 8 * length d" and "be_val b * 2 ^ (S - 1) < 256 ^ length a"
    and "uDiv_loop a b S d mul = (d', mul')"
  shows "be_val d' = div_bits (be_val a) (be_val b) S (be_val d) \<and>
    be_val mul' = be_val d' * be_val b \<and> length d' = length d \<and> length mul' = length a"
  using assms
proof (induction S arbitrary: d mul)
  case 0
  then show ?case by simp
next
  case (Suc s)
  let ?n = "length a" and ?B = "be_val b" and ?A = "be_val a"
  define tmp where "tmp = snd (uInc3 (uShiftLeft ?n b s) mul)"
  define k where "k = length d - s div 8 - 1"
  have Bs: "?B * 2 ^ s < 256 ^ ?n" using Suc.prems(6) by simp
  have A: "?A < 256 ^ ?n" by (rule be_val_less)
  have lt: "length tmp = ?n" by (simp add: tmp_def)
  have vt: "be_val tmp = (?B * 2 ^ s + be_val mul) mod 256 ^ ?n"
    using Bs Suc.prems(3) be_val_less [of mul]
    by (simp add: tmp_def be_val_uInc3 be_val_uShiftLeft)
  have sum: "?B * 2 ^ s + be_val mul = (be_val d + 2 ^ s) * ?B"
    using Suc.prems(1) by (simp add: algebra_simps)
  have dv: "2 ^ s dvd be_val d" using Suc.prems(4) by (auto elim: dvd_mult_left)
  have Bp: "?B * 2 ^ (s - 1) < 256 ^ ?n"
    using Bs by (meson diff_le_self le_less_trans mult_le_mono2 one_le_numeral power_increasing)
  have fit: "?B * 2 ^ s + be_val mul < 256 ^ ?n \<Longrightarrow> be_val tmp = (be_val d + 2 ^ s) * ?B"
    using vt sum by simp
  have over: "be_val tmp < be_val mul" if "256 ^ ?n \<le> ?B * 2 ^ s + be_val mul"
  proof -
    have "be_val tmp = ?B * 2 ^ s + be_val mul - 256 ^ ?n"
      using that Bs A Suc.prems(2) vt by (simp add: le_mod_geq)
    then show ?thesis using Bs that by linarith
  qed
  show ?case
  proof (cases "(be_val d + 2 ^ s) * ?B \<le> ?A")
    case True
    then have t: "be_val tmp = (be_val d + 2 ^ s) * ?B" using fit A sum by simp
    have kd: "be_val (d[k := d ! k OR push_bit (s mod 8) 1]) = be_val d + 2 ^ s"
      using Suc.prems(4,5) by (intro be_val_set_bit) (simp_all add: k_def)
    have "be_val mul \<le> be_val tmp" using t sum by linarith
    then have "uDiv_loop a b (Suc s) d mul = uDiv_loop a b s (d[k := d ! k OR push_bit (s mod 8) 1]) tmp"
      using True t by (simp add: Let_def tmp_def [symmetric] k_def uCmp_greater_0 uCmp_less_0)
    with Suc.prems(7) Suc.IH [of tmp "d[k := d ! k OR push_bit (s mod 8) 1]"]
    show ?thesis using t kd True lt dv Bp Suc.prems(5) by simp
  next
    case False
    have "be_val tmp < be_val mul \<or> ?A < be_val tmp"
      using False fit over by (metis not_le)
    then have "uDiv_loop a b (Suc s) d mul = uDiv_loop a b s d mul"
      by (auto simp: Let_def tmp_def [symmetric] uCmp_greater_0 uCmp_less_0)
    with Suc.prems(7) Suc.IH [of mul d]
    show ?thesis using False dv Bp Suc.prems by simp
  qed
qed

text \<open>Division: with a nonzero divisor, the quotient saturated to the destination; \<open>pMul\<close> is the product
  of the delivered quotient and the divisor, so the remainder is read off as the difference.\<close>

lemma uDiv_spec:
  assumes "0 < nDst" and "uDiv nDst a b = (q, mul)"
  shows "length q = nDst" "length mul = length a"
    "be_val mul = be_val q * be_val b"
    "be_val b \<noteq> 0 \<Longrightarrow> be_val q = min (be_val a div be_val b) (256 ^ nDst - 1)"
    "be_val b = 0 \<Longrightarrow> be_val q = 2 ^ (1 + min (8 * length a) (8 * nDst - 1)) - 1"
proof -
  let ?n = "length a" and ?B = "be_val b" and ?A = "be_val a" and ?o = "uGetOrder b"
  define S where "S = 1 + min (8 * ?n - ?o) (8 * nDst - 1)"
  have ord: "?B < 2 ^ ?o" "?B \<noteq> 0 \<Longrightarrow> 2 ^ (?o - 1) \<le> ?B" "?B = 0 \<Longrightarrow> ?o = 0"
    using uGetOrder_spec [of b] by (auto split: if_splits)
  have A: "?A < 2 ^ (8 * ?n)" using be_val_less [of a] by (simp add: pow256)
  have S8: "S \<le> 8 * nDst" using assms(1) by (simp add: S_def)
  have "length q = nDst \<and> length mul = length a \<and> be_val mul = be_val q * ?B \<and>
    (?B \<noteq> 0 \<longrightarrow> be_val q = min (?A div ?B) (256 ^ nDst - 1)) \<and> (?B = 0 \<longrightarrow> be_val q = 2 ^ S - 1)"
  proof (cases "8 * ?n < ?o")
    case True
    then have nz: "?B \<noteq> 0" using ord(3) by auto
    have "(2 :: nat) ^ (8 * ?n) \<le> 2 ^ (?o - 1)" using True by (intro power_increasing) simp_all
    then have "?A < ?B" using ord(2) nz A by linarith
    then show ?thesis using True nz assms(2) by (auto simp: uDiv_def Let_def)
  next
    case False
    then have run: "uDiv_loop a b S (replicate nDst 0) (replicate ?n 0) = (q, mul)"
      using assms(2) by (simp add: uDiv_def Let_def S_def)
    have "?B * 2 ^ (S - 1) < 2 ^ ?o * 2 ^ (8 * ?n - ?o)"
      by (rule mult_less_le_imp_less) (use ord(1) in \<open>simp_all add: S_def\<close>)
    also have "\<dots> = 256 ^ ?n" using False by (simp add: pow256 flip: power_add)
    finally have fin: "be_val q = div_bits ?A ?B S 0 \<and> be_val mul = be_val q * ?B \<and>
        length q = nDst \<and> length mul = ?n"
      using uDiv_loop_refines [OF _ _ _ _ _ _ run] S8 by simp
    have r: "be_val q * ?B \<le> ?A" "be_val q < 2 ^ S"
        "be_val q + 1 = 2 ^ S \<or> ?A < (be_val q + 1) * ?B"
      using div_bits_spec [of 0 ?B ?A S] fin by simp_all
    have "be_val q = min (?A div ?B) (256 ^ nDst - 1)" if nz: "?B \<noteq> 0"
    proof -
      have le: "be_val q \<le> ?A div ?B" using r(1) nz by (simp add: less_eq_div_iff_mult_less_eq)
      have cap: "(2 :: nat) ^ S \<le> 256 ^ nDst" using S8 by (simp add: pow256)
      have "?A div ?B = be_val q \<or> be_val q = 256 ^ nDst - 1"
      proof (cases "S = 8 * nDst \<and> be_val q + 1 = 2 ^ S")
        case True
        then have "be_val q + 1 = 256 ^ nDst" unfolding pow256 by simp
        then show ?thesis by linarith
      next
        case short: False
        have "?A < (be_val q + 1) * ?B"
        proof (cases "S = 8 * nDst")
          case True
          then show ?thesis using r(3) short by simp
        next
          case False
          have o1: "0 < ?o" using uGetOrder_spec [of b] nz by simp
          have "?o - 1 + S = 8 * ?n" using False o1 \<open>\<not> 8 * ?n < ?o\<close> assms(1)
            unfolding S_def by linarith
          then have "(2 :: nat) ^ (8 * ?n) = 2 ^ S * 2 ^ (?o - 1)" by (metis add.commute power_add)
          also have "\<dots> \<le> 2 ^ S * ?B" using ord(2) nz by simp
          finally show ?thesis using A r(3) by (metis less_le_trans)
        qed
        then have "?A div ?B < be_val q + 1" using nz by (simp add: div_less_iff_less_mult)
        then show ?thesis using le by simp
      qed
      then show ?thesis using le r(2) cap by auto
    qed
    moreover have "be_val q = 2 ^ S - 1" if "?B = 0" using r that by auto
    ultimately show ?thesis using fin by blast
  qed
  then show "length q = nDst" "length mul = length a"
    "be_val mul = be_val q * be_val b"
    "be_val b \<noteq> 0 \<Longrightarrow> be_val q = min (be_val a div be_val b) (256 ^ nDst - 1)"
    "be_val b = 0 \<Longrightarrow> be_val q = 2 ^ (1 + min (8 * length a) (8 * nDst - 1)) - 1"
    using ord(3) by (auto simp: S_def)
qed

section \<open>Properties\<close>

text \<open>C25: \<open>_Mul\<close> of two buffers into a destination of any size (below a quarter of the 32-bit index range, so that
  the wrap-around of its index arithmetic is the intended one) delivers the product modulo the destination.\<close>

theorem Mul_is_product:
  assumes "n < 2 ^ 30"
  shows "be_val (uMul n a b) = (be_val a * be_val b) mod 256 ^ n"
  by (rule be_val_uMul [OF assms])

theorem Mul_is_product_witness:
  "uMul 2 [1, 2, 3] [0xff] = [0, 0xfd] \<and> be_val (uMul 2 [1, 2, 3] [0xff]) = (be_val [1, 2, 3] * be_val [0xff]) mod 256 ^ 2"
proof
  show "uMul 2 [1, 2, 3] [0xff] = [0, 0xfd]" by code_simp
  show "be_val (uMul 2 [1, 2, 3] [0xff]) = (be_val [1, 2, 3] * be_val [0xff]) mod 256 ^ 2"
    by (rule Mul_is_product) simp
qed



text \<open>Dividing by zero into a destination larger than the dividend sets all bits up to the bit length of the
  dividend plus one and leaves the rest clear, which is below the maximum of the destination (the comment at
  \<open>SetDiv\<close> promises the maximum).\<close>

theorem Div_by_zero_not_max:
  assumes "be_val b = 0" and "length a < nDst" and "uDiv nDst a b = (q, mul)"
  shows "be_val q = 2 ^ (8 * length a + 1) - 1 \<and> be_val q < 256 ^ nDst - 1"
proof -
  have n: "0 < nDst" and m: "min (8 * length a) (8 * nDst - 1) = 8 * length a" using assms(2) by simp_all
  have q: "be_val q = 2 ^ (8 * length a + 1) - 1"
    using uDiv_spec(5) [OF n assms(3,1)] unfolding m by (simp add: add.commute)
  have "(2 :: nat) ^ (8 * length a + 1) < 2 ^ (8 * nDst)" using assms(2) by (intro power_strict_increasing) simp_all
  moreover have "1 \<le> (2 :: nat) ^ (8 * length a + 1)" by simp
  ultimately show ?thesis using q unfolding pow256 by linarith
qed

theorem Div_by_zero_not_max_witness:
  "uDiv 3 [9] [0] = ([0, 1, 0xff], [0]) \<and> be_val [0, 1, 0xff] = 2 ^ (8 * length [9 :: u8] + 1) - 1 \<and>
   be_val [0, 1, 0xff] < 256 ^ 3 - 1"
proof
  show r: "uDiv 3 [9] [0] = ([0, 1, 0xff], [0])" by code_simp
  show "be_val [0, 1, 0xff] = 2 ^ (8 * length [9 :: u8] + 1) - 1 \<and> be_val [0, 1, 0xff] < 256 ^ 3 - 1"
    by (rule Div_by_zero_not_max [OF _ _ r]) simp_all
qed

end
