(* ===== verification/Difficulty.thy ===== *)
theory Difficulty
  imports Complex_Main Uint_Codec Uint_Shift Uint_Mul_Div
begin

text \<open>
  The proof-of-work difficulty (\<open>src/core/difficulty.h\<close>, \<open>src/core/difficulty.cpp\<close>): a 32-bit packed
  floating-point number (24 bits of mantissa without the leading one, the order above them), its raw
  256-bit form, the target check, the arithmetic of the accumulated chain work, and the retargeting
  formula \<open>Calculate\<close> over the auxiliary \<open>BigFloat\<close>.  A \<open>Difficulty\<close> is its only member \<open>m_Packed\<close>.
  The floating-point display (\<open>ToFloat\<close> and the stream operator) is left out.
\<close>

type_synonym Difficulty = u32

definition s_MantissaBits :: nat where
  "s_MantissaBits = 24"

definition s_MaxOrder :: u32 where
  "s_MaxOrder = of_nat (256 - s_MantissaBits - 1)"

definition s_Inf :: u32 where
  "s_Inf = push_bit s_MantissaBits (s_MaxOrder + 1)"

definition dPack :: "u32 \<Rightarrow> u32 \<Rightarrow> Difficulty" where
  "dPack order mantissa =
     (if order \<le> s_MaxOrder
      then (mantissa AND (push_bit s_MantissaBits 1 - 1)) OR push_bit s_MantissaBits order
      else s_Inf)"

definition dUnpack :: "Difficulty \<Rightarrow> u32 \<times> u32" where
  "dUnpack p =
     (let order = drop_bit s_MantissaBits p; nLeadingBit = push_bit s_MantissaBits 1
      in (order, nLeadingBit OR (p AND (nLeadingBit - 1))))"

text \<open>\<open>Unpack(Raw&)\<close>: the 32-byte raw value.\<close>

definition dUnpackRaw :: "Difficulty \<Rightarrow> bytes" where
  "dUnpackRaw p =
     (if p < s_Inf then
        (let (order, mantissa) = dUnpack p
         in snd (uAssignSafe (replicate 32 0) mantissa (unat order)))
      else uInv (replicate 32 0))"

definition dIsTargetReached :: "Difficulty \<Rightarrow> bytes \<Rightarrow> bool" where
  "dIsTargetReached p hv =
     (if s_Inf < p then False
      else memis0 (take (32 - s_MantissaBits div 8) (uMul (length hv + 32) hv (dUnpackRaw p))))"

definition dget_Target :: "Difficulty \<Rightarrow> bool \<times> bytes" where
  "dget_Target p =
     (if s_Inf < p then (False, replicate 32 0)
      else
        (let rDiff = dUnpackRaw p; rMax = replicate (32 + s_MantissaBits div 8) 0xff
         in (True, fst (uDiv 32 rMax rDiff))))"

text \<open>\<open>operator +\<close> and \<open>operator +=\<close>, \<open>operator -\<close> and \<open>operator -=\<close> on raw values.\<close>

definition dAdd :: "bytes \<Rightarrow> Difficulty \<Rightarrow> bytes" where
  "dAdd base d = snd (uInc3 (dUnpackRaw d) base)"

definition dAddTo :: "bytes \<Rightarrow> Difficulty \<Rightarrow> bytes" where
  "dAddTo res d = snd (uInc3 res (dUnpackRaw d))"

definition dSub :: "bytes \<Rightarrow> Difficulty \<Rightarrow> bytes" where
  "dSub base d = snd (uInc3 (uNegate (dUnpackRaw d)) base)"

definition dSubFrom :: "bytes \<Rightarrow> Difficulty \<Rightarrow> bytes" where
  "dSubFrom res d = snd (uInc3 res (uNegate (dUnpackRaw d)))"

text \<open>\<open>Difficulty::BigFloat\<close>.\<close>

record BigFloat =
  m_Order :: int
  m_Value :: u32

definition bf_assign :: "bytes \<Rightarrow> BigFloat" where
  "bf_assign v =
     (let nOrder = uGetOrder v
      in if nOrder \<noteq> 0 then
           (let m = int nOrder - 32;
                x = (if 0 < m then uShiftRight 4 v (nat m) else uShiftLeft 4 v (nat (- m)))
            in \<lparr>m_Order = m, m_Value = uExport x\<rparr>)
         else \<lparr>m_Order = 0, m_Value = 0\<rparr>)"

text \<open>From an ordinal of \<open>n\<close> bytes.\<close>

definition bf_of :: "nat \<Rightarrow> 'a::len word \<Rightarrow> BigFloat" where
  "bf_of n x = bf_assign (uAssignOrdinal (replicate n 0) x)"

definition bf_mult :: "BigFloat \<Rightarrow> BigFloat \<Rightarrow> BigFloat" where
  "bf_mult a b =
     (let val = (ucast (m_Value a) :: u64) * ucast (m_Value b); res = bf_of 8 val
      in res\<lparr>m_Order := m_Order res + (m_Order a + m_Order b)\<rparr>)"

text \<open>Division; a zero divisor is the failed assertion.\<close>

definition bf_div :: "BigFloat \<Rightarrow> BigFloat \<Rightarrow> BigFloat option" where
  "bf_div a b =
     (if m_Value b = 0 then None
      else
        (let val = push_bit 32 (ucast (m_Value a) :: u64) div ucast (m_Value b); res = bf_of 8 val
         in Some (res\<lparr>m_Order := m_Order res + (m_Order a - (m_Order b + 32))\<rparr>)))"

definition dCalculate :: "bytes \<Rightarrow> u32 \<Rightarrow> u32 \<Rightarrow> u32 \<Rightarrow> Difficulty option" where
  "dCalculate wrk dh dtTrg_s dtSrc_s =
     (let dv = (ucast dtSrc_s :: u64) * ucast dh
      in case bf_div (bf_mult (bf_assign wrk) (bf_of 4 dtTrg_s)) (bf_of 8 dv) of
           None \<Rightarrow> None
         | Some x \<Rightarrow>
             (if m_Value x = 0 then Some 0
              else
                (let m = m_Order x + (32 - 1 - int s_MantissaBits)
                 in if 0 \<le> m
                    then Some (dPack (of_int m) (drop_bit (32 - 1 - s_MantissaBits) (m_Value x)))
                    else Some 0)))"

section \<open>Packing\<close>

lemma unat_s_consts [simp]: "unat s_MaxOrder = 231" "unat s_Inf = 232 * 2 ^ 24"
  by (simp_all add: s_MaxOrder_def s_Inf_def s_MantissaBits_def)

lemma less_s_Inf: "p < s_Inf \<longleftrightarrow> unat p < 232 * 2 ^ 24"
  and s_Inf_less: "s_Inf < p \<longleftrightarrow> 232 * 2 ^ 24 < unat p"
  and le_s_MaxOrder: "r \<le> s_MaxOrder \<longleftrightarrow> unat r \<le> 231"
  by (simp_all add: word_less_nat_alt word_le_nat_alt)

lemma and_low24: "(x :: u32) AND (push_bit s_MantissaBits 1 - 1) = take_bit 24 x"
  by (simp add: s_MantissaBits_def take_bit_eq_mask mask_eq_exp_minus_1)

lemma unat_take24: "unat (take_bit 24 (x :: u32)) = unat x mod 2 ^ 24"
  by (subst unsigned_take_bit_eq) (rule take_bit_eq_mod)

lemma unat_push24: "unat (x :: u32) < 256 \<Longrightarrow> unat (push_bit 24 x) = unat x * 2 ^ 24"
  by (simp only: unsigned_push_bit_eq) (simp add: take_bit_eq_mod push_bit_eq_mult)

lemma unat_pack24:
  fixes x y :: u32
  assumes "unat y < 256"
  shows "unat (push_bit 24 y OR take_bit 24 x) = unat y * 2 ^ 24 + unat x mod 2 ^ 24"
proof -
  have l: "unat (take_bit 24 x) < 2 ^ 24" by (simp only: unat_take24) simp
  have "push_bit 24 y OR take_bit 24 x = push_bit 24 y + take_bit 24 x"
    using l by (rule word_or_disjoint_add) (rule refl)
  moreover have "unat (push_bit 24 y) + unat (take_bit 24 x) < 2 ^ 32"
    using unat_push24 [OF assms] assms l by simp
  ultimately show ?thesis
    using unat_push24 [OF assms] by (simp only: unat_word_ariths unat_take24) simp
qed

lemma unat_dUnpack:
  "unat (fst (dUnpack p)) = unat p div 2 ^ 24" "unat (snd (dUnpack p)) = 2 ^ 24 + unat p mod 2 ^ 24"
proof -
  show "unat (fst (dUnpack p)) = unat p div 2 ^ 24"
    by (simp add: dUnpack_def Let_def s_MantissaBits_def unat_drop_bit)
  have "snd (dUnpack p) = push_bit 24 1 OR take_bit 24 p"
    unfolding dUnpack_def Let_def snd_conv and_low24 by (simp only: s_MantissaBits_def)
  then show "unat (snd (dUnpack p)) = 2 ^ 24 + unat p mod 2 ^ 24"
    using unat_pack24 [of 1 p] by simp
qed

lemma unat_dPack:
  "unat (dPack order mantissa) =
    (if unat order \<le> 231 then unat order * 2 ^ 24 + unat mantissa mod 2 ^ 24 else 232 * 2 ^ 24)"
proof (cases "unat order \<le> 231")
  case True
  then have "dPack order mantissa = push_bit 24 order OR take_bit 24 mantissa"
    unfolding dPack_def and_low24 by (simp add: le_s_MaxOrder s_MantissaBits_def or.commute)
  then show ?thesis using True unat_pack24 [of order mantissa] by simp
qed (simp add: dPack_def le_s_MaxOrder)

lemma u32_eqI: "unat x = unat y \<Longrightarrow> x = (y :: u32)"
  by (rule unsigned_word_eqI)

lemma dUnpack_dPack:
  assumes "order \<le> s_MaxOrder" and "drop_bit s_MantissaBits mantissa = 1"
  shows "dUnpack (dPack order mantissa) = (order, mantissa)"
proof -
  have "unat (drop_bit 24 mantissa) = 1" using assms(2) by (simp add: s_MantissaBits_def)
  then have m: "unat mantissa div 2 ^ 24 = 1" by (simp add: unat_drop_bit)
  have "unat mantissa = 2 ^ 24 + unat mantissa mod 2 ^ 24"
    using div_mult_mod_eq [of "unat mantissa" "2 ^ 24"] unfolding m by simp
  then have "fst (dUnpack (dPack order mantissa)) = order" "snd (dUnpack (dPack order mantissa)) = mantissa"
    using assms(1) by (intro u32_eqI; simp add: unat_dUnpack unat_dPack le_s_MaxOrder)+
  then show ?thesis by (simp add: prod_eq_iff)
qed

lemma dPack_dUnpack:
  assumes "p < s_Inf"
  shows "dPack (fst (dUnpack p)) (snd (dUnpack p)) = p"
proof (rule u32_eqI)
  have "unat p div 2 ^ 24 \<le> 231" using assms by (simp add: less_s_Inf)
  then show "unat (dPack (fst (dUnpack p)) (snd (dUnpack p))) = unat p"
    by (simp add: unat_dPack unat_dUnpack)
qed

section \<open>Raw values\<close>

definition raw_nat :: "nat \<Rightarrow> nat" where
  "raw_nat P = (2 ^ 24 + P mod 2 ^ 24) * 2 ^ (P div 2 ^ 24)"

lemma raw_nat_ge: "2 ^ 24 \<le> raw_nat P"
  unfolding raw_nat_def by (rule order_trans [OF _ mult_le_mono2 [OF one_le_power]]) simp_all

lemma raw_nat_less: "P < 232 * 2 ^ 24 \<Longrightarrow> raw_nat P < 2 ^ 256"
proof -
  assume "P < 232 * 2 ^ 24"
  then have "P div 2 ^ 24 \<le> 231" by simp
  then have p: "(2 :: nat) ^ (P div 2 ^ 24) \<le> 2 ^ 231" by (intro power_increasing) simp_all
  have "P mod 2 ^ 24 < 2 ^ 24" by simp
  then have "2 ^ 24 + P mod 2 ^ 24 < 2 ^ 25" by simp
  then have "raw_nat P < 2 ^ 25 * 2 ^ 231"
    unfolding raw_nat_def using p by (intro mult_less_le_imp_less) simp_all
  then show ?thesis by (simp flip: power_add)
qed

lemma raw_nat_strict_mono: "P < Q \<Longrightarrow> raw_nat P < raw_nat Q"
proof -
  assume lt: "P < Q"
  let ?M = "2 ^ 24 :: nat"
  show ?thesis
  proof (cases "P div ?M = Q div ?M")
    case True
    then have "P mod ?M < Q mod ?M"
      using lt by (metis add_less_cancel_left mult_div_mod_eq)
    then show ?thesis unfolding raw_nat_def True by simp
  next
    case False
    then have "Suc (P div ?M) \<le> Q div ?M" using lt div_le_mono [of P Q ?M] by simp
    then have p: "(2 :: nat) ^ Suc (P div ?M) \<le> 2 ^ (Q div ?M)" by (intro power_increasing) simp_all
    have "P mod ?M < ?M" by simp
    then have "(?M + P mod ?M) * 2 ^ (P div ?M) < (?M * 2) * 2 ^ (P div ?M)" by simp
    also have "\<dots> = ?M * 2 ^ Suc (P div ?M)" by simp
    also have "\<dots> \<le> (?M + Q mod ?M) * 2 ^ (Q div ?M)" using p by (intro mult_le_mono) simp_all
    finally show ?thesis by (simp only: raw_nat_def)
  qed
qed

lemma length_dUnpackRaw [simp]: "length (dUnpackRaw p) = 32"
  by (simp add: dUnpackRaw_def case_prod_beta)

lemma be_val_dUnpackRaw:
  "be_val (dUnpackRaw p) = (if p < s_Inf then raw_nat (unat p) else 2 ^ 256 - 1)"
proof (cases "p < s_Inf")
  case True
  obtain b d where r: "uAssignSafe (replicate 32 0) (snd (dUnpack p)) (unat (fst (dUnpack p))) = (b, d)"
    by fastforce
  have "be_val d = raw_nat (unat p) mod 256 ^ 32"
    using uAssignSafe_zero(1) [OF _ r, of 4] by (simp add: unat_dUnpack raw_nat_def)
  also have "\<dots> = raw_nat (unat p)"
    using raw_nat_less [of "unat p"] True by (simp add: less_s_Inf pow256)
  finally show ?thesis using True r by (simp add: dUnpackRaw_def case_prod_beta)
next
  case False
  then show ?thesis using be_val_uInv [of "replicate 32 0"] by (simp add: dUnpackRaw_def pow256)
qed

lemma dUnpackRaw_pos: "2 ^ 24 \<le> be_val (dUnpackRaw p)"
  using raw_nat_ge [of "unat p"] by (simp add: be_val_dUnpackRaw)

lemma dUnpackRaw_mono: "p \<le> q \<Longrightarrow> be_val (dUnpackRaw p) \<le> be_val (dUnpackRaw q)"
proof -
  assume "p \<le> q"
  then consider "p = q" | "unat p < unat q" by (metis word_less_nat_alt order_le_less)
  then show ?thesis
  proof cases
    case 2
    then show ?thesis
      using raw_nat_strict_mono [OF 2] raw_nat_less [of "unat p"]
      by (auto simp: be_val_dUnpackRaw less_s_Inf)
  qed simp
qed

section \<open>The target\<close>

lemma dIsTargetReached_iff:
  assumes "length hv = 32"
  shows "dIsTargetReached p hv \<longleftrightarrow> p \<le> s_Inf \<and> be_val hv * be_val (dUnpackRaw p) < 2 ^ 280"
proof -
  let ?x = "be_val hv * be_val (dUnpackRaw p)"
  have l: "be_val hv < 2 ^ 256" "be_val (dUnpackRaw p) < 2 ^ 256"
    using be_val_less [of hv] be_val_less [of "dUnpackRaw p"] assms by (simp_all add: pow256)
  then have "?x < 2 ^ 256 * 2 ^ 256" by (rule mult_strict_mono) simp_all
  then have v: "be_val (uMul 64 hv (dUnpackRaw p)) = ?x" by (simp add: be_val_uMul pow256)
  have "length (uMul 64 hv (dUnpackRaw p)) = 64" by simp
  then have "memis0 (take 29 (uMul 64 hv (dUnpackRaw p))) \<longleftrightarrow> ?x div 256 ^ 35 = 0"
    using be_val_take [of 29 "uMul 64 hv (dUnpackRaw p)"] v by (simp add: memis0_be_val)
  also have "\<dots> \<longleftrightarrow> ?x < 256 ^ 35" by (simp only: div_eq_0_iff) simp
  also have "(256 :: nat) ^ 35 = 2 ^ 280" by (simp add: pow256)
  finally show ?thesis
    using assms by (auto simp: dIsTargetReached_def s_MantissaBits_def not_less)
qed

lemma be_val_replicate_ff: "be_val (replicate n 0xff) = 256 ^ n - 1"
proof (induction n)
  case (Suc n)
  have "(1 :: nat) \<le> 256 ^ n" by simp
  then show ?case using Suc by simp
qed simp

lemma dget_Target_val:
  assumes "p \<le> s_Inf"
  shows "fst (dget_Target p)" "length (snd (dget_Target p)) = 32"
    "be_val (snd (dget_Target p)) = (2 ^ 280 - 1) div be_val (dUnpackRaw p)"
proof -
  obtain q m where r: "uDiv 32 (replicate 35 0xff) (dUnpackRaw p) = (q, m)" by fastforce
  have raw: "2 ^ 24 \<le> be_val (dUnpackRaw p)" by (rule dUnpackRaw_pos)
  have t: "dget_Target p = (True, q)" using assms r by (simp add: dget_Target_def Let_def s_MantissaBits_def)
  show "fst (dget_Target p)" "length (snd (dget_Target p)) = 32" using t uDiv_spec(1) [OF _ r] by simp_all
  have "(2 ^ 280 - 1) div be_val (dUnpackRaw p) \<le> (2 ^ 280 - 1) div 2 ^ 24"
    using raw by (rule div_le_mono2 [rotated]) simp
  also have "\<dots> = 2 ^ 256 - (1 :: nat)" by simp
  finally show "be_val (snd (dget_Target p)) = (2 ^ 280 - 1) div be_val (dUnpackRaw p)"
    using t uDiv_spec(4) [OF _ r] raw by (simp add: be_val_replicate_ff pow256)
qed

lemma less_iff_le_pred: "0 < n \<Longrightarrow> x < n \<longleftrightarrow> x \<le> n - (1 :: nat)"
  by linarith

lemma dTarget_agree:
  assumes "length hv = 32" and "p \<le> s_Inf"
  shows "dIsTargetReached p hv \<longleftrightarrow> be_val hv \<le> be_val (snd (dget_Target p))"
proof -
  have pos: "0 < be_val (dUnpackRaw p)" using dUnpackRaw_pos [of p] by simp
  have "be_val hv * be_val (dUnpackRaw p) < 2 ^ 280 \<longleftrightarrow>
      be_val hv * be_val (dUnpackRaw p) \<le> 2 ^ 280 - 1"
    by (rule less_iff_le_pred) simp
  also have "\<dots> \<longleftrightarrow> be_val hv \<le> (2 ^ 280 - 1) div be_val (dUnpackRaw p)"
    using pos by (simp only: less_eq_div_iff_mult_less_eq)
  finally show ?thesis
    using dIsTargetReached_iff [OF assms(1)] dget_Target_val(3) [OF assms(2)] assms(2) by simp
qed

section \<open>Accumulated work\<close>

lemma length_dAdd [simp]: "length (dAdd r d) = 32" "length (dAddTo r d) = length r"
  "length (dSub r d) = 32" "length (dSubFrom r d) = length r"
  by (simp_all add: dAdd_def dAddTo_def dSub_def dSubFrom_def)

lemma be_val_dAdd:
  assumes "length r = 32"
  shows "be_val (dAdd r d) = (be_val r + be_val (dUnpackRaw d)) mod 2 ^ 256"
    "be_val (dAddTo r d) = (be_val r + be_val (dUnpackRaw d)) mod 2 ^ 256"
  using assms by (simp_all add: dAdd_def dAddTo_def be_val_uInc3 pow256 add.commute)

lemma be_val_dSub:
  assumes "length r = 32"
  shows "be_val (dSub r d) = (be_val r + (2 ^ 256 - be_val (dUnpackRaw d))) mod 2 ^ 256"
    "be_val (dSubFrom r d) = (be_val r + (2 ^ 256 - be_val (dUnpackRaw d))) mod 2 ^ 256"
  using assms
  by (simp_all add: dSub_def dSubFrom_def be_val_uInc3 be_val_uNegate pow256 mod_simps add.commute)

lemma mod_add_sub_cancel:
  assumes "v < M" "r < (M :: nat)"
  shows "((r + v) mod M + (M - v)) mod M = r"
proof -
  have "((r + v) mod M + (M - v)) mod M = (r + v + (M - v)) mod M" by (rule mod_add_left_eq)
  also have "r + v + (M - v) = r + M" using assms by simp
  finally show ?thesis using assms by simp
qed

lemma mod_sub_add_cancel:
  assumes "v < M" "r < (M :: nat)"
  shows "((r + (M - v)) mod M + v) mod M = r"
proof -
  have "((r + (M - v)) mod M + v) mod M = (r + (M - v) + v) mod M" by (rule mod_add_left_eq)
  also have "r + (M - v) + v = r + M" using assms by simp
  finally show ?thesis using assms by simp
qed

lemma dSub_dAdd:
  assumes "length r = 32"
  shows "dSub (dAdd r d) d = r" "dSubFrom (dAddTo r d) d = r"
    "dAdd (dSub r d) d = r" "dAddTo (dSubFrom r d) d = r"
proof -
  let ?v = "be_val (dUnpackRaw d)"
  have v: "?v < 2 ^ 256" and r: "be_val r < 2 ^ 256"
    using be_val_less [of "dUnpackRaw d"] be_val_less [of r] assms by (simp_all add: pow256)
  have a: "((be_val r + ?v) mod 2 ^ 256 + (2 ^ 256 - ?v)) mod 2 ^ 256 = be_val r"
    "((be_val r + (2 ^ 256 - ?v)) mod 2 ^ 256 + ?v) mod 2 ^ 256 = be_val r"
    by (rule mod_add_sub_cancel [OF v r] mod_sub_add_cancel [OF v r])+
  have "be_val (dSub (dAdd r d) d) = be_val r" "be_val (dSubFrom (dAddTo r d) d) = be_val r"
    "be_val (dAdd (dSub r d) d) = be_val r" "be_val (dAddTo (dSubFrom r d) d) = be_val r"
    using a by (simp_all only: be_val_dAdd be_val_dSub assms length_dAdd)
  then show "dSub (dAdd r d) d = r" "dSubFrom (dAddTo r d) d = r"
    "dAdd (dSub r d) d = r" "dAddTo (dSubFrom r d) d = r"
    by (simp_all add: be_val_inject assms)
qed

lemma raw_nat_below_inf: "P < 232 * 2 ^ 24 \<Longrightarrow> raw_nat P < 2 ^ 256 - 1"
proof -
  assume "P < 232 * 2 ^ 24"
  then have "P div 2 ^ 24 \<le> 231" by simp
  then have "(2 :: nat) ^ (P div 2 ^ 24) \<le> 2 ^ 231" by (intro power_increasing) simp_all
  moreover have "P mod 2 ^ 24 \<le> 2 ^ 24 - 1" by simp
  ultimately have "raw_nat P \<le> (2 ^ 24 + (2 ^ 24 - 1)) * 2 ^ 231"
    unfolding raw_nat_def by (intro mult_le_mono) simp_all
  also have "\<dots> < 2 ^ 256 - 1" by simp
  finally show ?thesis .
qed

section \<open>Properties\<close>

text \<open>C27: packing and unpacking a difficulty are inverse: a normalised order and mantissa survive \<open>Pack\<close> and
  \<open>Unpack\<close>, and every packed value below the infinite one is rebuilt from its unpacked parts.\<close>

theorem Pack_Unpack_inverse:
  "(order \<le> s_MaxOrder \<and> drop_bit s_MantissaBits mantissa = 1 \<longrightarrow> dUnpack (dPack order mantissa) = (order, mantissa)) \<and>
   (p < s_Inf \<longrightarrow> dPack (fst (dUnpack p)) (snd (dUnpack p)) = p)"
  by (simp add: dUnpack_dPack dPack_dUnpack)

theorem Pack_Unpack_inverse_witness:
  "dUnpack (dPack 5 0x1800000) = (5, 0x1800000) \<and> dPack (fst (dUnpack 0x5800000)) (snd (dUnpack 0x5800000)) = 0x5800000"
proof -
  have "(5 :: u32) \<le> s_MaxOrder \<and> drop_bit s_MantissaBits (0x1800000 :: u32) = 1" "(0x5800000 :: u32) < s_Inf"
    by code_simp+
  then show ?thesis using Pack_Unpack_inverse [of 5 "0x1800000" "0x5800000"] by simp
qed

text \<open>C26: up to the infinite difficulty a larger packed value has a strictly larger raw value, so comparing
  packed difficulties compares the work they stand for.\<close>

theorem UnpackRaw_strictly_monotone:
  assumes "p < q" and "q \<le> s_Inf"
  shows "be_val (dUnpackRaw p) < be_val (dUnpackRaw q)"
proof -
  have p: "p < s_Inf" using assms by simp
  have lt: "unat p < unat q" using assms(1) by (simp add: word_less_nat_alt)
  show ?thesis
    using p raw_nat_strict_mono [OF lt] raw_nat_below_inf [of "unat p"] by (simp add: be_val_dUnpackRaw less_s_Inf)
qed

theorem UnpackRaw_strictly_monotone_witness:
  "(0x1000000 :: u32) < s_Inf \<and> be_val (dUnpackRaw 0x1000000) < be_val (dUnpackRaw s_Inf)"
proof -
  have "(0x1000000 :: u32) < s_Inf" by code_simp
  then show ?thesis using UnpackRaw_strictly_monotone [of "0x1000000" s_Inf] by simp
qed

text \<open>C23: \<open>IsTargetReached\<close> accepts a hash exactly when the difficulty is valid and the product of the hash and
  the raw difficulty is below two to the 256 plus mantissa bits.\<close>

theorem IsTargetReached_iff_product_fits:
  assumes "length hv = 32"
  shows "dIsTargetReached p hv \<longleftrightarrow> p \<le> s_Inf \<and> be_val hv * be_val (dUnpackRaw p) < 2 ^ 280"
  by (rule dIsTargetReached_iff [OF assms])

theorem IsTargetReached_iff_product_fits_witness:
  "dIsTargetReached 0 (replicate 31 0 @ [7]) \<longleftrightarrow>
    (0 :: u32) \<le> s_Inf \<and> be_val (replicate 31 0 @ [7]) * be_val (dUnpackRaw 0) < 2 ^ 280"
  by (rule IsTargetReached_iff_product_fits) simp

text \<open>C22: \<open>get_Target\<close> succeeds for every valid difficulty, and testing hashes against the target it returns
  gives the verdicts of \<open>IsTargetReached\<close>.\<close>

theorem get_Target_agrees:
  assumes "length hv = 32" and "p \<le> s_Inf"
  shows "fst (dget_Target p) \<and> (dIsTargetReached p hv \<longleftrightarrow> be_val hv \<le> be_val (snd (dget_Target p)))"
  using dTarget_agree [OF assms] dget_Target_val(1) [OF assms(2)] by simp

theorem get_Target_agrees_witness:
  "fst (dget_Target 0x2000000) \<and>
   (dIsTargetReached 0x2000000 (replicate 32 1) \<longleftrightarrow> be_val (replicate 32 1) \<le> be_val (snd (dget_Target 0x2000000)))"
proof (rule get_Target_agrees)
  show "length (replicate 32 (1 :: u8)) = 32" by simp
  show "(0x2000000 :: u32) \<le> s_Inf" by code_simp
qed

text \<open>At the infinite difficulty the hashes up to two to the 24 still reach the target, not only the zero
  hash that the comment at \<open>s_Inf\<close> names.\<close>

theorem infinite_difficulty_accepts_small_hashes:
  assumes "length hv = 32"
  shows "dIsTargetReached s_Inf hv \<longleftrightarrow> be_val hv \<le> 2 ^ 24"
proof -
  let ?R = "2 ^ 256 - 1 :: nat"
  have raw: "be_val (dUnpackRaw s_Inf) = ?R" by (simp add: be_val_dUnpackRaw)
  have "be_val hv * ?R < 2 ^ 280 \<longleftrightarrow> be_val hv \<le> 2 ^ 24"
  proof
    assume a: "be_val hv * ?R < 2 ^ 280"
    show "be_val hv \<le> 2 ^ 24"
    proof (rule ccontr)
      assume "\<not> be_val hv \<le> 2 ^ 24"
      then have "(2 ^ 24 + 1) * ?R \<le> be_val hv * ?R" by (intro mult_le_mono1) simp
      then show False using a by simp
    qed
  next
    assume "be_val hv \<le> 2 ^ 24"
    then have "be_val hv * ?R \<le> 2 ^ 24 * ?R" by (rule mult_le_mono1)
    then show "be_val hv * ?R < 2 ^ 280" by simp
  qed
  then show ?thesis using dIsTargetReached_iff [OF assms, of s_Inf] raw by simp
qed

theorem infinite_difficulty_accepts_small_hashes_witness:
  "dIsTargetReached s_Inf (replicate 31 0 @ [1]) \<and> be_val (replicate 31 0 @ [1 :: u8]) \<noteq> 0"
proof -
  have v: "be_val (replicate 31 0 @ [1]) = 1" by (simp add: be_val_append)
  have "dIsTargetReached s_Inf (replicate 31 0 @ [1]) \<longleftrightarrow> be_val (replicate 31 0 @ [1]) \<le> 2 ^ 24"
    by (rule infinite_difficulty_accepts_small_hashes) simp
  then show ?thesis by (simp add: v)
qed

text \<open>C28: adding a difficulty to accumulated work and subtracting it again, in either order and with either form
  of the operators, gives the work back, also when the 256-bit sum wraps around.\<close>

theorem work_add_sub_inverse:
  assumes "length r = 32"
  shows "dSub (dAdd r d) d = r \<and> dSubFrom (dAddTo r d) d = r \<and> dAdd (dSub r d) d = r \<and> dAddTo (dSubFrom r d) d = r"
  using dSub_dAdd [OF assms] by simp

theorem work_add_sub_inverse_witness:
  "dSub (dAdd (replicate 32 0xff) 0x3000000) 0x3000000 = replicate 32 0xff \<and>
   dSubFrom (dAddTo (replicate 32 0xff) 0x3000000) 0x3000000 = replicate 32 0xff \<and>
   dAdd (dSub (replicate 32 0xff) 0x3000000) 0x3000000 = replicate 32 0xff \<and>
   dAddTo (dSubFrom (replicate 32 0xff) 0x3000000) 0x3000000 = replicate 32 0xff"
  by (rule work_add_sub_inverse) simp

end
