(* ===== verification/Difficulty_Retarget.thy ===== *)
theory Difficulty_Retarget
  imports Difficulty
begin

text \<open>
  The accuracy of the retargeting formula \<open>Difficulty::Calculate\<close> (\<open>src/core/difficulty.cpp\<close>): the value of a
  \<open>BigFloat\<close> as a real number, the truncation error of each of its operations, and the error of the packed
  difficulty that the formula delivers.
\<close>

declare of_nat_unat [simp del]

definition bf_val :: "BigFloat \<Rightarrow> real" where
  "bf_val x = real (unat (m_Value x)) * power_int 2 (m_Order x)"

definition bf_norm :: "BigFloat \<Rightarrow> bool" where
  "bf_norm x \<longleftrightarrow> 2 ^ 31 \<le> unat (m_Value x)"

text \<open>The relative error of one truncation to 32 bits.\<close>

definition eps :: real where
  "eps = 1 / 2 ^ 31"

lemma eps_bounds: "0 < eps" "eps < 1" "eps \<le> 1 / 2 ^ 31"
  by (simp_all add: eps_def)

text \<open>Truncation: \<open>w\<close> approximates \<open>v\<close> from below.\<close>

definition trunc :: "real \<Rightarrow> real \<Rightarrow> bool" where
  "trunc v w \<longleftrightarrow> (1 - eps) * v \<le> w \<and> w \<le> v"

lemma trunc_refl: "0 \<le> v \<Longrightarrow> trunc v v"
  using eps_bounds by (simp add: trunc_def mult_left_le_one_le)

lemma trunc_scale: "0 \<le> c \<Longrightarrow> trunc v w \<Longrightarrow> trunc (v * c) (w * c)"
  by (auto simp: trunc_def mult_right_mono simp flip: mult.assoc)

lemma trunc_floor:
  fixes m :: nat and c v :: real
  assumes "2 ^ 31 \<le> m" "0 < c" "real m * c \<le> v" "v < (real m + 1) * c"
  shows "trunc v (real m * c)"
proof -
  have "2 ^ 31 * c \<le> real m * c" using assms(1,2) by (intro mult_right_mono) simp_all
  then have "c \<le> eps * v" using assms(3) by (simp add: eps_def)
  moreover have "v \<le> real m * c + c" using assms(4) by (simp add: algebra_simps)
  ultimately show ?thesis using assms(3) by (simp add: trunc_def algebra_simps)
qed

lemma real_div_bounds:
  assumes "0 < (c :: nat)"
  shows "real (v div c) * real c \<le> real v" "real v < (real (v div c) + 1) * real c"
proof -
  show "real (v div c) * real c \<le> real v"
    by (metis of_nat_mult of_nat_le_iff div_times_less_eq_dividend)
  have "v < (v div c + 1) * c" using assms by (metis Suc_eq_plus1 div_less_iff_less_mult lessI)
  then have "real v < real ((v div c + 1) * c)" by (simp only: of_nat_less_iff)
  then show "real v < (real (v div c) + 1) * real c" by (simp add: algebra_simps)
qed

lemma power_int_nat: "0 \<le> k \<Longrightarrow> power_int (2 :: real) k = 2 ^ nat k"
  by (simp add: power_int_def)

lemma power_int_neg_nat: "k \<le> 0 \<Longrightarrow> power_int (2 :: real) k * 2 ^ nat (- k) = 1"
  by (cases "k = 0") (simp_all add: power_int_def flip: power_mult_distrib)

lemma power_int_less_imp: "power_int (2 :: real) i < power_int 2 j \<Longrightarrow> i < j"
  by (metis not_le power_int_increasing one_le_numeral)

lemma bf_assign_spec:
  assumes "be_val v \<noteq> 0"
  shows "bf_norm (bf_assign v) \<and> trunc (real (be_val v)) (bf_val (bf_assign v))"
proof -
  let ?V = "be_val v" and ?o = "uGetOrder v"
  define m where "m = int ?o - 32"
  have ord: "0 < ?o" "2 ^ (?o - 1) \<le> ?V" "?V < 2 ^ ?o" using uGetOrder_spec [of v] assms by auto
  show ?thesis
  proof (cases "0 < m")
    case True
    let ?k = "nat m"
    have o32: "?o = 32 + ?k" using True by (simp add: m_def)
    have q: "?V div 2 ^ ?k < 2 ^ 32" using ord(3) by (simp add: div_less_iff_less_mult o32 power_add)
    have lo: "2 ^ 31 \<le> ?V div 2 ^ ?k"
      using ord(2) by (simp add: less_eq_div_iff_mult_less_eq o32 power_add)
    have val: "unat (m_Value (bf_assign v)) = ?V div 2 ^ ?k" "m_Order (bf_assign v) = m"
      using True ord(1) q
      by (simp_all add: bf_assign_def Let_def m_def [symmetric] unat_uExport be_val_uShiftRight
          length_uShiftRight flip: length_0_conv)
    show ?thesis
      using trunc_floor [OF lo, of "2 ^ ?k" "real ?V"] real_div_bounds [of "2 ^ ?k" ?V] lo True
      by (simp add: bf_norm_def bf_val_def val power_int_nat)
  next
    case False
    let ?k = "nat (- m)"
    have o32: "?o + ?k = 32" using False ord(1) by (simp add: m_def)
    have "?V * 2 ^ ?k < 2 ^ ?o * 2 ^ ?k" using ord(3) by simp
    then have q: "?V * 2 ^ ?k < 2 ^ 32" by (simp add: o32 flip: power_add)
    have "2 ^ (?o - 1) * 2 ^ ?k \<le> ?V * 2 ^ ?k" using ord(2) by simp
    moreover have "?o - 1 + ?k = 31" using o32 ord(1) by simp
    ultimately have lo: "2 ^ 31 \<le> ?V * 2 ^ ?k" by (metis power_add)
    have val: "unat (m_Value (bf_assign v)) = ?V * 2 ^ ?k" "m_Order (bf_assign v) = m"
      using False ord(1) q
      by (simp_all add: bf_assign_def Let_def m_def [symmetric] unat_uExport be_val_uShiftLeft
          length_uShiftLeft flip: length_0_conv)
    have "bf_val (bf_assign v) = real ?V"
      using power_int_neg_nat [of m] False by (simp add: bf_val_def val algebra_simps)
    then show ?thesis using lo by (simp add: bf_norm_def val trunc_refl)
  qed
qed

lemma bf_assign_0: "be_val v = 0 \<Longrightarrow> m_Value (bf_assign v) = 0"
  using uGetOrder_spec [of v] by (simp add: bf_assign_def)

lemma bf_of_spec:
  fixes x :: "'a::len word"
  assumes "LENGTH('a) = 8 * n" and "unat x \<noteq> 0"
  shows "bf_norm (bf_of n x) \<and> trunc (real (unat x)) (bf_val (bf_of n x))"
proof -
  have "unat x < 256 ^ n" using unsigned_less [of x, where ?'a = nat] assms(1) by (simp add: pow256)
  then have "be_val (uAssignOrdinal (replicate n 0) x) = unat x"
    using uAssignOrdinal_eq [OF assms(1), of "replicate n 0" x] by simp
  then show ?thesis using bf_assign_spec [of "uAssignOrdinal (replicate n 0) x"] assms(2) by (simp add: bf_of_def)
qed

lemma unat_mult_u32_u64: "unat ((ucast (x :: u32) :: u64) * ucast (y :: u32)) = unat x * unat y"
proof -
  have "unat x * unat y < 4294967296 * 4294967296"
    using unat_u32_less [of x] unat_u32_less [of y] by (rule mult_strict_mono) simp_all
  then show ?thesis by (simp add: unat_word_ariths unat_ucast_u32_u64)
qed

lemma bf_mult_spec:
  assumes "bf_norm a" "bf_norm b"
  shows "bf_norm (bf_mult a b) \<and> trunc (bf_val a * bf_val b) (bf_val (bf_mult a b))"
proof -
  define val where "val = (ucast (m_Value a) :: u64) * ucast (m_Value b)"
  have v: "unat val = unat (m_Value a) * unat (m_Value b)"
    unfolding val_def by (rule unat_mult_u32_u64)
  then have r: "bf_norm (bf_of 8 val) \<and> trunc (real (unat val)) (bf_val (bf_of 8 val))"
    using assms by (intro bf_of_spec) (auto simp: bf_norm_def)
  let ?c = "power_int (2 :: real) (m_Order a + m_Order b)"
  have "bf_val (bf_mult a b) = bf_val (bf_of 8 val) * ?c" "m_Value (bf_mult a b) = m_Value (bf_of 8 val)"
    by (simp_all add: bf_mult_def Let_def val_def [symmetric] bf_val_def power_int_add)
  moreover have "bf_val a * bf_val b = real (unat val) * ?c"
    by (simp add: bf_val_def v power_int_add)
  ultimately show ?thesis using r trunc_scale [of ?c "real (unat val)"] by (simp add: bf_norm_def)
qed

lemma trunc_trans: "trunc u v \<Longrightarrow> trunc v w \<Longrightarrow> (1 - eps) * ((1 - eps) * u) \<le> w \<and> w \<le> u"
  using eps_bounds(2) mult_left_mono [of "(1 - eps) * u" v "1 - eps"] unfolding trunc_def by linarith

lemma bf_div_spec:
  assumes "bf_norm a" "bf_norm b"
  obtains x where "bf_div a b = Some x" "bf_norm x"
    "(1 - eps) * ((1 - eps) * (bf_val a / bf_val b)) \<le> bf_val x" "bf_val x \<le> bf_val a / bf_val b"
proof -
  let ?A = "unat (m_Value a)" and ?B = "unat (m_Value b)"
  define val where "val = push_bit 32 (ucast (m_Value a) :: u64) div ucast (m_Value b)"
  have A: "2 ^ 31 \<le> ?A" "?A < 2 ^ 32" and B: "2 ^ 31 \<le> ?B" "?B < 2 ^ 32"
    using assms unat_u32_less [of "m_Value a"] unat_u32_less [of "m_Value b"] by (simp_all add: bf_norm_def)
  have "unat (push_bit 32 (ucast (m_Value a) :: u64)) = ?A * 2 ^ 32"
    using A(2) by (simp only: unsigned_push_bit_eq unat_ucast_u32_u64)
      (simp add: take_bit_eq_mod push_bit_eq_mult)
  then have v: "unat val = (?A * 2 ^ 32) div ?B"
    unfolding val_def by (simp only: unat_div unat_ucast_u32_u64)
  have "2 ^ 31 * ?B \<le> ?A * 2 ^ 32" using A(1) B(2) by simp
  then have lo: "2 ^ 31 \<le> unat val" using B(1)
    by (simp add: v less_eq_div_iff_mult_less_eq)
  then have r: "bf_norm (bf_of 8 val) \<and> trunc (real (unat val)) (bf_val (bf_of 8 val))"
    by (intro bf_of_spec) auto
  let ?q = "real ?A * 2 ^ 32 / real ?B"
  have B0: "0 < ?B" using B(1) by simp
  have "trunc ?q (real (unat val) * 1)"
    using real_div_bounds [OF B0, of "?A * 2 ^ 32"] lo B0 unfolding v
    by (intro trunc_floor) (simp_all add: field_simps)
  then have t: "(1 - eps) * ((1 - eps) * ?q) \<le> bf_val (bf_of 8 val) \<and> bf_val (bf_of 8 val) \<le> ?q"
    using r by (intro trunc_trans [of ?q "real (unat val)"]) simp_all
  let ?c = "power_int (2 :: real) (m_Order a - (m_Order b + 32))"
  define x where "x = (bf_of 8 val)\<lparr>m_Order := m_Order (bf_of 8 val) + (m_Order a - (m_Order b + 32))\<rparr>"
  have c: "?c = power_int 2 (m_Order a) / (power_int 2 (m_Order b) * 2 ^ 32)"
    by (simp add: power_int_diff power_int_add)
  have x: "bf_val x = bf_val (bf_of 8 val) * ?c" "m_Value x = m_Value (bf_of 8 val)"
    by (simp_all add: x_def bf_val_def power_int_add)
  have q: "bf_val a / bf_val b = ?q * ?c"
    unfolding c by (simp add: bf_val_def field_simps)
  have cp: "0 \<le> ?c" by simp
  show thesis
  proof (rule that [of x])
    show "bf_div a b = Some x" using B0 by (auto simp: bf_div_def Let_def val_def x_def)
    show "bf_norm x" using r x(2) by (simp add: bf_norm_def)
    show "(1 - eps) * ((1 - eps) * (bf_val a / bf_val b)) \<le> bf_val x"
      using mult_right_mono [OF conjunct1 [OF t] cp] unfolding x q by (simp only: mult.assoc)
    show "bf_val x \<le> bf_val a / bf_val b"
      using mult_right_mono [OF conjunct2 [OF t] cp] unfolding x q .
  qed
qed

lemma packed_raw:
  assumes "bf_norm x" and "m = m_Order x + 7" and "0 \<le> m" "m \<le> 231"
    and "p = dPack (of_int m) (drop_bit 7 (m_Value x))"
  shows "p < s_Inf" "be_val (dUnpackRaw p) = (unat (m_Value x) div 2 ^ 7) * 2 ^ nat m"
proof -
  let ?M = "unat (m_Value x) div 2 ^ 7"
  have uv: "2 ^ 31 \<le> unat (m_Value x)" "unat (m_Value x) < 2 ^ 32"
    using assms(1) unat_u32_less [of "m_Value x"] by (simp_all add: bf_norm_def)
  then have "2 ^ 24 \<le> ?M" "?M < 2 ^ 25" by (simp_all add: less_eq_div_iff_mult_less_eq div_less_iff_less_mult)
  then have dm: "?M div 2 ^ 24 = 1" by simp
  then have M: "2 ^ 24 + ?M mod 2 ^ 24 = ?M" using div_mult_mod_eq [of ?M "2 ^ 24"] unfolding dm by simp
  have "of_int m = (of_nat (nat m) :: u32)" using assms(3) by simp
  then have "unat (of_int m :: u32) = nat m" using assms(4) by (simp only: unat_of_nat) simp
  then have P: "unat p = nat m * 2 ^ 24 + ?M mod 2 ^ 24"
    using assms(3,4,5) by (simp only: unat_dPack unat_drop_bit) simp
  have lt: "?M mod 2 ^ 24 < 2 ^ 24" by simp
  have "nat m * 2 ^ 24 + ?M mod 2 ^ 24 < (nat m + 1) * 2 ^ 24" using lt by simp
  also have "\<dots> \<le> 232 * 2 ^ 24" using assms(4) by (intro mult_le_mono1) simp
  finally show s: "p < s_Inf" by (simp only: less_s_Inf P)
  have "unat p div 2 ^ 24 = nat m" "unat p mod 2 ^ 24 = ?M mod 2 ^ 24" using lt unfolding P by simp_all
  then show "be_val (dUnpackRaw p) = ?M * 2 ^ nat m"
    using s by (simp only: be_val_dUnpackRaw raw_nat_def M if_True)
qed

lemma packed_accuracy:
  assumes "bf_norm x" and "2 ^ 24 \<le> bf_val x" "bf_val x < 2 ^ 256"
    and "m = m_Order x + 7" and "p = dPack (of_int m) (drop_bit 7 (m_Value x))"
  shows "0 \<le> m" "p < s_Inf" "(1 - 1 / 2 ^ 24) * bf_val x \<le> real (be_val (dUnpackRaw p))"
    "real (be_val (dUnpackRaw p)) \<le> bf_val x"
proof -
  let ?v = "unat (m_Value x)"
  have v: "2 ^ 31 \<le> real ?v" "real ?v < 2 ^ 32"
    using assms(1) unat_u32_less [of "m_Value x"] by (simp_all add: bf_norm_def)
  let ?c = "power_int (2 :: real) (m_Order x)"
  have cp: "0 < ?c" by simp
  have "2 ^ 24 < 2 ^ 32 * ?c"
    using assms(2) mult_strict_right_mono [OF v(2) cp] unfolding bf_val_def by linarith
  then have "power_int (2 :: real) (-8) < ?c" by (simp add: power_int_minus)
  then have "-8 < m_Order x" by (rule power_int_less_imp)
  then show m0: "0 \<le> m" using assms(4) by simp
  have "2 ^ 31 * ?c < 2 ^ 256"
    using assms(3) mult_right_mono [OF v(1), of ?c] cp unfolding bf_val_def by linarith
  then have "?c < power_int 2 225" by (simp add: power_int_nat)
  then have "m_Order x < 225" by (rule power_int_less_imp)
  then have m1: "m \<le> 231" using assms(4) by simp
  show "p < s_Inf" by (rule packed_raw(1) [OF assms(1,4) m0 m1 assms(5)])
  have "2 ^ nat m = ?c * 2 ^ 7"
    using m0 unfolding assms(4) by (simp add: power_int_add flip: power_int_nat)
  then have r: "real (be_val (dUnpackRaw p)) = real (?v div 2 ^ 7) * real (2 ^ 7) * ?c"
    using packed_raw(2) [OF assms(1,4) m0 m1 assms(5)] by simp
  note b = real_div_bounds [of "2 ^ 7" ?v]
  show "real (be_val (dUnpackRaw p)) \<le> bf_val x"
    unfolding r bf_val_def using b(1) cp by (intro mult_right_mono) simp_all
  have "(1 - 1 / 2 ^ 24) * real ?v \<le> real (?v div 2 ^ 7) * real (2 ^ 7)"
    using b(2) v(1) by simp
  then have "(1 - 1 / 2 ^ 24) * real ?v * ?c \<le> real (?v div 2 ^ 7) * real (2 ^ 7) * ?c"
    using cp by (intro mult_right_mono) simp_all
  then show "(1 - 1 / 2 ^ 24) * bf_val x \<le> real (be_val (dUnpackRaw p))"
    unfolding r bf_val_def by (simp only: mult.assoc)
qed

text \<open>The quotient computed by \<open>Calculate\<close> before packing.\<close>

lemma calculate_quotient:
  fixes trg src dh :: u32
  assumes "be_val wrk \<noteq> 0" "unat trg \<noteq> 0" "unat src \<noteq> 0" "unat dh \<noteq> 0"
    and E: "E = real (be_val wrk) * real (unat trg) / (real (unat src) * real (unat dh))"
  obtains x where
    "bf_div (bf_mult (bf_assign wrk) (bf_of 4 trg)) (bf_of 8 ((ucast src :: u64) * ucast dh)) = Some x"
    "bf_norm x" "(1 - eps) ^ 5 * E \<le> bf_val x" "bf_val x \<le> E / (1 - eps)"
proof -
  let ?A = "bf_assign wrk" and ?T = "bf_of 4 trg" and ?D = "bf_of 8 ((ucast src :: u64) * ucast dh)"
  let ?e = "1 - eps" and ?d = "real (unat src) * real (unat dh)"
  have e: "0 < ?e" "?e < 1" using eps_bounds by simp_all
  have A: "bf_norm ?A" "trunc (real (be_val wrk)) (bf_val ?A)"
    using bf_assign_spec [OF assms(1)] by simp_all
  have T: "bf_norm ?T" "trunc (real (unat trg)) (bf_val ?T)"
    using bf_of_spec [OF _ assms(2), of 4] by simp_all
  have D: "bf_norm ?D" "trunc ?d (bf_val ?D)"
    using bf_of_spec [of 8 "(ucast src :: u64) * ucast dh"] assms(3,4)
    by (simp_all add: unat_mult_u32_u64)
  have M: "bf_norm (bf_mult ?A ?T)" "trunc (bf_val ?A * bf_val ?T) (bf_val (bf_mult ?A ?T))"
    using bf_mult_spec [OF A(1) T(1)] by simp_all
  have d0: "0 < ?d" using assms(3,4) by simp
  have w: "0 < real (be_val wrk)" "0 < real (unat trg)" using assms(1,2) by simp_all
  have Dp: "0 < bf_val ?D" using D(2) mult_pos_pos [OF e(1) d0] unfolding trunc_def by linarith
  have pp: "0 \<le> bf_val ?A" "0 \<le> bf_val ?T" "0 \<le> bf_val (bf_mult ?A ?T)" by (simp_all add: bf_val_def)
  have Mlo: "?e * ((?e * real (be_val wrk)) * (?e * real (unat trg))) \<le> bf_val (bf_mult ?A ?T)"
  proof -
    have "(?e * real (be_val wrk)) * (?e * real (unat trg)) \<le> bf_val ?A * bf_val ?T"
      using A(2) T(2) e w pp unfolding trunc_def by (intro mult_mono) simp_all
    then have "?e * ((?e * real (be_val wrk)) * (?e * real (unat trg))) \<le> ?e * (bf_val ?A * bf_val ?T)"
      using e by (intro mult_left_mono) simp_all
    then show ?thesis using M(2) by (simp add: trunc_def)
  qed
  have Mhi: "bf_val (bf_mult ?A ?T) \<le> real (be_val wrk) * real (unat trg)"
  proof -
    have "bf_val ?A * bf_val ?T \<le> real (be_val wrk) * real (unat trg)"
      using A(2) T(2) pp w unfolding trunc_def by (intro mult_mono) simp_all
    then show ?thesis using M(2) by (simp add: trunc_def)
  qed
  obtain x where x: "bf_div (bf_mult ?A ?T) ?D = Some x" "bf_norm x"
      "?e * (?e * (bf_val (bf_mult ?A ?T) / bf_val ?D)) \<le> bf_val x"
      "bf_val x \<le> bf_val (bf_mult ?A ?T) / bf_val ?D"
    using bf_div_spec [OF M(1) D(1)] by blast
  show thesis
  proof (rule that [OF x(1,2)])
    have "bf_val (bf_mult ?A ?T) / bf_val ?D \<le> (real (be_val wrk) * real (unat trg)) / (?e * ?d)"
      using Mhi D(2) d0 e w unfolding trunc_def by (intro frac_le) simp_all
    then show "bf_val x \<le> E / ?e" using x(4) unfolding E by (simp add: mult.commute)
    have "?e * ((?e * real (be_val wrk)) * (?e * real (unat trg))) / ?d \<le> bf_val (bf_mult ?A ?T) / bf_val ?D"
      using Mlo D(2) Dp e w pp unfolding trunc_def by (intro frac_le) simp_all
    then have "?e * (?e * (?e * ((?e * real (be_val wrk)) * (?e * real (unat trg))) / ?d)) \<le> bf_val x"
      using x(3) e by (meson mult_left_mono order_trans less_imp_le)
    moreover have "?e * (?e * (?e * ((?e * real (be_val wrk)) * (?e * real (unat trg))) / ?d)) = ?e ^ 5 * E"
      unfolding E by (simp add: eval_nat_numeral mult.assoc mult.left_commute)
    ultimately show "?e ^ 5 * E \<le> bf_val x" by simp
  qed
qed

lemma dCalculate_accuracy:
  fixes trg src dh :: u32
  assumes "be_val wrk \<noteq> 0" "unat trg \<noteq> 0" "unat src \<noteq> 0" "unat dh \<noteq> 0"
    and E: "E = real (be_val wrk) * real (unat trg) / (real (unat src) * real (unat dh))"
    and "2 ^ 25 \<le> E" "E \<le> 2 ^ 255"
  shows "\<exists>p. dCalculate wrk dh trg src = Some p \<and> p < s_Inf \<and>
    (1 - 1 / 2 ^ 23) * E \<le> real (be_val (dUnpackRaw p)) \<and>
    real (be_val (dUnpackRaw p)) \<le> (1 + 1 / 2 ^ 30) * E"
proof -
  obtain x where x: "bf_div (bf_mult (bf_assign wrk) (bf_of 4 trg))
        (bf_of 8 ((ucast src :: u64) * ucast dh)) = Some x"
      "bf_norm x" "(1 - eps) ^ 5 * E \<le> bf_val x" "bf_val x \<le> E / (1 - eps)"
    using calculate_quotient [OF assms(1-5)] by blast
  have Ep: "0 < E" using assms(6) by simp
  have c1: "(1 - 1 / 2 ^ 23) \<le> (1 - 1 / 2 ^ 24) * (1 - eps) ^ 5" "1 / (1 - eps) \<le> 1 + 1 / 2 ^ 30"
      "1 / 2 \<le> (1 - eps) ^ 5"
    by (simp_all add: eps_def power_divide)
  have hi: "bf_val x \<le> (1 + 1 / 2 ^ 30) * E"
    using x(4) mult_right_mono [OF c1(2), of E] Ep unfolding times_divide_eq_left mult_1_left by linarith
  have lo: "1 / 2 * E \<le> bf_val x" using x(3) mult_right_mono [OF c1(3), of E] Ep by linarith
  define m where "m = m_Order x + 7"
  define p where "p = dPack (of_int m) (drop_bit 7 (m_Value x))"
  have "2 ^ 24 \<le> bf_val x" "bf_val x < 2 ^ 256" using lo hi assms(6,7) by simp_all
  note pa = packed_accuracy [OF x(2) this m_def p_def]
  have "m_Value x \<noteq> 0" using x(2) by (auto simp: bf_norm_def)
  then have run: "dCalculate wrk dh trg src = Some p"
    using x(1) pa(1) by (simp add: dCalculate_def Let_def s_MantissaBits_def p_def m_def)
  have "(1 - 1 / 2 ^ 23) * E \<le> (1 - 1 / 2 ^ 24) * (1 - eps) ^ 5 * E"
    using c1(1) Ep by (intro mult_right_mono) simp_all
  also have "\<dots> \<le> (1 - 1 / 2 ^ 24) * bf_val x"
    unfolding mult.assoc using x(3) by (intro mult_left_mono) simp_all
  also have "\<dots> \<le> real (be_val (dUnpackRaw p))" by (rule pa(3))
  finally show ?thesis using run pa(2,4) hi by auto
qed

section \<open>Properties\<close>

text \<open>C3: for positive work, time spans and height difference, when the exact quotient
  work * target time / (elapsed time * heights) lies between two to the 25 and two to the 255, \<open>Calculate\<close>
  delivers a finite difficulty whose raw value is within the relative error two to the -23 below and two to
  the -30 above the quotient.\<close>

theorem Calculate_accurate:
  fixes dtTrg_s dtSrc_s dh :: u32
  assumes "be_val wrk \<noteq> 0" "unat dtTrg_s \<noteq> 0" "unat dtSrc_s \<noteq> 0" "unat dh \<noteq> 0"
    and "E = real (be_val wrk) * real (unat dtTrg_s) / (real (unat dtSrc_s) * real (unat dh))"
    and "2 ^ 25 \<le> E" "E \<le> 2 ^ 255"
  shows "\<exists>p. dCalculate wrk dh dtTrg_s dtSrc_s = Some p \<and> p < s_Inf \<and>
    (1 - 1 / 2 ^ 23) * E \<le> real (be_val (dUnpackRaw p)) \<and>
    real (be_val (dUnpackRaw p)) \<le> (1 + 1 / 2 ^ 30) * E"
  by (rule dCalculate_accuracy [OF assms])

theorem Calculate_accurate_witness:
  "\<exists>p. dCalculate [1, 0, 0, 0, 0, 0] 2 60 60 = Some p \<and> p < s_Inf \<and>
    (1 - 1 / 2 ^ 23) * (2 ^ 39 :: real) \<le> real (be_val (dUnpackRaw p)) \<and>
    real (be_val (dUnpackRaw p)) \<le> (1 + 1 / 2 ^ 30) * 2 ^ 39"
  by (rule Calculate_accurate) simp_all

end
