(* ===== verification/Merkle_Tree.thy ===== *)
theory Merkle_Tree
  imports Beam_Prelude
begin

text \<open>
  The abstract Merkle tree that every Mmr of \<open>src/core/merkle.cpp\<close> stands for.  The root of a nonempty list of
  leaves splits the list at the largest power of two below its length and hashes the roots of the two parts; the
  hash of two children (\<open>Interpret\<close> of two hashes, an \<open>ECC::Hash::Processor\<close>) is a parameter \<open>f\<close>.  The lemmas
  here are the ones the implementations are proved against: joining a complete left part with a smaller right
  part, and the blocks of leaves that a position \<open>(H, X)\<close> covers.
\<close>

text \<open>The largest power of two below \<open>n\<close> (for \<open>2 \<le> n\<close>).\<close>

fun split_pow :: "nat \<Rightarrow> nat" where
  "split_pow n = (if n \<le> 2 then 1 else 2 * split_pow ((n + 1) div 2))"

declare split_pow.simps [simp del]

lemma split_pow_eq: "2 ^ k < n \<Longrightarrow> n \<le> 2 ^ Suc k \<Longrightarrow> split_pow n = 2 ^ k"
proof (induction k arbitrary: n)
  case 0
  then show ?case by (simp add: split_pow.simps)
next
  case (Suc k)
  have "2 ^ k < (n + 1) div 2" "(n + 1) div 2 \<le> 2 ^ Suc k" using Suc.prems by auto
  from Suc.IH [OF this] have "split_pow ((n + 1) div 2) = 2 ^ k" .
  moreover have "\<not> n \<le> 2"
    using Suc.prems(1) one_le_power [of "2 :: nat" k] by (simp only: power_Suc) linarith
  ultimately show ?case by (subst split_pow.simps) simp
qed

lemma split_pow_pos: "0 < split_pow n"
  by (induction n rule: split_pow.induct) (subst split_pow.simps, simp)

lemma split_pow_less: "2 \<le> n \<Longrightarrow> split_pow n < n"
proof (induction n rule: split_pow.induct)
  case (1 n)
  show ?case
  proof (cases "n \<le> 2")
    case False
    then have "split_pow ((n + 1) div 2) < (n + 1) div 2" using 1 by simp
    then show ?thesis using False by (subst split_pow.simps) simp
  qed (use 1 in \<open>simp add: split_pow.simps\<close>)
qed

text \<open>The root of a list of leaves; \<open>z\<close> is the hash of the empty tree.\<close>

function mth :: "('h \<Rightarrow> 'h \<Rightarrow> 'h) \<Rightarrow> 'h \<Rightarrow> 'h list \<Rightarrow> 'h" where
  "mth f z [] = z"
| "mth f z [x] = x"
| "mth f z (x # y # xs) =
     (let zs = x # y # xs; k = split_pow (length zs)
      in f (mth f z (take k zs)) (mth f z (drop k zs)))"
  by pat_completeness auto
termination
proof (relation "measure (\<lambda>(f, z, xs). length xs)", goal_cases)
  case (2 f z x y xs zs k)
  have "split_pow (length zs) < length zs" by (rule split_pow_less) (simp add: 2)
  then show ?case using 2 by simp
next
  case (3 f z x y xs zs k)
  then show ?case using split_pow_pos [of "length zs"] by simp
qed simp

declare mth.simps(3) [simp del]

lemma mth_split:
  assumes "2 \<le> length zs"
  shows "mth f z zs = f (mth f z (take (split_pow (length zs)) zs)) (mth f z (drop (split_pow (length zs)) zs))"
proof -
  obtain x y xs where "zs = x # y # xs" using assms by (metis Suc_le_length_iff numeral_2_eq_2)
  then show ?thesis by (simp only: mth.simps(3) Let_def)
qed

text \<open>Joining a complete part and a part that is not larger.\<close>

lemma mth_join:
  assumes "length xs = 2 ^ k" and "ys \<noteq> []" and "length ys \<le> 2 ^ k"
  shows "mth f z (xs @ ys) = f (mth f z xs) (mth f z ys)"
proof -
  have "0 < length ys" using assms(2) by simp
  then have s: "split_pow (length (xs @ ys)) = 2 ^ k" using assms by (intro split_pow_eq) simp_all
  have "2 \<le> length (xs @ ys)" using \<open>0 < length ys\<close> one_le_power [of "2 :: nat" k] assms(1)
    by (simp only: length_append) linarith
  from mth_split [OF this, of f z] show ?thesis unfolding s by (simp add: assms(1) [symmetric])
qed

text \<open>The leaves that the node at height \<open>H\<close> and offset \<open>X\<close> covers, as far as they exist.\<close>

definition block :: "'h list \<Rightarrow> nat \<Rightarrow> nat \<Rightarrow> 'h list" where
  "block xs h i = take (2 ^ h) (drop (i * 2 ^ h) xs)"

lemma length_block: "length (block xs h i) = min (2 ^ h) (length xs - i * 2 ^ h)"
  by (simp add: block_def)

lemma block_full: "(i + 1) * 2 ^ h \<le> length xs \<Longrightarrow> length (block xs h i) = 2 ^ h"
  by (simp add: block_def)

lemma block_0: "i < length xs \<Longrightarrow> block xs 0 i = [xs ! i]"
  by (simp add: block_def take_Suc_conv_app_nth Cons_nth_drop_Suc [symmetric])

lemma block_Suc: "block xs (Suc h) i = block xs h (2 * i) @ block xs h (2 * i + 1)"
proof -
  have "take (2 ^ Suc h) (drop (i * 2 ^ Suc h) xs) =
      take (2 ^ h) (drop (i * 2 ^ Suc h) xs) @ take (2 ^ h) (drop (2 ^ h) (drop (i * 2 ^ Suc h) xs))"
    by (simp add: mult_2 take_add)
  then show ?thesis by (simp add: block_def algebra_simps)
qed

lemma block_all: "length xs \<le> 2 ^ h \<Longrightarrow> block xs h 0 = xs"
  by (simp add: block_def)

lemma block_append: "(i + 1) * 2 ^ h \<le> length xs \<Longrightarrow> block (xs @ ys) h i = block xs h i"
  by (simp add: block_def)

text \<open>The hash of the node \<open>(H, X)\<close>.\<close>

definition node_hash :: "('h \<Rightarrow> 'h \<Rightarrow> 'h) \<Rightarrow> 'h \<Rightarrow> 'h list \<Rightarrow> nat \<Rightarrow> nat \<Rightarrow> 'h" where
  "node_hash f z xs h i = mth f z (block xs h i)"

lemma node_hash_0: "i < length xs \<Longrightarrow> node_hash f z xs 0 i = xs ! i"
  by (simp add: node_hash_def block_0)

lemma node_hash_Suc:
  assumes "(2 * i + 1) * 2 ^ h < length xs"
  shows "node_hash f z xs (Suc h) i = f (node_hash f z xs h (2 * i)) (node_hash f z xs h (2 * i + 1))"
proof -
  have "length (block xs h (2 * i)) = 2 ^ h" using assms by (intro block_full) simp
  moreover have "block xs h (2 * i + 1) \<noteq> []"
    using assms length_block [of xs h "2 * i + 1"] by (auto simp flip: length_greater_0_conv)
  ultimately show ?thesis
    using mth_join [of "block xs h (2 * i)" h "block xs h (2 * i + 1)" f z] length_block [of xs h "2 * i + 1"]
    by (simp add: node_hash_def block_Suc)
qed

lemma node_hash_Suc_only:
  assumes "length xs \<le> (2 * i + 1) * 2 ^ h"
  shows "node_hash f z xs (Suc h) i = node_hash f z xs h (2 * i)"
proof -
  have "block xs h (2 * i + 1) = []" using assms by (simp add: block_def)
  then show ?thesis by (simp add: node_hash_def block_Suc)
qed

lemma node_hash_append:
  "(i + 1) * 2 ^ h \<le> length xs \<Longrightarrow> node_hash f z (xs @ ys) h i = node_hash f z xs h i"
  by (simp add: node_hash_def block_append)

end
