(* ===== verification/Merkle.thy ===== *)
theory Merkle
  imports Merkle_Tree
begin

text \<open>
  The Merkle mountain range \<open>Mmr\<close> of \<open>src/core/merkle.h\<close> and \<open>src/core/merkle.cpp\<close>, its proofs, and the proof
  consumers \<open>PathCaclulator\<close> and \<open>HardVerifier\<close>.  The virtual methods \<open>LoadElement\<close> and \<open>SaveElement\<close> are the
  arguments \<open>load\<close> and \<open>save\<close>, the hash of two children is the argument \<open>f\<close>.  A \<open>uint64_t\<close> is a natural number;
  \<open>wrap64\<close> marks the operations that could leave the 64 bits.  The locale \<open>mmr_reader\<close> states what a derived
  class promises of \<open>LoadElement\<close>: every complete node of the tree over the appended leaves reads as its hash.
\<close>

definition wrap64 :: "nat \<Rightarrow> nat" where
  "wrap64 n = n mod 2 ^ 64"

record Position =
  pos_H :: nat
  pos_X :: nat

abbreviation pos :: "nat \<Rightarrow> nat \<Rightarrow> Position" where
  "pos h i \<equiv> \<lparr>pos_H = h, pos_X = i\<rparr>"

type_synonym 'h Node = "bool \<times> 'h"

section \<open>Operations\<close>

text \<open>The overloads of \<open>Interpret\<close> that fold one sibling, one proof node, and a whole proof into a hash.\<close>

definition interpret_side :: "('h \<Rightarrow> 'h \<Rightarrow> 'h) \<Rightarrow> 'h \<Rightarrow> 'h \<Rightarrow> bool \<Rightarrow> 'h" where
  "interpret_side f hOld hNew bNewOnRight = (if bNewOnRight then f hOld hNew else f hNew hOld)"

definition interpret_node :: "('h \<Rightarrow> 'h \<Rightarrow> 'h) \<Rightarrow> 'h \<Rightarrow> 'h Node \<Rightarrow> 'h" where
  "interpret_node f hash n = interpret_side f hash (snd n) (fst n)"

definition interpret_proof :: "('h \<Rightarrow> 'h \<Rightarrow> 'h) \<Rightarrow> 'h \<Rightarrow> 'h Node list \<Rightarrow> 'h" where
  "interpret_proof f hash p = foldl (interpret_node f) hash p"

text \<open>\<open>Mmr::Replace\<close>: the loop over the heights.\<close>

function mmr_Replace_loop ::
  "('h \<Rightarrow> 'h \<Rightarrow> 'h) \<Rightarrow> ('s \<Rightarrow> Position \<Rightarrow> 'h) \<Rightarrow> ('s \<Rightarrow> 'h \<Rightarrow> Position \<Rightarrow> 's) \<Rightarrow>
   nat \<Rightarrow> nat \<Rightarrow> nat \<Rightarrow> 'h \<Rightarrow> 's \<Rightarrow> 's" where
  "mmr_Replace_loop f load save h i n hv1 s =
     (let s1 = save s hv1 (pos h i); i1 = i XOR 1
      in if n \<le> i1 then s1
         else
           (let hv0 = load s1 (pos h i1)
            in mmr_Replace_loop f load save (h + 1) (i1 div 2) (n div 2)
                 (interpret_side f hv1 hv0 (i1 AND 1 \<noteq> 0)) s1))"
  by pat_completeness auto
termination
  by (relation "measure (\<lambda>(f, load, save, h, i, n, hv1, s). n)") auto

declare mmr_Replace_loop.simps [simp del]

text \<open>The state of an \<open>Mmr\<close> object: the count and what the derived class stores.\<close>

record 's Mmr =
  m_Count :: nat
  m_Store :: 's

definition mmr_Replace ::
  "('h \<Rightarrow> 'h \<Rightarrow> 'h) \<Rightarrow> ('s \<Rightarrow> Position \<Rightarrow> 'h) \<Rightarrow> ('s \<Rightarrow> 'h \<Rightarrow> Position \<Rightarrow> 's) \<Rightarrow>
   's Mmr \<Rightarrow> nat \<Rightarrow> 'h \<Rightarrow> 's Mmr" where
  "mmr_Replace f load save m n hv =
     m\<lparr>m_Store := mmr_Replace_loop f load save 0 n (m_Count m) hv (m_Store m)\<rparr>"

definition mmr_Append ::
  "('h \<Rightarrow> 'h \<Rightarrow> 'h) \<Rightarrow> ('s \<Rightarrow> Position \<Rightarrow> 'h) \<Rightarrow> ('s \<Rightarrow> 'h \<Rightarrow> Position \<Rightarrow> 's) \<Rightarrow>
   's Mmr \<Rightarrow> 'h \<Rightarrow> 's Mmr" where
  "mmr_Append f load save m hv =
     (let n = m_Count m in mmr_Replace f load save (m\<lparr>m_Count := wrap64 (n + 1)\<rparr>) n hv)"

fun mmr_Predicted_loop ::
  "('h \<Rightarrow> 'h \<Rightarrow> 'h) \<Rightarrow> (Position \<Rightarrow> 'h) \<Rightarrow> nat \<Rightarrow> nat \<Rightarrow> 'h \<Rightarrow> 'h" where
  "mmr_Predicted_loop f load h i hv =
     (if i = 0 then hv
      else if odd i then
        (let i1 = i XOR 1
         in mmr_Predicted_loop f load (h + 1) (i div 2) (interpret_side f hv (load (pos h i1)) False))
      else mmr_Predicted_loop f load (h + 1) (i div 2) hv)"

declare mmr_Predicted_loop.simps [simp del]

definition mmr_get_PredictedHash ::
  "('h \<Rightarrow> 'h \<Rightarrow> 'h) \<Rightarrow> (Position \<Rightarrow> 'h) \<Rightarrow> nat \<Rightarrow> 'h \<Rightarrow> 'h" where
  "mmr_get_PredictedHash f load count hvAppend = mmr_Predicted_loop f load 0 count hvAppend"

text \<open>\<open>Mmr::get_HashForRange\<close>; \<open>None\<close> is the result \<open>false\<close> (\<open>bEmpty\<close>), which leaves the output alone.\<close>

fun mmr_HashForRange_loop ::
  "('h \<Rightarrow> 'h \<Rightarrow> 'h) \<Rightarrow> (Position \<Rightarrow> 'h) \<Rightarrow> nat \<Rightarrow> nat \<Rightarrow> nat \<Rightarrow> 'h option \<Rightarrow> 'h option" where
  "mmr_HashForRange_loop f load h n0 n hv =
     (if n = 0 then hv
      else if odd n then
        (let hv0 = load (pos h (wrap64 (n0 + n) XOR 1))
         in mmr_HashForRange_loop f load (h + 1) (n0 div 2) (n div 2)
              (Some (case hv of None \<Rightarrow> hv0 | Some x \<Rightarrow> interpret_side f x hv0 False)))
      else mmr_HashForRange_loop f load (h + 1) (n0 div 2) (n div 2) hv)"

declare mmr_HashForRange_loop.simps [simp del]

definition mmr_get_HashForRange ::
  "('h \<Rightarrow> 'h \<Rightarrow> 'h) \<Rightarrow> (Position \<Rightarrow> 'h) \<Rightarrow> nat \<Rightarrow> nat \<Rightarrow> 'h option" where
  "mmr_get_HashForRange f load n0 n = mmr_HashForRange_loop f load 0 n0 n None"

definition mmr_get_Hash :: "('h \<Rightarrow> 'h \<Rightarrow> 'h) \<Rightarrow> 'h \<Rightarrow> (Position \<Rightarrow> 'h) \<Rightarrow> nat \<Rightarrow> 'h" where
  "mmr_get_Hash f z load count = (case mmr_get_HashForRange f load 0 count of Some hv \<Rightarrow> hv | None \<Rightarrow> z)"

text \<open>\<open>Mmr::get_ProofInternal\<close>.  The builder's \<open>AppendNode\<close> is \<open>app\<close>, on a builder state; \<open>hv\<close> is the
  indeterminate initial value of \<open>node.second\<close>, which stays there when the hashes are ignored.\<close>

fun mmr_Proof_loop ::
  "('h \<Rightarrow> 'h \<Rightarrow> 'h) \<Rightarrow> (Position \<Rightarrow> 'h) \<Rightarrow> nat \<Rightarrow> bool \<Rightarrow> 'h \<Rightarrow>
   ('b \<Rightarrow> 'h Node \<Rightarrow> Position \<Rightarrow> bool \<times> 'b) \<Rightarrow> nat \<Rightarrow> nat \<Rightarrow> nat \<Rightarrow> 'b \<Rightarrow> bool \<times> 'b" where
  "mmr_Proof_loop f load count bIgnoreHashes hv app h n i b =
     (if n = 0 then (True, b)
      else
        (let bRight = even i; x = i XOR 1; n0 = wrap64 (x * 2 ^ h)
         in if bRight \<and> count \<le> n0
            then mmr_Proof_loop f load count bIgnoreHashes hv app (h + 1) (n div 2) (i div 2) b
            else
              (let nRemaining = count - n0;
                   bFullSibling = (\<not> bRight \<or> nRemaining div 2 ^ h \<noteq> 0);
                   second = (if bIgnoreHashes then hv
                             else if bFullSibling then load (pos h x)
                             else case mmr_get_HashForRange f load n0 nRemaining of
                                    Some v \<Rightarrow> v | None \<Rightarrow> hv);
                   (ok, b1) = app b (bRight, second) (pos h x)
               in if \<not> ok then (False, b1)
                  else mmr_Proof_loop f load count bIgnoreHashes hv app (h + 1) (n div 2) (i div 2) b1)))"

declare mmr_Proof_loop.simps [simp del]

definition mmr_get_ProofInternal ::
  "('h \<Rightarrow> 'h \<Rightarrow> 'h) \<Rightarrow> (Position \<Rightarrow> 'h) \<Rightarrow> nat \<Rightarrow> 'h \<Rightarrow>
   ('b \<Rightarrow> 'h Node \<Rightarrow> Position \<Rightarrow> bool \<times> 'b) \<Rightarrow> 'b \<Rightarrow> nat \<Rightarrow> bool \<Rightarrow> bool \<times> 'b" where
  "mmr_get_ProofInternal f load count hv app b i bIgnoreHashes =
     mmr_Proof_loop f load count bIgnoreHashes hv app 0 count i b"

text \<open>\<open>ProofBuilderStd\<close>, \<open>ProofBuilderHard\<close> and \<open>Mmr::get_Proof\<close>.\<close>

definition proofBuilderStd_AppendNode :: "'h Node list \<Rightarrow> 'h Node \<Rightarrow> Position \<Rightarrow> bool \<times> 'h Node list" where
  "proofBuilderStd_AppendNode p n _ = (True, p @ [n])"

definition proofBuilderHard_AppendNode :: "'h list \<Rightarrow> 'h Node \<Rightarrow> Position \<Rightarrow> bool \<times> 'h list" where
  "proofBuilderHard_AppendNode p n _ = (True, p @ [snd n])"

definition mmr_get_Proof_with ::
  "('h \<Rightarrow> 'h \<Rightarrow> 'h) \<Rightarrow> (Position \<Rightarrow> 'h) \<Rightarrow> nat \<Rightarrow> 'h \<Rightarrow>
   ('b \<Rightarrow> 'h Node \<Rightarrow> Position \<Rightarrow> bool \<times> 'b) \<Rightarrow> 'b \<Rightarrow> nat \<Rightarrow> bool \<times> 'b" where
  "mmr_get_Proof_with f load count hv app b i = mmr_get_ProofInternal f load count hv app b i False"

definition mmr_get_Proof ::
  "('h \<Rightarrow> 'h \<Rightarrow> 'h) \<Rightarrow> (Position \<Rightarrow> 'h) \<Rightarrow> nat \<Rightarrow> 'h \<Rightarrow> 'h Node list \<Rightarrow> nat \<Rightarrow> 'h Node list" where
  "mmr_get_Proof f load count hv p i =
     snd (mmr_get_Proof_with f load count hv proofBuilderStd_AppendNode p i)"

text \<open>\<open>PathCaclulator::InterpretPath\<close>: the path without hashes; its \<open>LoadElement\<close> is never called and gives \<open>z\<close>.\<close>

definition path_InterpretPath ::
  "('h \<Rightarrow> 'h \<Rightarrow> 'h) \<Rightarrow> 'h \<Rightarrow> nat \<Rightarrow> 'h \<Rightarrow>
   ('b \<Rightarrow> 'h Node \<Rightarrow> Position \<Rightarrow> bool \<times> 'b) \<Rightarrow> 'b \<Rightarrow> nat \<Rightarrow> bool \<times> 'b" where
  "path_InterpretPath f z count hv app b i = mmr_get_ProofInternal f (\<lambda>_. z) count hv app b i True"

text \<open>\<open>HardVerifier\<close>: the running hash and the part of the proof not consumed yet.\<close>

record 'h HardVerifier =
  m_hv :: 'h
  m_rest :: "'h list"

definition hard_IsEnd :: "'h HardVerifier \<Rightarrow> bool" where
  "hard_IsEnd v \<longleftrightarrow> m_rest v = []"

definition hard_InterpretOnce :: "('h \<Rightarrow> 'h \<Rightarrow> 'h) \<Rightarrow> 'h HardVerifier \<Rightarrow> bool \<Rightarrow> bool \<times> 'h HardVerifier" where
  "hard_InterpretOnce f v bOnRight =
     (case m_rest v of
        [] \<Rightarrow> (False, v)
      | hv # rest \<Rightarrow> (True, v\<lparr>m_hv := interpret_side f (m_hv v) hv bOnRight, m_rest := rest\<rparr>))"

definition hard_InterpretMmr ::
  "('h \<Rightarrow> 'h \<Rightarrow> 'h) \<Rightarrow> 'h \<Rightarrow> 'h \<Rightarrow> 'h HardVerifier \<Rightarrow> nat \<Rightarrow> nat \<Rightarrow> bool \<times> 'h HardVerifier" where
  "hard_InterpretMmr f z hv v iIdx nCount =
     (if nCount \<le> iIdx then (False, v)
      else path_InterpretPath f z nCount hv (\<lambda>b n _. hard_InterpretOnce f b (fst n)) v iIdx)"

section \<open>Arithmetic of positions\<close>

lemma wrap64_id [simp]: "n < 2 ^ 64 \<Longrightarrow> wrap64 n = n"
  by (simp add: wrap64_def)

lemma nat_xor_1: "(n :: nat) XOR 1 = (if even n then n + 1 else n - 1)"
  by (simp add: xor_Suc_0_eq)

lemma nat_xor_Suc_0: "(n :: nat) XOR Suc 0 = (if even n then n + 1 else n - 1)"
  by (simp add: xor_Suc_0_eq)

lemma mod_pow_Suc: "(n :: nat) mod 2 ^ Suc h = 2 ^ h * (n div 2 ^ h mod 2) + n mod 2 ^ h"
  using mod_mult2_eq [of n "2 ^ h" 2] by (simp add: mult.commute)

lemma div_pow_0: "(n :: nat) div 2 ^ h = 0 \<longleftrightarrow> n < 2 ^ h"
  by (simp add: div_eq_0_iff)

lemma div_pow_Suc: "(n :: nat) div 2 ^ h div 2 = n div 2 ^ Suc h"
  by (simp add: div_mult2_eq [symmetric] mult.commute)

section \<open>The path of a proof\<close>

text \<open>The nodes and positions that \<open>get_ProofInternal\<close> offers to a builder that never declines, and feeding
  them to a builder.\<close>

definition mmr_path ::
  "('h \<Rightarrow> 'h \<Rightarrow> 'h) \<Rightarrow> (Position \<Rightarrow> 'h) \<Rightarrow> nat \<Rightarrow> bool \<Rightarrow> 'h \<Rightarrow> nat \<Rightarrow> nat \<Rightarrow> nat \<Rightarrow> ('h Node \<times> Position) list" where
  "mmr_path f load count ign hv h n i =
     snd (mmr_Proof_loop f load count ign hv (\<lambda>b nd p. (True, b @ [(nd, p)])) h n i [])"

fun feed :: "('b \<Rightarrow> 'n \<Rightarrow> 'p \<Rightarrow> bool \<times> 'b) \<Rightarrow> ('n \<times> 'p) list \<Rightarrow> 'b \<Rightarrow> bool \<times> 'b" where
  "feed app [] b = (True, b)"
| "feed app ((nd, p) # ps) b = (let (ok, b1) = app b nd p in if \<not> ok then (False, b1) else feed app ps b1)"

text \<open>The node offered at height \<open>h\<close>.\<close>

definition mmr_sibling ::
  "('h \<Rightarrow> 'h \<Rightarrow> 'h) \<Rightarrow> (Position \<Rightarrow> 'h) \<Rightarrow> nat \<Rightarrow> bool \<Rightarrow> 'h \<Rightarrow> nat \<Rightarrow> nat \<Rightarrow> 'h Node" where
  "mmr_sibling f load count ign hv h i =
     (let x = i XOR 1; n0 = wrap64 (x * 2 ^ h)
      in (even i, if ign then hv
            else if odd i \<or> (count - n0) div 2 ^ h \<noteq> 0 then load (pos h x)
            else case mmr_get_HashForRange f load n0 (count - n0) of Some v \<Rightarrow> v | None \<Rightarrow> hv))"

lemma mmr_Proof_loop_0: "mmr_Proof_loop f load count ign hv app h 0 i b = (True, b)"
  by (subst mmr_Proof_loop.simps) simp

lemma mmr_Proof_loop_step:
  assumes "n \<noteq> 0"
  shows "mmr_Proof_loop f load count ign hv app h n i b =
    (if even i \<and> count \<le> wrap64 ((i XOR 1) * 2 ^ h)
     then mmr_Proof_loop f load count ign hv app (h + 1) (n div 2) (i div 2) b
     else case app b (mmr_sibling f load count ign hv h i) (pos h (i XOR 1)) of
       (ok, b1) \<Rightarrow> if \<not> ok then (False, b1)
         else mmr_Proof_loop f load count ign hv app (h + 1) (n div 2) (i div 2) b1)"
  by (subst mmr_Proof_loop.simps) (simp only: Let_def mmr_sibling_def assms if_False)

lemma mmr_Proof_loop_collect:
  "mmr_Proof_loop f load count ign hv (\<lambda>b nd p. (True, b @ [(nd, p)])) h n i acc =
     (True, acc @ mmr_path f load count ign hv h n i)"
proof (induction n arbitrary: h i acc rule: less_induct)
  case (less n)
  show ?case
  proof (cases "n = 0")
    case True
    then show ?thesis by (simp add: mmr_path_def mmr_Proof_loop_0)
  next
    case False
    then show ?thesis
      using less [of "n div 2"]
      by (simp add: mmr_path_def [of f load count ign hv h n i] mmr_Proof_loop_step [OF False])
  qed
qed

lemma mmr_path_0: "mmr_path f load count ign hv h 0 i = []"
  by (simp add: mmr_path_def mmr_Proof_loop_0)

lemma mmr_path_step:
  assumes "n \<noteq> 0"
  shows "mmr_path f load count ign hv h n i =
    (let rest = mmr_path f load count ign hv (h + 1) (n div 2) (i div 2)
     in if even i \<and> count \<le> wrap64 ((i XOR 1) * 2 ^ h) then rest
        else (mmr_sibling f load count ign hv h i, pos h (i XOR 1)) # rest)"
  using assms mmr_Proof_loop_collect [of f load count ign hv "h + 1" "n div 2" "i div 2"]
  by (subst mmr_path_def, subst mmr_Proof_loop_step) (simp_all add: Let_def)

lemma mmr_Proof_loop_feed:
  "mmr_Proof_loop f load count ign hv app h n i b = feed app (mmr_path f load count ign hv h n i) b"
proof (induction n arbitrary: h i b rule: less_induct)
  case (less n)
  show ?case
  proof (cases "n = 0")
    case True
    then show ?thesis by (subst mmr_Proof_loop.simps) (simp add: mmr_path_0)
  next
    case False
    then show ?thesis
      using less [of "n div 2"]
      by (simp add: mmr_path_step mmr_Proof_loop_step Let_def split: prod.splits)
  qed
qed

lemma mmr_get_ProofInternal_feed:
  "mmr_get_ProofInternal f load count hv app b i ign = feed app (mmr_path f load count ign hv 0 count i) b"
  by (simp add: mmr_get_ProofInternal_def mmr_Proof_loop_feed)

lemma feed_std: "feed proofBuilderStd_AppendNode ps b = (True, b @ map fst ps)"
  by (induction ps arbitrary: b) (auto simp: proofBuilderStd_AppendNode_def)

lemma feed_hard: "feed proofBuilderHard_AppendNode ps b = (True, b @ map (snd \<circ> fst) ps)"
  by (induction ps arbitrary: b) (auto simp: proofBuilderHard_AppendNode_def)

lemma mmr_get_Proof_path: "mmr_get_Proof f load count hv p i = p @ map fst (mmr_path f load count False hv 0 count i)"
  by (simp add: mmr_get_Proof_def mmr_get_Proof_with_def mmr_get_ProofInternal_feed feed_std)

lemma mmr_path_heights: "(nd, p) \<in> set (mmr_path f load count ign hv h n i) \<Longrightarrow> h \<le> pos_H p"
proof (induction n arbitrary: h i rule: less_induct)
  case (less n)
  show ?case
  proof (cases "n = 0")
    case False
    then have "n div 2 < n" by simp
    from less.IH [OF this, of "h + 1" "i div 2"] less.prems False show ?thesis
      by (auto simp: mmr_path_step Let_def split: if_splits)
  qed (use less.prems in \<open>simp add: mmr_path_0\<close>)
qed

text \<open>The sides and positions of the path depend only on the count and the index.\<close>

definition node_shape :: "'h Node \<times> Position \<Rightarrow> bool \<times> Position" where
  "node_shape np = (fst (fst np), snd np)"

lemma mmr_path_shape:
  "map node_shape (mmr_path f load count ign hv h n i) = map node_shape (mmr_path f' load' count ign' hv' h n i)"
proof (induction n arbitrary: h i rule: less_induct)
  case (less n)
  show ?case
    using less [of "n div 2"]
    by (cases "n = 0") (auto simp: mmr_path_0 mmr_path_step Let_def node_shape_def mmr_sibling_def)
qed

section \<open>Hard proofs\<close>

lemma feed_InterpretOnce:
  "length ps \<le> length r \<Longrightarrow>
    feed (\<lambda>b n _. hard_InterpretOnce f b (fst n)) ps \<lparr>m_hv = a, m_rest = r\<rparr> =
    (True, \<lparr>m_hv = interpret_proof f a (zip (map (fst \<circ> fst) ps) r), m_rest = drop (length ps) r\<rparr>)"
proof (induction ps arbitrary: a r)
  case (Cons np ps)
  then show ?case
    by (cases r; cases np) (simp_all add: hard_InterpretOnce_def interpret_proof_def interpret_node_def comp_def)
qed (simp add: interpret_proof_def)

lemma feed_InterpretOnce_short:
  "length r < length ps \<Longrightarrow>
    \<not> fst (feed (\<lambda>b n _. hard_InterpretOnce f b (fst n)) ps \<lparr>m_hv = a, m_rest = r\<rparr>)"
proof (induction ps arbitrary: a r)
  case (Cons np ps)
  then show ?case by (cases r; cases np) (simp_all add: hard_InterpretOnce_def)
qed simp

lemma hard_InterpretMmr_eq:
  "hard_InterpretMmr f z hv v i n =
    (if n \<le> i then (False, v)
     else feed (\<lambda>b n _. hard_InterpretOnce f b (fst n)) (mmr_path f (\<lambda>_. z) n True hv 0 n i) v)"
  by (simp add: hard_InterpretMmr_def path_InterpretPath_def mmr_get_ProofInternal_feed)

lemma map_shape_sides: "map node_shape ps = map node_shape qs \<Longrightarrow> map (fst \<circ> fst) ps = map (fst \<circ> fst) qs"
proof -
  assume "map node_shape ps = map node_shape qs"
  then have "map fst (map node_shape ps) = map fst (map node_shape qs)" by (rule arg_cong)
  then show ?thesis by (simp add: node_shape_def comp_def)
qed

text \<open>Two folds over the same sides that meet in one hash started from the same hash, or show a collision.\<close>

lemma interpret_proof_binding:
  assumes "length hs = length ds" and "length ks = length ds"
    and "interpret_proof f a (zip ds hs) = interpret_proof f b (zip ds ks)"
  shows "a = b \<or> (\<exists>l r l' r'. (l, r) \<noteq> (l', r') \<and> f l r = f l' r')"
  using assms
proof (induction ds arbitrary: a b hs ks)
  case Nil
  then show ?case by (simp add: interpret_proof_def)
next
  case (Cons d ds)
  obtain x hs' y ks' where e: "hs = x # hs'" "ks = y # ks'"
    using Cons.prems(1,2) by (metis length_Suc_conv)
  have "interpret_side f a x d = interpret_side f b y d \<or> (\<exists>l r l' r'. (l, r) \<noteq> (l', r') \<and> f l r = f l' r')"
    using Cons.prems by (intro Cons.IH [of hs' ks']) (simp_all add: e interpret_proof_def interpret_node_def)
  then show ?case
  proof
    assume "interpret_side f a x d = interpret_side f b y d"
    then show ?thesis by (cases d) (auto simp: interpret_side_def)
  qed blast
qed

lemma hard_binding:
  assumes "hard_InterpretMmr f z hv v i n = (True, v')" and "hard_InterpretMmr f z hv w i n = (True, w')"
    and "m_hv v' = m_hv w'"
  shows "m_hv v = m_hv w \<or> (\<exists>l r l' r'. (l, r) \<noteq> (l', r') \<and> f l r = f l' r')"
proof -
  let ?ps = "mmr_path f (\<lambda>_. z) n True hv 0 n i" and ?ds = "map (fst \<circ> fst) (mmr_path f (\<lambda>_. z) n True hv 0 n i)"
  have r: "length ?ps \<le> length (m_rest u) \<and> m_hv u' = interpret_proof f (m_hv u) (zip ?ds (take (length ?ps) (m_rest u)))"
    if "hard_InterpretMmr f z hv u i n = (True, u')" for u u'
  proof -
    obtain a q where u: "u = \<lparr>m_hv = a, m_rest = q\<rparr>" by (cases u) simp
    from that have fd: "feed (\<lambda>b n _. hard_InterpretOnce f b (fst n)) ?ps u = (True, u')"
      by (simp add: hard_InterpretMmr_eq split: if_splits)
    then have le: "length ?ps \<le> length q"
      using feed_InterpretOnce_short [of q ?ps f a] u by (metis fst_conv not_le)
    have "zip ?ds (take (length ?ps) q) = zip ?ds q"
      using zip_append2 [of ?ds "take (length ?ps) q" "drop (length ?ps) q"] le by simp
    then show ?thesis using fd feed_InterpretOnce [OF le, of f a] u le by auto
  qed
  show ?thesis
    using r [OF assms(1)] r [OF assms(2)] assms(3)
    by (intro interpret_proof_binding [of "take (length ?ps) (m_rest v)" ?ds "take (length ?ps) (m_rest w)"]) auto
qed

section \<open>The contract of \<open>LoadElement\<close> and what the readers compute\<close>

text \<open>The path \<open>ps\<close> belongs to the tree over \<open>xs\<close>, from a node with the hash \<open>cur\<close>, and ends in the root.\<close>

fun true_path :: "('h \<Rightarrow> 'h \<Rightarrow> 'h) \<Rightarrow> 'h \<Rightarrow> 'h list \<Rightarrow> 'h \<Rightarrow> ('h Node \<times> Position) list \<Rightarrow> bool" where
  "true_path f z xs cur [] \<longleftrightarrow> cur = mth f z xs"
| "true_path f z xs cur ((n, p) # ps) \<longleftrightarrow>
     cur = node_hash f z xs (pos_H p) (pos_X p XOR 1) \<and> true_path f z xs (interpret_node f cur n) ps"

lemma true_path_root: "true_path f z xs cur ps \<Longrightarrow> interpret_proof f cur (map fst ps) = mth f z xs"
  by (induction ps arbitrary: cur) (auto simp: interpret_proof_def)

text \<open>The hash of the last \<open>n mod 2 ^ h\<close> leaves of the range from \<open>n0\<close> of length \<open>n\<close>, with \<open>ys\<close> after them.\<close>

definition tail_hash ::
  "('h \<Rightarrow> 'h \<Rightarrow> 'h) \<Rightarrow> 'h \<Rightarrow> 'h list \<Rightarrow> nat \<Rightarrow> nat \<Rightarrow> 'h list \<Rightarrow> nat \<Rightarrow> 'h" where
  "tail_hash f z xs n0 n ys h = mth f z (take (n mod 2 ^ h) (drop (n0 + n - n mod 2 ^ h) xs) @ ys)"

locale mmr_reader =
  fixes f :: "'h \<Rightarrow> 'h \<Rightarrow> 'h" and z :: 'h and load :: "'s \<Rightarrow> Position \<Rightarrow> 'h"
    and represents :: "'s \<Rightarrow> 'h list \<Rightarrow> bool"
  assumes load_node: "represents s xs \<Longrightarrow> (i + 1) * 2 ^ h \<le> length xs \<Longrightarrow> load s (pos h i) = node_hash f z xs h i"
    and count_bound: "represents s xs \<Longrightarrow> length xs < 2 ^ 63"
begin

lemma wrap_small: "represents s xs \<Longrightarrow> n \<le> 2 * length xs \<Longrightarrow> wrap64 n = n"
  using count_bound [of s xs] by (intro wrap64_id) simp

lemma tail_hash_step:
  assumes rep: "represents s xs" and "odd (n div 2 ^ h)" and "2 ^ Suc h dvd n0" and "n0 + n \<le> length xs"
    and "length ys \<le> 1" and "i = n0 div 2 ^ h + n div 2 ^ h - 1"
  shows "load s (pos h i) = mth f z (block xs h i)"
    "tail_hash f z xs n0 n ys (Suc h) =
      (if n mod 2 ^ h = 0 \<and> ys = [] then load s (pos h i) else f (load s (pos h i)) (tail_hash f z xs n0 n ys h))"
proof -
  let ?r = "n mod 2 ^ h"
  have h: "2 ^ h dvd n0" using assms(3) by (meson dvd_trans le_imp_power_dvd lessI less_imp_le)
  then have n0: "n0 = n0 div 2 ^ h * 2 ^ h" by simp
  have n: "n = n div 2 ^ h * 2 ^ h + ?r" by (simp only: div_mult_mod_eq)
  have q: "1 \<le> n div 2 ^ h" using assms(2) by (cases "n div 2 ^ h") simp_all
  have "i + 1 = n0 div 2 ^ h + n div 2 ^ h" using q by (simp add: assms(6))
  then have "(i + 1) * 2 ^ h = n0 div 2 ^ h * 2 ^ h + n div 2 ^ h * 2 ^ h" by (simp only: distrib_right)
  also have "\<dots> = n0 + (n - ?r)" by (simp only: n0 [symmetric] minus_mod_eq_div_mult)
  finally have e: "(i + 1) * 2 ^ h = n0 + n - ?r" by simp
  have e': "i * 2 ^ h + 2 ^ h = n0 + n - ?r" using e by simp
  have r: "n mod 2 ^ Suc h = 2 ^ h + ?r" using mod_pow_Suc [of n h] assms(2) by (simp add: odd_iff_mod_2_eq_one)
  have st: "n0 + n - n mod 2 ^ Suc h = i * 2 ^ h" using e r n by simp
  show l: "load s (pos h i) = mth f z (block xs h i)"
    using load_node [OF rep, of i h] e assms(4) by (simp add: node_hash_def)
  have b: "length (block xs h i) = 2 ^ h" using e assms(4) by (intro block_full) simp
  have "take (n mod 2 ^ Suc h) (drop (n0 + n - n mod 2 ^ Suc h) xs) =
      block xs h i @ take ?r (drop (n0 + n - ?r) xs)"
    unfolding st unfolding r e' [symmetric] by (simp add: take_add block_def add.commute)
  then have t: "tail_hash f z xs n0 n ys (Suc h) = mth f z (block xs h i @ (take ?r (drop (n0 + n - ?r) xs) @ ys))"
    by (simp add: tail_hash_def)
  have lt: "length (take ?r (drop (n0 + n - ?r) xs) @ ys) = ?r + length ys"
  proof -
    have "?r \<le> length xs - (n0 + n - ?r)"
      using assms(4) mod_less_eq_dividend [of n "2 ^ h"] by linarith
    then show ?thesis by simp
  qed
  have rl: "?r < 2 ^ h" by simp
  show "tail_hash f z xs n0 n ys (Suc h) =
      (if ?r = 0 \<and> ys = [] then load s (pos h i) else f (load s (pos h i)) (tail_hash f z xs n0 n ys h))"
  proof (cases "?r = 0 \<and> ys = []")
    case True
    then show ?thesis using t l by simp
  next
    case False
    then have "take ?r (drop (n0 + n - ?r) xs) @ ys \<noteq> []" using lt by (metis add_is_0 length_0_conv)
    then have "tail_hash f z xs n0 n ys (Suc h) = f (load s (pos h i)) (tail_hash f z xs n0 n ys h)"
      unfolding t using mth_join [OF b, of "take ?r (drop (n0 + n - ?r) xs) @ ys" f z] rl assms(5) l
      unfolding lt by (simp add: tail_hash_def)
    then show ?thesis using False by auto
  qed
qed

lemma HashForRange_loop_correct:
  assumes rep: "represents s xs" and "n < 2 ^ K" and "2 ^ K dvd n0" and "n0 + n \<le> length xs"
    and "a = n0 div 2 ^ h" and "m = n div 2 ^ h"
    and "hv = (if n mod 2 ^ h = 0 then None else Some (tail_hash f z xs n0 n [] h))"
  shows "mmr_HashForRange_loop f (load s) h a m hv = (if n = 0 then None else Some (mth f z (take n (drop n0 xs))))"
  using assms(2-)
proof (induction m arbitrary: h a hv rule: less_induct)
  case (less m)
  show ?case
  proof (cases "m = 0")
    case True
    then have "n < 2 ^ h" using less.prems(5) by (simp add: div_pow_0)
    then show ?thesis
      using True less.prems(6) by (subst mmr_HashForRange_loop.simps) (simp add: tail_hash_def)
  next
    case False
    then have "h < K" using less.prems(1,5)
      by (metis div_less linorder_le_less_linear order_less_le_trans power_increasing one_le_numeral)
    then have d: "2 ^ Suc h dvd n0" using less.prems(2) by (meson Suc_leI dvd_trans le_imp_power_dvd)
    then have ev: "even a" using less.prems(4)
      by (metis dvd_div_iff_mult dvd_trans le_imp_power_dvd lessI less_imp_le power_Suc power_not_zero zero_neq_numeral)
    have sh: "a div 2 = n0 div 2 ^ Suc h" "m div 2 = n div 2 ^ Suc h"
      using less.prems(4,5) by (simp_all add: div_pow_Suc)
    show ?thesis
    proof (cases "odd m")
      case True
      let ?i = "a + m - Suc 0"
      have "a \<le> n0" "m \<le> n" using less.prems(4,5) by (simp_all add: div_le_dividend)
      then have w: "wrap64 (a + m) XOR 1 = ?i"
        using True ev less.prems(3) wrap_small [OF rep, of "a + m"] by (simp add: nat_xor_Suc_0)
      note t = tail_hash_step [OF rep, of n h n0 "[]" ?i]
      have "Some (case hv of None \<Rightarrow> load s (pos h ?i) | Some x \<Rightarrow> interpret_side f x (load s (pos h ?i)) False) =
          Some (tail_hash f z xs n0 n [] (Suc h))"
        using t(2) True d less.prems(3-6) by (auto simp: interpret_side_def)
      moreover have "n mod 2 ^ Suc h \<noteq> 0"
        using True less.prems(5) mod_pow_Suc [of n h] by (auto simp: odd_iff_mod_2_eq_one)
      ultimately have "mmr_HashForRange_loop f (load s) (h + 1) (a div 2) (m div 2)
          (Some (case hv of None \<Rightarrow> load s (pos h ?i) | Some x \<Rightarrow> interpret_side f x (load s (pos h ?i)) False)) =
          (if n = 0 then None else Some (mth f z (take n (drop n0 xs))))"
        using False sh less.prems(1-3) by (intro less.IH) simp_all
      then show ?thesis using False True w by (subst mmr_HashForRange_loop.simps) (simp add: Let_def)
    next
      case ev_m: False
      then have "n mod 2 ^ Suc h = n mod 2 ^ h" using less.prems(5) mod_pow_Suc [of n h] by simp
      then have "mmr_HashForRange_loop f (load s) (h + 1) (a div 2) (m div 2) hv =
          (if n = 0 then None else Some (mth f z (take n (drop n0 xs))))"
        using False sh less.prems by (intro less.IH) (simp_all add: tail_hash_def)
      then show ?thesis using False ev_m by (subst mmr_HashForRange_loop.simps) simp
    qed
  qed
qed

lemma get_HashForRange_correct:
  assumes "represents s xs" and "n < 2 ^ K" and "2 ^ K dvd n0" and "n0 + n \<le> length xs"
  shows "mmr_get_HashForRange f (load s) n0 n = (if n = 0 then None else Some (mth f z (take n (drop n0 xs))))"
  unfolding mmr_get_HashForRange_def by (rule HashForRange_loop_correct [OF assms]) simp_all

lemma get_Hash_correct: "represents s xs \<Longrightarrow> mmr_get_Hash f z (load s) (length xs) = mth f z xs"
  using get_HashForRange_correct [of s xs "length xs" 63 0] count_bound [of s xs] by (simp add: mmr_get_Hash_def)

lemma Predicted_loop_correct:
  assumes rep: "represents s xs" and "m = length xs div 2 ^ h"
  shows "mmr_Predicted_loop f (load s) h m (tail_hash f z xs 0 (length xs) [hv] h) = mth f z (xs @ [hv])"
  using assms(2)
proof (induction m arbitrary: h rule: less_induct)
  case (less m)
  show ?case
  proof (cases "m = 0")
    case True
    then have "length xs < 2 ^ h" using less.prems by (simp add: div_pow_0)
    then show ?thesis using True by (subst mmr_Predicted_loop.simps) (simp add: tail_hash_def)
  next
    case False
    have sh: "m div 2 = length xs div 2 ^ Suc h" using less.prems by (simp add: div_pow_Suc)
    have IH: "mmr_Predicted_loop f (load s) (h + 1) (m div 2) (tail_hash f z xs 0 (length xs) [hv] (Suc h)) = mth f z (xs @ [hv])"
      using False sh less.IH [of "m div 2" "h + 1"] by simp
    show ?thesis
    proof (cases "odd m")
      case True
      have "interpret_side f (tail_hash f z xs 0 (length xs) [hv] h) (load s (pos h (m - 1))) False =
          tail_hash f z xs 0 (length xs) [hv] (Suc h)"
        using tail_hash_step(2) [OF rep, of "length xs" h 0 "[hv]" "m - 1"] True less.prems
        by (simp add: interpret_side_def)
      then show ?thesis
        using IH False True by (subst mmr_Predicted_loop.simps) (simp add: Let_def nat_xor_Suc_0)
    next
      case ev_m: False
      then have "length xs mod 2 ^ Suc h = length xs mod 2 ^ h"
        using less.prems mod_pow_Suc [of "length xs" h] by simp
      then show ?thesis using IH False ev_m by (subst mmr_Predicted_loop.simps) (simp add: tail_hash_def)
    qed
  qed
qed

lemma get_PredictedHash_correct: "represents s xs \<Longrightarrow> mmr_get_PredictedHash f (load s) (length xs) hv = mth f z (xs @ [hv])"
  using Predicted_loop_correct [of s xs "length xs" 0 hv] by (simp add: mmr_get_PredictedHash_def tail_hash_def)

text \<open>One step up the path from a leaf: the running hash becomes the hash of the parent node.\<close>

lemma sibling_step:
  assumes rep: "represents s xs" and il: "i < length xs" and k: "k = i div 2 ^ h" and m: "length xs div 2 ^ h \<noteq> 0"
  shows "node_hash f z xs (Suc h) (k div 2) =
    (if even k \<and> length xs \<le> wrap64 ((k XOR 1) * 2 ^ h) then node_hash f z xs h k
     else interpret_node f (node_hash f z xs h k) (mmr_sibling f (load s) (length xs) False hv h k))"
proof -
  define j where "j = k div 2"
  have ki: "k * 2 ^ h \<le> i" using k by (simp add: div_times_less_eq_dividend)
  have hl: "2 ^ h \<le> length xs" using m by (metis div_less not_le)
  show ?thesis
  proof (cases "odd k")
    case True
    then have kj: "k = 2 * j + 1" "k XOR 1 = 2 * j" by (simp_all add: nat_xor_Suc_0 j_def)
    have "(2 * j + 1) * 2 ^ h < length xs" using ki kj(1) il by simp
    then have "node_hash f z xs (Suc h) j = f (load s (pos h (2 * j))) (node_hash f z xs h k)"
      using node_hash_Suc [of j h xs f z] load_node [OF rep, of "2 * j" h] kj(1) by simp
    then show ?thesis
      using True kj(2) by (simp add: mmr_sibling_def j_def [symmetric] Let_def interpret_node_def interpret_side_def)
  next
    case ev: False
    then have kj: "k = 2 * j" "k XOR 1 = 2 * j + 1" by (simp_all add: nat_xor_Suc_0 j_def)
    define n0 where "n0 = (2 * j + 1) * 2 ^ h"
    have "n0 = k * 2 ^ h + 2 ^ h" using kj(1) by (simp add: n0_def)
    then have w: "wrap64 ((2 * j + 1) * 2 ^ h) = n0"
      using ki hl il unfolding n0_def by (intro wrap_small [OF rep]) linarith
    show ?thesis
    proof (cases "length xs \<le> n0")
      case True
      then show ?thesis
        using ev w kj node_hash_Suc_only [of xs j h f z] by (simp add: j_def [symmetric] n0_def)
    next
      case lt: False
      have "snd (mmr_sibling f (load s) (length xs) False hv h k) = node_hash f z xs h (2 * j + 1)"
      proof (cases "(length xs - n0) div 2 ^ h = 0")
        case True
        then have "length xs - n0 < 2 ^ h" by (simp add: div_pow_0)
        moreover have "mmr_get_HashForRange f (load s) n0 (length xs - n0) = Some (mth f z (drop n0 xs))"
          using calculation lt get_HashForRange_correct [OF rep, of "length xs - n0" h n0] by (simp add: n0_def)
        ultimately show ?thesis
          using True ev w kj(2) by (simp add: mmr_sibling_def Let_def node_hash_def block_def n0_def)
      next
        case full: False
        then have "2 ^ h \<le> length xs - n0" by (metis div_less not_le)
        then have "(2 * j + 1 + 1) * 2 ^ h \<le> length xs" using lt by (simp add: n0_def)
        from load_node [OF rep this] show ?thesis
          using full ev w kj(2) by (simp add: mmr_sibling_def Let_def)
      qed
      then have "node_hash f z xs (Suc h) j =
          interpret_node f (node_hash f z xs h k) (mmr_sibling f (load s) (length xs) False hv h k)"
        using lt kj(1) ev node_hash_Suc [of j h xs f z]
        by (simp add: n0_def interpret_node_def interpret_side_def) (simp add: mmr_sibling_def Let_def)
      moreover have "\<not> length xs \<le> wrap64 ((k XOR 1) * 2 ^ h)" using lt w kj(2) by simp
      ultimately show ?thesis by (simp add: j_def)
    qed
  qed
qed

text \<open>At each step the running hash is that of the sibling of the offered position.\<close>

lemma true_path_mmr_path:
  assumes rep: "represents s xs" and il: "i < length xs" and "m = length xs div 2 ^ h" and "k = i div 2 ^ h"
  shows "true_path f z xs (node_hash f z xs h k) (mmr_path f (load s) (length xs) False hv h m k)"
  using assms(3,4)
proof (induction m arbitrary: h k rule: less_induct)
  case (less m)
  show ?case
  proof (cases "m = 0")
    case True
    then have "length xs < 2 ^ h" using less.prems by (simp add: div_pow_0)
    moreover have "k = 0" using less.prems(2) calculation il by simp
    ultimately show ?thesis using True by (simp add: mmr_path_0 node_hash_def block_all)
  next
    case False
    have sh: "m div 2 = length xs div 2 ^ Suc h" "k div 2 = i div 2 ^ Suc h"
      using less.prems by (simp_all add: div_pow_Suc)
    have IH: "true_path f z xs (node_hash f z xs (Suc h) (k div 2))
        (mmr_path f (load s) (length xs) False hv (h + 1) (m div 2) (k div 2))"
      using False sh less.IH [of "m div 2" "h + 1" "k div 2"] by simp
    have st: "node_hash f z xs (Suc h) (k div 2) =
      (if even k \<and> length xs \<le> wrap64 ((k XOR 1) * 2 ^ h) then node_hash f z xs h k
       else interpret_node f (node_hash f z xs h k) (mmr_sibling f (load s) (length xs) False hv h k))"
      using False less.prems by (intro sibling_step [OF rep il]) simp_all
    show ?thesis
    proof (cases "even k \<and> length xs \<le> wrap64 ((k XOR 1) * 2 ^ h)")
      case True
      then show ?thesis using IH st False by (simp add: mmr_path_step Let_def)
    next
      case sib: False
      have x: "(k XOR 1) XOR 1 = k" by (simp add: xor.assoc)
      have "mmr_path f (load s) (length xs) False hv h m k =
          (mmr_sibling f (load s) (length xs) False hv h k, pos h (k XOR 1)) #
          mmr_path f (load s) (length xs) False hv (h + 1) (m div 2) (k div 2)"
        using False sib by (simp add: mmr_path_step Let_def)
      then show ?thesis using IH x unfolding st if_not_P [OF sib] by simp
    qed
  qed
qed

lemma get_Proof_correct:
  assumes "represents s xs" and "i < length xs"
  shows "interpret_proof f (xs ! i) (mmr_get_Proof f (load s) (length xs) hv [] i) = mth f z xs"
  using true_path_root [OF true_path_mmr_path [OF assms, of "length xs" 0 i hv]] assms
  by (simp add: mmr_get_Proof_path node_hash_0)

lemma hard_complete:
  assumes "represents s xs" and "i < length xs"
  shows "hard_InterpretMmr f z hv
      \<lparr>m_hv = xs ! i, m_rest = snd (mmr_get_Proof_with f (load s) (length xs) hv' proofBuilderHard_AppendNode [] i) @ rest\<rparr>
      i (length xs) = (True, \<lparr>m_hv = mth f z xs, m_rest = rest\<rparr>)"
proof -
  let ?ps = "mmr_path f (load s) (length xs) False hv' 0 (length xs) i"
  let ?qs = "mmr_path f (\<lambda>_. z) (length xs) True hv 0 (length xs) i"
  have sh: "map node_shape ?qs = map node_shape ?ps" by (rule mmr_path_shape)
  then have sd: "map (fst \<circ> fst) ?qs = map (fst \<circ> fst) ?ps" by (rule map_shape_sides)
  have len: "length ?qs = length ?ps" using sh by (rule map_eq_imp_length_eq)
  have hp: "snd (mmr_get_Proof_with f (load s) (length xs) hv' proofBuilderHard_AppendNode [] i) = map (snd \<circ> fst) ?ps"
    by (simp add: mmr_get_Proof_with_def mmr_get_ProofInternal_feed feed_hard)
  have z: "zip (map (fst \<circ> fst) ?ps) (map (snd \<circ> fst) ?ps @ rest) = map fst ?ps"
    using zip_append2 [of "map (fst \<circ> fst) ?ps" "map (snd \<circ> fst) ?ps" rest]
    by (simp add: zip_map_map zip_same_conv_map comp_def)
  have r: "interpret_proof f (xs ! i) (map fst ?ps) = mth f z xs"
    using get_Proof_correct [OF assms, of hv'] by (simp add: mmr_get_Proof_path)
  show ?thesis
    unfolding hard_InterpretMmr_eq hp using assms
    by (subst feed_InterpretOnce) (simp_all add: sd len z r)
qed

end

end
