(* ===== verification/Merkle_Store.thy ===== *)
theory Merkle_Store
  imports Merkle
begin

text \<open>
  The writers of \<open>Mmr\<close> (\<open>Replace\<close> and \<open>Append\<close>, \<open>src/core/merkle.cpp\<close>) against the contract of a store, and the
  stores of the library: \<open>FixedMmr\<close>, which keeps every hash in one flat array at \<open>FlatMmr::Pos2Idx\<close>, and
  \<open>FlyMmr\<close>, which recomputes the hashes from the leaves.  The locale \<open>mmr_store\<close> states what \<open>LoadElement\<close> and
  \<open>SaveElement\<close> promise each other while the leaves fit; \<open>merkle_accumulator\<close> states what a client of any
  append-only Mmr relies on.
\<close>

section \<open>The contract of a store\<close>

text \<open>A position is complete among \<open>n\<close> leaves.\<close>

definition complete_pos :: "nat \<Rightarrow> Position \<Rightarrow> bool" where
  "complete_pos n p \<longleftrightarrow> (pos_X p + 1) * 2 ^ pos_H p \<le> n"

locale mmr_store =
  fixes load :: "'s \<Rightarrow> Position \<Rightarrow> 'h" and save :: "'s \<Rightarrow> 'h \<Rightarrow> Position \<Rightarrow> 's" and fits :: "'s \<Rightarrow> nat \<Rightarrow> bool"
  assumes load_save: "fits s n \<Longrightarrow> complete_pos n p \<Longrightarrow> complete_pos n q \<Longrightarrow>
      load (save s hv p) q = (if p = q then hv else load s q)"
    and fits_save: "fits s n \<Longrightarrow> complete_pos n p \<Longrightarrow> fits (save s hv p) n"

text \<open>The store holds the tree over \<open>xs\<close>: every complete node reads as its hash.\<close>

definition holds_tree ::
  "('h \<Rightarrow> 'h \<Rightarrow> 'h) \<Rightarrow> 'h \<Rightarrow> ('s \<Rightarrow> Position \<Rightarrow> 'h) \<Rightarrow> 's \<Rightarrow> 'h list \<Rightarrow> bool" where
  "holds_tree f z load s xs \<longleftrightarrow>
     (\<forall>h i. (i + 1) * 2 ^ h \<le> length xs \<longrightarrow> load s (pos h i) = node_hash f z xs h i)"

lemma ancestor_end:
  assumes "h \<le> h'"
  shows "(i div 2 ^ h + 1) * 2 ^ h \<le> ((i :: nat) div 2 ^ h' + 1) * 2 ^ h'"
proof -
  obtain d where d: "h' = h + d" using assms le_Suc_ex by blast
  have "i div 2 ^ h div 2 ^ d = i div 2 ^ h'" by (simp add: d power_add div_mult2_eq)
  then have "i div 2 ^ h < (i div 2 ^ h' + 1) * 2 ^ d"
    by (metis Suc_eq_plus1 div_less_iff_less_mult lessI zero_less_numeral zero_less_power)
  then have "(i div 2 ^ h + 1) * 2 ^ h \<le> ((i div 2 ^ h' + 1) * 2 ^ d) * 2 ^ h"
    by (intro mult_le_mono1) simp
  also have "\<dots> = (i div 2 ^ h' + 1) * 2 ^ h'" by (simp only: d power_add ac_simps)
  finally show ?thesis .
qed

lemma less_div_pow_iff: "(i :: nat) < n div 2 ^ h \<longleftrightarrow> (i + 1) * 2 ^ h \<le> n"
  by (metis Suc_eq_plus1 Suc_le_eq less_eq_div_iff_mult_less_eq zero_less_numeral zero_less_power)

text \<open>Off the path from leaf \<open>i\<close>, and below height \<open>h\<close> on it, the store is right.\<close>

definition path_ready ::
  "('h \<Rightarrow> 'h \<Rightarrow> 'h) \<Rightarrow> 'h \<Rightarrow> ('s \<Rightarrow> Position \<Rightarrow> 'h) \<Rightarrow> 's \<Rightarrow> 'h list \<Rightarrow> nat \<Rightarrow> nat \<Rightarrow> bool" where
  "path_ready f z load s ys i h \<longleftrightarrow>
     (\<forall>h' k. (k + 1) * 2 ^ h' \<le> length ys \<longrightarrow> k \<noteq> i div 2 ^ h' \<or> h' < h \<longrightarrow>
        load s (pos h' k) = node_hash f z ys h' k)"

lemma path_readyD:
  "path_ready f z load s ys i h \<Longrightarrow> (k + 1) * 2 ^ h' \<le> length ys \<Longrightarrow> k \<noteq> i div 2 ^ h' \<or> h' < h \<Longrightarrow>
    load s (pos h' k) = node_hash f z ys h' k"
  by (simp add: path_ready_def)

context mmr_store
begin

lemma path_ready_save:
  assumes "path_ready f z load s ys i h" and "fits s (length ys)" and "k = i div 2 ^ h"
    and "(k + 1) * 2 ^ h \<le> length ys"
  shows "path_ready f z load (save s (node_hash f z ys h k) (pos h k)) ys i (Suc h)"
  unfolding path_ready_def
proof (intro allI impI)
  fix h' k'
  assume a: "(k' + 1) * 2 ^ h' \<le> length ys" and b: "k' \<noteq> i div 2 ^ h' \<or> h' < Suc h"
  have "load (save s (node_hash f z ys h k) (pos h k)) (pos h' k') =
      (if pos h k = pos h' k' then node_hash f z ys h k else load s (pos h' k'))"
    using assms(2,4) a by (intro load_save) (simp_all add: complete_pos_def)
  moreover have "load s (pos h' k') = node_hash f z ys h' k'" if "pos h k \<noteq> pos h' k'"
    using that b assms(3) by (intro path_readyD [OF assms(1) a]) (auto simp: less_Suc_eq)
  ultimately show "load (save s (node_hash f z ys h k) (pos h k)) (pos h' k') = node_hash f z ys h' k'"
    by auto
qed

lemma Replace_loop_correct:
  assumes "path_ready f z load s ys i h" and "fits s (length ys)" and "k = i div 2 ^ h"
    and "n = length ys div 2 ^ h" and "k < n" and "hv = node_hash f z ys h k"
  shows "holds_tree f z load (mmr_Replace_loop f load save h k n hv s) ys \<and>
    fits (mmr_Replace_loop f load save h k n hv s) (length ys)"
  using assms
proof (induction n arbitrary: s h k hv rule: less_induct)
  case (less n)
  have kn: "(k + 1) * 2 ^ h \<le> length ys" using less.prems(4,5) by (simp only: less_div_pow_iff)
  define s1 where "s1 = save s hv (pos h k)"
  have r1: "path_ready f z load s1 ys i (Suc h)"
    unfolding s1_def less.prems(6) by (rule path_ready_save [OF less.prems(1-3) kn])
  have f1: "fits s1 (length ys)"
    unfolding s1_def using less.prems(2) kn by (intro fits_save) (simp_all add: complete_pos_def)
  show ?case
  proof (cases "n \<le> k XOR 1")
    case True
    then have ev: "even k" "n \<le> k + 1" using less.prems(5) by (auto simp: nat_xor_Suc_0 split: if_splits)
    have "k' \<noteq> i div 2 ^ h' \<or> h' < Suc h" if "(k' + 1) * 2 ^ h' \<le> length ys" for h' k'
    proof (rule ccontr)
      assume "\<not> (k' \<noteq> i div 2 ^ h' \<or> h' < Suc h)"
      then have c: "k' = i div 2 ^ h'" "Suc h \<le> h'" by auto
      have "(i div 2 ^ Suc h + 1) * 2 ^ Suc h \<le> length ys"
        using ancestor_end [OF c(2), of i] that c(1) by simp
      moreover have "i div 2 ^ Suc h * 2 = k"
        using less.prems(3) ev(1) div_pow_Suc [of i h] by (metis dvd_div_mult_self)
      moreover have "(i div 2 ^ Suc h + 1) * 2 ^ Suc h = (i div 2 ^ Suc h * 2 + 1 + 1) * 2 ^ h"
        by (simp add: algebra_simps)
      ultimately have "(k + 1 + 1) * 2 ^ h \<le> length ys" by (simp only:)
      then have "k + 1 < n" unfolding less.prems(4) less_div_pow_iff .
      then show False using ev(2) by simp
    qed
    then have "holds_tree f z load s1 ys" using path_readyD [OF r1] by (simp add: holds_tree_def)
    then show ?thesis using True f1
      by (subst (1 2) mmr_Replace_loop.simps) (simp add: Let_def s1_def)
  next
    case False
    define j where "j = k div 2"
    define x where "x = k XOR 1"
    have x: "x < n" "x \<noteq> k" "x div 2 = j" "odd x \<longleftrightarrow> even k"
      using False by (auto simp: x_def nat_xor_Suc_0 j_def elim: oddE)
    have xn: "(x + 1) * 2 ^ h \<le> length ys" using x(1) less.prems(4) by (simp only: less_div_pow_iff)
    have ld: "load s1 (pos h x) = node_hash f z ys h x"
      using x(2) less.prems(3) by (intro path_readyD [OF r1 xn]) simp
    have j1: "2 * j + 1 < n" using less.prems(5) x(1)
      by (cases "even k") (auto simp: x_def nat_xor_Suc_0 j_def elim: oddE)
    then have "(2 * j + 1 + 1) * 2 ^ h \<le> length ys" unfolding less.prems(4) less_div_pow_iff .
    then have "(2 * j + 1) * 2 ^ h < length ys" by (simp add: less_le_trans [of _ "(2 * j + 1 + 1) * 2 ^ h"])
    then have nh: "node_hash f z ys (Suc h) j = f (node_hash f z ys h (2 * j)) (node_hash f z ys h (2 * j + 1))"
      by (rule node_hash_Suc)
    have hv': "interpret_side f hv (load s1 (pos h x)) (x AND 1 \<noteq> 0) = node_hash f z ys (Suc h) j"
    proof (cases "even k")
      case True
      then have "k = 2 * j" "x = 2 * j + 1" by (simp_all add: j_def x_def nat_xor_Suc_0)
      then show ?thesis using nh ld less.prems(6) by (simp add: interpret_side_def and_Suc_0_eq)
    next
      case odd: False
      then have "k = 2 * j + 1" "x = 2 * j" by (simp_all add: j_def x_def nat_xor_Suc_0)
      then show ?thesis using nh ld less.prems(6) by (simp add: interpret_side_def and_Suc_0_eq)
    qed
    have jn: "j < n div 2" "n div 2 < n" using j1 by simp_all
    have e: "j = i div 2 ^ (h + 1)" "n div 2 = length ys div 2 ^ (h + 1)"
      using less.prems(3,4) by (simp_all only: j_def div_pow_Suc Suc_eq_plus1 [symmetric])
    let ?t = "mmr_Replace_loop f load save (h + 1) j (n div 2)
        (interpret_side f hv (load s1 (pos h x)) (x AND 1 \<noteq> 0)) s1"
    have "holds_tree f z load ?t ys \<and> fits ?t (length ys)"
      by (rule less.IH [OF jn(2) _ f1 e jn(1)]) (use r1 hv' in simp_all)
    moreover have "mmr_Replace_loop f load save h k n hv s = ?t"
      using False x(3)
      by (subst mmr_Replace_loop.simps) (simp add: Let_def s1_def [symmetric] x_def [symmetric, simplified])
    ultimately show ?thesis by simp
  qed
qed

text \<open>\<open>Replace\<close> of an existing leaf and \<open>Append\<close> keep the tree.\<close>

lemma Replace_correct:
  assumes "holds_tree f z load (m_Store m) xs" and "m_Count m = length xs" and "i < length xs"
    and "fits (m_Store m) (length xs)"
  shows "holds_tree f z load (m_Store (mmr_Replace f load save m i hv)) (xs[i := hv])"
    "m_Count (mmr_Replace f load save m i hv) = length xs"
    "fits (m_Store (mmr_Replace f load save m i hv)) (length xs)"
proof -
  let ?ys = "xs[i := hv]"
  have "path_ready f z load (m_Store m) ?ys i 0"
    unfolding path_ready_def
  proof (intro allI impI)
    fix h k assume a: "(k + 1) * 2 ^ h \<le> length ?ys" "k \<noteq> i div 2 ^ h \<or> h < 0"
    then have "\<not> (k * 2 ^ h \<le> i \<and> i < (k + 1) * 2 ^ h)"
      using div_nat_eqI [of "2 ^ h" k i] by (auto simp: mult.commute)
    then have "i < k * 2 ^ h \<or> (k + 1) * 2 ^ h \<le> i" by linarith
    then have "block ?ys h k = block xs h k"
      unfolding block_def by (auto simp: drop_update_swap take_update_swap drop_update_cancel take_update_cancel
          list_update_beyond)
    then show "load (m_Store m) (pos h k) = node_hash f z ?ys h k"
      using assms(1) a(1) by (simp add: holds_tree_def node_hash_def)
  qed
  moreover have "hv = node_hash f z ?ys 0 i" using assms(3) by (simp add: node_hash_0)
  ultimately have "holds_tree f z load (mmr_Replace_loop f load save 0 i (length ?ys) hv (m_Store m)) ?ys \<and>
      fits (mmr_Replace_loop f load save 0 i (length ?ys) hv (m_Store m)) (length ?ys)"
    using assms by (intro Replace_loop_correct) simp_all
  then show "holds_tree f z load (m_Store (mmr_Replace f load save m i hv)) (xs[i := hv])"
    "m_Count (mmr_Replace f load save m i hv) = length xs"
    "fits (m_Store (mmr_Replace f load save m i hv)) (length xs)"
    using assms(2) by (simp_all add: mmr_Replace_def)
qed

lemma Append_correct:
  assumes "holds_tree f z load (m_Store m) xs" and "m_Count m = length xs"
    and "fits (m_Store m) (length xs + 1)" and "length xs + 1 < 2 ^ 64"
  shows "holds_tree f z load (m_Store (mmr_Append f load save m hv)) (xs @ [hv])"
    "m_Count (mmr_Append f load save m hv) = length xs + 1"
    "fits (m_Store (mmr_Append f load save m hv)) (length xs + 1)"
proof -
  let ?ys = "xs @ [hv]" and ?i = "length xs"
  have "path_ready f z load (m_Store m) ?ys ?i 0"
    unfolding path_ready_def
  proof (intro allI impI)
    fix h k assume a: "(k + 1) * 2 ^ h \<le> length ?ys" "k \<noteq> ?i div 2 ^ h \<or> h < 0"
    have "(k + 1) * 2 ^ h \<noteq> length ?ys"
    proof
      assume e: "(k + 1) * 2 ^ h = length ?ys"
      have "k * 2 ^ h + 2 ^ h = ?i + 1" using e by simp
      moreover have "1 \<le> (2 :: nat) ^ h" by simp
      ultimately have "k * 2 ^ h \<le> ?i" "?i < k * 2 ^ h + 2 ^ h" by linarith+
      then have "?i div 2 ^ h = k" by (intro div_nat_eqI) (simp_all add: algebra_simps)
      then show False using a(2) by simp
    qed
    then have "(k + 1) * 2 ^ h \<le> ?i" using a(1) by simp
    then show "load (m_Store m) (pos h k) = node_hash f z ?ys h k"
      using assms(1) by (simp add: holds_tree_def node_hash_append)
  qed
  moreover have "hv = node_hash f z ?ys 0 ?i" by (simp add: node_hash_0)
  ultimately have "holds_tree f z load (mmr_Replace_loop f load save 0 ?i (length ?ys) hv (m_Store m)) ?ys \<and>
      fits (mmr_Replace_loop f load save 0 ?i (length ?ys) hv (m_Store m)) (length ?ys)"
    using assms(3) by (intro Replace_loop_correct) simp_all
  then show "holds_tree f z load (m_Store (mmr_Append f load save m hv)) (xs @ [hv])"
    "m_Count (mmr_Append f load save m hv) = length xs + 1"
    "fits (m_Store (mmr_Append f load save m hv)) (length xs + 1)"
    using assms(2,4) by (simp_all add: mmr_Append_def mmr_Replace_def Let_def)
qed

end

text \<open>A store that holds the tree is a reader of it.\<close>

definition store_represents ::
  "('h \<Rightarrow> 'h \<Rightarrow> 'h) \<Rightarrow> 'h \<Rightarrow> ('s \<Rightarrow> Position \<Rightarrow> 'h) \<Rightarrow> 's \<Rightarrow> 'h list \<Rightarrow> bool" where
  "store_represents f z load s xs \<longleftrightarrow> holds_tree f z load s xs \<and> length xs < 2 ^ 63"

interpretation store: mmr_reader f z load "store_represents f z load" for f z load
  by unfold_locales (simp_all add: store_represents_def holds_tree_def)

section \<open>The flat array\<close>

text \<open>\<open>FlatMmr::Pos2Idx\<close>; \<open>flat_sum\<close> is its loop \<open>for (val = pos.X; val >>= 1; ) ret += val\<close>.\<close>

fun flat_sum :: "nat \<Rightarrow> nat \<Rightarrow> nat" where
  "flat_sum val ret = (if val div 2 = 0 then ret else flat_sum (val div 2) (wrap64 (ret + val div 2)))"

declare flat_sum.simps [simp del]

definition u64_sub :: "nat \<Rightarrow> nat \<Rightarrow> nat" where
  "u64_sub a b = wrap64 (a + (2 ^ 64 - b))"

definition flat_Pos2Idx :: "Position \<Rightarrow> nat \<Rightarrow> nat" where
  "flat_Pos2Idx p hStoreFrom =
     (let nStep = u64_sub (wrap64 (2 * 2 ^ (pos_H p - hStoreFrom))) 1
      in flat_sum (pos_X p) (u64_sub (wrap64 (wrap64 (pos_X p + 1) * nStep)) 1))"

text \<open>\<open>FlatMmr::get_TotalHashes\<close>.\<close>

fun flat_Total_loop :: "nat \<Rightarrow> nat \<Rightarrow> nat \<Rightarrow> nat \<Rightarrow> nat" where
  "flat_Total_loop hStoreFrom h nCount ret =
     (if nCount = 0 then ret
      else flat_Total_loop hStoreFrom (h + 1) (nCount div 2)
             (if hStoreFrom \<le> h then wrap64 (ret + nCount) else ret))"

declare flat_Total_loop.simps [simp del]

definition flat_get_TotalHashes :: "nat \<Rightarrow> nat \<Rightarrow> nat" where
  "flat_get_TotalHashes nCount hStoreFrom = flat_Total_loop hStoreFrom 0 nCount 0"

text \<open>\<open>FixedMmr\<close>: the state is the array \<open>m_vHashes\<close>; \<open>z\<close> is the value of a new array element.\<close>

definition fixed_Resize :: "'h \<Rightarrow> 'h list \<Rightarrow> nat \<Rightarrow> 'h list" where
  "fixed_Resize z s nTotal =
     (let n = flat_get_TotalHashes nTotal 0 in take n s @ replicate (n - length s) z)"

definition fixed_Pos2Idx :: "Position \<Rightarrow> nat" where
  "fixed_Pos2Idx p = flat_Pos2Idx p 0"

definition fixed_LoadElement :: "'h list \<Rightarrow> Position \<Rightarrow> 'h" where
  "fixed_LoadElement s p = s ! fixed_Pos2Idx p"

definition fixed_SaveElement :: "'h list \<Rightarrow> 'h \<Rightarrow> Position \<Rightarrow> 'h list" where
  "fixed_SaveElement s hv p = s[fixed_Pos2Idx p := hv]"

text \<open>The number of complete nodes over \<open>n\<close> leaves.\<close>

fun node_total :: "nat \<Rightarrow> nat" where
  "node_total n = (if n = 0 then 0 else n + node_total (n div 2))"

declare node_total.simps [simp del]

lemma node_total_0 [simp]: "node_total 0 = 0"
  by (simp add: node_total.simps)

lemma node_total_rec: "node_total n = n + node_total (n div 2)"
  by (cases "n = 0") (simp_all add: node_total.simps [of n])

lemma node_total_less: "n \<noteq> 0 \<Longrightarrow> node_total n < 2 * n"
proof (induction n rule: node_total.induct)
  case (1 n)
  show ?case
  proof (cases "n div 2 = 0")
    case True
    then show ?thesis using 1 node_total_rec [of n] by simp
  next
    case False
    then have "node_total (n div 2) < 2 * (n div 2)" using 1 by simp
    then show ?thesis using node_total_rec [of n] by simp
  qed
qed

lemma node_total_le: "node_total n \<le> 2 * n"
  using node_total_less [of n] by (cases "n = 0") auto

lemma node_total_mono: "m \<le> n \<Longrightarrow> node_total m \<le> node_total n"
proof (induction n arbitrary: m rule: less_induct)
  case (less n)
  show ?case
  proof (cases "n = 0")
    case False
    then have "node_total (m div 2) \<le> node_total (n div 2)" using less.prems by (intro less.IH) auto
    then show ?thesis using less.prems node_total_rec [of m] node_total_rec [of n] by simp
  qed (use less in simp)
qed

text \<open>The node \<open>(h, k)\<close> is the \<open>h\<close>-th node that the leaf \<open>(k + 1) * 2 ^ h - 1\<close> completes.\<close>

lemma node_total_step:
  "0 < m \<Longrightarrow> 2 ^ h dvd m \<Longrightarrow> node_total (m - 1) + h < node_total m"
proof (induction h arbitrary: m)
  case 0
  have "node_total (m - 1) \<le> m - 1 + node_total (m div 2)"
    using node_total_rec [of "m - 1"] node_total_mono [of "(m - 1) div 2" "m div 2"] by (simp add: div_le_mono)
  then show ?case using node_total_rec [of m] 0 by simp
next
  case (Suc h)
  then obtain c where c: "m = 2 * (2 ^ h * c)" by (auto elim!: dvdE simp: mult.assoc)
  have "node_total (m div 2 - 1) + h < node_total (m div 2)" using Suc.prems c by (intro Suc.IH) simp_all
  moreover have "(m - 1) div 2 = m div 2 - 1" using Suc.prems(1) unfolding c by presburger
  ultimately show ?case using node_total_rec [of "m - 1"] node_total_rec [of m] Suc.prems(1) by simp
qed

definition node_index :: "nat \<Rightarrow> nat \<Rightarrow> nat" where
  "node_index h k = node_total ((k + 1) * 2 ^ h - 1) + h"

lemma node_index_bounds:
  "node_total ((k + 1) * 2 ^ h - 1) \<le> node_index h k" "node_index h k < node_total ((k + 1) * 2 ^ h)"
  unfolding node_index_def using node_total_step [of "(k + 1) * 2 ^ h" h] by simp_all

lemma node_index_inject: "node_index h k = node_index h' k' \<Longrightarrow> h = h' \<and> k = k'"
proof -
  let ?m = "(k + 1) * 2 ^ h" and ?n = "(k' + 1) * 2 ^ h'"
  assume e: "node_index h k = node_index h' k'"
  have "\<not> ?m < ?n" "\<not> ?n < ?m"
    using node_index_bounds(1) [where h = h and k = k] node_index_bounds(2) [where h = h and k = k]
      node_index_bounds(1) [where h = h' and k = k'] node_index_bounds(2) [where h = h' and k = k'] e
      node_total_mono [of ?m "?n - 1"] node_total_mono [of ?n "?m - 1"] by fastforce+
  then have mn: "?m = ?n" by linarith
  then have "h = h'" using e by (simp add: node_index_def)
  then show ?thesis using mn by simp
qed

lemma node_index_closed:
  "node_index h k + 1 + (k + 1) = (k + 1) * 2 ^ Suc h + node_total (k div 2)"
proof (induction h)
  case 0
  then show ?case using node_total_rec [of k] by (simp add: node_index_def)
next
  case (Suc h)
  let ?m = "(k + 1) * 2 ^ h"
  have p: "1 \<le> ?m" by (simp add: Suc_le_eq)
  have "(k + 1) * 2 ^ Suc h - 1 = 2 * ?m - 1" by simp
  moreover have "(2 * ?m - 1) div 2 = ?m - 1" using p by presburger
  ultimately have "node_total ((k + 1) * 2 ^ Suc h - 1) = 2 * ?m - 1 + node_total (?m - 1)"
    using node_total_rec [of "2 * ?m - 1"] by simp
  then have "node_index (Suc h) k = node_index h k + 2 * ?m" using p unfolding node_index_def by linarith
  then show ?case using Suc.IH by simp
qed

lemma flat_sum_eq: "ret + node_total (val div 2) < 2 ^ 64 \<Longrightarrow> flat_sum val ret = ret + node_total (val div 2)"
proof (induction val ret rule: flat_sum.induct)
  case (1 val ret)
  show ?case
  proof (cases "val div 2 = 0")
    case True
    then show ?thesis by (subst flat_sum.simps) simp
  next
    case False
    have "ret + val div 2 < 2 ^ 64" using 1(2) node_total_rec [of "val div 2"] by simp
    then show ?thesis
      using 1 False node_total_rec [of "val div 2"] by (subst flat_sum.simps) (simp add: add.assoc)
  qed
qed

lemma u64_sub_eq: "b \<le> a \<Longrightarrow> a < 2 ^ 64 \<Longrightarrow> u64_sub a b = a - b"
  by (simp add: u64_sub_def wrap64_def le_mod_geq)

lemma flat_Pos2Idx_eq:
  assumes "(k + 1) * 2 ^ h \<le> n" and "n < 2 ^ 63"
  shows "flat_Pos2Idx (pos h k) 0 = node_index h k"
proof -
  have p: "1 \<le> (2 :: nat) ^ h" by simp
  have m: "(k + 1) * 2 ^ Suc h < 2 ^ 64" using assms by simp
  have "1 * 2 ^ Suc h \<le> (k + 1) * 2 ^ Suc h" by (intro mult_le_mono1) simp
  then have s: "2 * 2 ^ h < (2 :: nat) ^ 64" using m by simp
  have "(k + 1) * 1 \<le> (k + 1) * 2 ^ Suc h" by (intro mult_le_mono2) simp
  then have k: "k + 1 \<le> (k + 1) * 2 ^ Suc h" by simp
  define st where "st = 2 * 2 ^ h - (1 :: nat)"
  have prod: "(k + 1) * st = (k + 1) * 2 ^ Suc h - (k + 1)" by (simp add: st_def diff_mult_distrib2)
  have "1 \<le> st" using p unfolding st_def by linarith
  then have pos: "1 \<le> (k + 1) * st" using mult_le_mono [of 1 "k + 1" 1 st] by simp
  have "node_index h k < node_total ((k + 1) * 2 ^ h)" by (rule node_index_bounds(2))
  also have "\<dots> \<le> 2 * ((k + 1) * 2 ^ h)" by (rule node_total_le)
  finally have idx: "node_index h k < 2 ^ 64" using assms by simp
  have cl: "node_index h k = (k + 1) * st - 1 + node_total (k div 2)"
    using node_index_closed [of h k] prod pos k by linarith
  have "u64_sub (wrap64 (2 * 2 ^ h)) 1 = st" using s p by (simp add: u64_sub_eq st_def)
  moreover have "wrap64 (wrap64 (k + 1) * st) = (k + 1) * st"
  proof -
    have "k + 1 < 2 ^ 64" "(k + 1) * st < 2 ^ 64" using m k prod by linarith+
    then show ?thesis by (simp only: wrap64_id)
  qed
  ultimately have "flat_Pos2Idx (pos h k) 0 = flat_sum k (u64_sub ((k + 1) * st) 1)"
    by (simp add: flat_Pos2Idx_def)
  also have "u64_sub ((k + 1) * st) 1 = (k + 1) * st - 1"
    using pos m prod by (intro u64_sub_eq) simp_all
  also have "flat_sum k ((k + 1) * st - 1) = node_index h k"
    using idx cl by (subst flat_sum_eq) simp_all
  finally show ?thesis .
qed

lemma flat_Total_loop_eq:
  "ret + node_total n < 2 ^ 64 \<Longrightarrow> flat_Total_loop 0 h n ret = ret + node_total n"
proof (induction n arbitrary: h ret rule: less_induct)
  case (less n)
  show ?case
  proof (cases "n = 0")
    case True
    then show ?thesis by (subst flat_Total_loop.simps) simp
  next
    case False
    have "ret + n < 2 ^ 64" using less.prems node_total_rec [of n] by simp
    then show ?thesis
      using False less.IH [of "n div 2" "ret + n" "h + 1"] less.prems node_total_rec [of n]
      by (subst flat_Total_loop.simps) (simp add: add.assoc)
  qed
qed

lemma flat_get_TotalHashes_eq: "n < 2 ^ 63 \<Longrightarrow> flat_get_TotalHashes n 0 = node_total n"
  using flat_Total_loop_eq [of 0 n 0] node_total_le [of n] by (simp add: flat_get_TotalHashes_def)

section \<open>\<open>FixedMmr\<close> is a store\<close>

definition fixed_fits :: "'h list \<Rightarrow> nat \<Rightarrow> bool" where
  "fixed_fits s n \<longleftrightarrow> n < 2 ^ 63 \<and> node_total n \<le> length s"

lemma fixed_index:
  assumes "fixed_fits s n" and "complete_pos n p"
  shows "fixed_Pos2Idx p = node_index (pos_H p) (pos_X p)" "fixed_Pos2Idx p < length s"
proof -
  have c: "(pos_X p + 1) * 2 ^ pos_H p \<le> n" "n < 2 ^ 63" using assms by (simp_all add: fixed_fits_def complete_pos_def)
  show e: "fixed_Pos2Idx p = node_index (pos_H p) (pos_X p)"
    using flat_Pos2Idx_eq [OF c] by (cases p) (simp add: fixed_Pos2Idx_def)
  show "fixed_Pos2Idx p < length s"
    using e node_index_bounds(2) [of "pos_H p" "pos_X p"] node_total_mono [OF c(1)] assms(1)
    by (simp add: fixed_fits_def)
qed

interpretation fixed: mmr_store fixed_LoadElement fixed_SaveElement fixed_fits
proof unfold_locales
  fix s :: "'b list" and n p q hv
  assume a: "fixed_fits s n" "complete_pos n p" "complete_pos n q"
  have "fixed_Pos2Idx p = fixed_Pos2Idx q \<longleftrightarrow> p = q"
    using fixed_index(1) [OF a(1,2)] fixed_index(1) [OF a(1,3)] node_index_inject
    by (metis Position.equality unit.exhaust)
  then show "fixed_LoadElement (fixed_SaveElement s hv p) q = (if p = q then hv else fixed_LoadElement s q)"
    using fixed_index(2) [OF a(1,2)] by (auto simp: fixed_LoadElement_def fixed_SaveElement_def)
next
  fix s :: "'b list" and n p hv
  assume "fixed_fits s n" "complete_pos n p"
  then show "fixed_fits (fixed_SaveElement s hv p) n" by (simp add: fixed_fits_def fixed_SaveElement_def)
qed

lemma fixed_Resize_fits: "n < 2 ^ 63 \<Longrightarrow> m \<le> n \<Longrightarrow> fixed_fits (fixed_Resize z s n) m"
  using node_total_mono [of m n] by (simp add: fixed_fits_def fixed_Resize_def flat_get_TotalHashes_eq Let_def)

section \<open>\<open>FlyMmr\<close> is a reader\<close>

text \<open>\<open>FlyMmr::Inner::Calculate\<close>, over the virtual \<open>LoadElement\<close> of a leaf.\<close>

fun fly_Calculate :: "('h \<Rightarrow> 'h \<Rightarrow> 'h) \<Rightarrow> (nat \<Rightarrow> 'h) \<Rightarrow> nat \<Rightarrow> nat \<Rightarrow> 'h" where
  "fly_Calculate f leaf 0 i = leaf i"
| "fly_Calculate f leaf (Suc h) i =
     (let x = wrap64 (2 * i); hv = fly_Calculate f leaf h x; hv2 = fly_Calculate f leaf h (wrap64 (x + 1))
      in interpret_side f hv hv2 True)"

definition fly_LoadElement :: "('h \<Rightarrow> 'h \<Rightarrow> 'h) \<Rightarrow> (nat \<Rightarrow> 'h) \<Rightarrow> Position \<Rightarrow> 'h" where
  "fly_LoadElement f leaf p = fly_Calculate f leaf (pos_H p) (pos_X p)"

definition fly_get_Hash :: "('h \<Rightarrow> 'h \<Rightarrow> 'h) \<Rightarrow> 'h \<Rightarrow> (nat \<Rightarrow> 'h) \<Rightarrow> nat \<Rightarrow> 'h" where
  "fly_get_Hash f z leaf count = mmr_get_Hash f z (fly_LoadElement f leaf) count"

definition fly_get_Proof ::
  "('h \<Rightarrow> 'h \<Rightarrow> 'h) \<Rightarrow> (nat \<Rightarrow> 'h) \<Rightarrow> nat \<Rightarrow> 'h \<Rightarrow>
   ('b \<Rightarrow> 'h Node \<Rightarrow> Position \<Rightarrow> bool \<times> 'b) \<Rightarrow> 'b \<Rightarrow> nat \<Rightarrow> bool \<times> 'b" where
  "fly_get_Proof f leaf count hv app b i = mmr_get_Proof_with f (fly_LoadElement f leaf) count hv app b i"

lemma fly_get_Proof_eq: "fly_get_Proof f leaf count hv = mmr_get_Proof_with f (fly_LoadElement f leaf) count hv"
  by (intro ext) (simp add: fly_get_Proof_def)

lemma fly_Calculate_eq:
  assumes "(i + 1) * 2 ^ h \<le> length xs" and "length xs < 2 ^ 63" and "\<forall>i < length xs. leaf i = xs ! i"
  shows "fly_Calculate f leaf h i = node_hash f z xs h i"
  using assms(1)
proof (induction h arbitrary: i)
  case 0
  then show ?case using assms(3) by (simp add: node_hash_0)
next
  case (Suc h)
  have "(i + 1) * 2 * 1 \<le> (i + 1) * 2 * 2 ^ h" by (intro mult_le_mono2) simp
  then have i: "2 * i + 2 \<le> length xs" using Suc.prems by simp
  have w: "wrap64 (2 * i) = 2 * i" "wrap64 (2 * i + 1) = 2 * i + 1"
    using i assms(2) by (simp_all add: wrap64_def)
  have e: "(2 * i + 1 + 1) * 2 ^ h = (i + 1) * 2 ^ Suc h" by simp
  have c: "(2 * i + 1) * 2 ^ h \<le> length xs" "(2 * i + 1 + 1) * 2 ^ h \<le> length xs"
    using Suc.prems e mult_le_mono1 [of "2 * i + 1" "2 * i + 1 + 1" "2 ^ h"] by linarith+
  have "(2 * i + 1) * 2 ^ h < (2 * i + 1 + 1) * 2 ^ h" by simp
  then have "(2 * i + 1) * 2 ^ h < length xs" using c(2) by linarith
  from node_hash_Suc [OF this, of f z] show ?case
    using Suc.IH [OF c(1)] Suc.IH [OF c(2)] w by (simp add: Let_def interpret_side_def)
qed

text \<open>The leaves that the virtual \<open>LoadElement\<close> delivers.\<close>

definition fly_represents :: "(nat \<Rightarrow> 'h) \<Rightarrow> 'h list \<Rightarrow> bool" where
  "fly_represents leaf xs \<longleftrightarrow> length xs < 2 ^ 63 \<and> (\<forall>i < length xs. leaf i = xs ! i)"

interpretation fly: mmr_reader f z "fly_LoadElement f" fly_represents for f z
  by unfold_locales (auto simp: fly_represents_def fly_LoadElement_def intro: fly_Calculate_eq)

end
