(* ===== verification/Merkle_Compact.thy ===== *)
theory Merkle_Compact
  imports Merkle_Store
begin

text \<open>
  \<open>CompactMmr\<close> (\<open>src/core/merkle.h\<close>, \<open>src/core/merkle.cpp\<close>), which keeps only the peaks of the mountain range, and
  the contract \<open>merkle_accumulator\<close> of an append-only Merkle accumulator.  The contract is discharged for
  \<open>CompactMmr\<close> and for \<open>FixedMmr\<close>; what a client may conclude from it is proved once.
\<close>

section \<open>\<open>CompactMmr\<close>\<close>

record 'h CompactMmr =
  c_Count :: nat
  c_vNodes :: "'h list"

fun compact_Hash_loop :: "('h \<Rightarrow> 'h \<Rightarrow> 'h) \<Rightarrow> 'h list \<Rightarrow> nat \<Rightarrow> 'h \<Rightarrow> 'h" where
  "compact_Hash_loop f nodes 0 hv = hv"
| "compact_Hash_loop f nodes (Suc i) hv = compact_Hash_loop f nodes i (interpret_side f hv (nodes ! i) False)"

definition compact_get_Hash :: "('h \<Rightarrow> 'h \<Rightarrow> 'h) \<Rightarrow> 'h \<Rightarrow> 'h CompactMmr \<Rightarrow> 'h" where
  "compact_get_Hash f z c =
     (let i = length (c_vNodes c)
      in if i \<noteq> 0 then compact_Hash_loop f (c_vNodes c) (i - 1) (c_vNodes c ! (i - 1)) else z)"

fun compact_Predicted_loop :: "('h \<Rightarrow> 'h \<Rightarrow> 'h) \<Rightarrow> 'h list \<Rightarrow> nat \<Rightarrow> nat \<Rightarrow> 'h \<Rightarrow> 'h" where
  "compact_Predicted_loop f nodes n iPos hv =
     (if n = 0 then hv
      else if odd n then
        compact_Predicted_loop f nodes (n div 2) (iPos - 1) (interpret_side f hv (nodes ! (iPos - 1)) False)
      else compact_Predicted_loop f nodes (n div 2) iPos hv)"

declare compact_Predicted_loop.simps [simp del]

definition compact_get_PredictedHash :: "('h \<Rightarrow> 'h \<Rightarrow> 'h) \<Rightarrow> 'h CompactMmr \<Rightarrow> 'h \<Rightarrow> 'h" where
  "compact_get_PredictedHash f c hvAppend =
     compact_Predicted_loop f (c_vNodes c) (c_Count c) (length (c_vNodes c)) hvAppend"

function compact_Append_loop :: "('h \<Rightarrow> 'h \<Rightarrow> 'h) \<Rightarrow> nat \<Rightarrow> 'h \<Rightarrow> 'h list \<Rightarrow> 'h \<times> 'h list" where
  "compact_Append_loop f n hv1 nodes =
     (if even n then (hv1, nodes)
      else compact_Append_loop f (n div 2) (interpret_side f hv1 (last nodes) False) (butlast nodes))"
  by pat_completeness auto
termination
  by (relation "measure (\<lambda>(f, n, hv1, nodes). n)") (auto elim: oddE)

declare compact_Append_loop.simps [simp del]

definition compact_Append :: "('h \<Rightarrow> 'h \<Rightarrow> 'h) \<Rightarrow> 'h CompactMmr \<Rightarrow> 'h \<Rightarrow> 'h CompactMmr" where
  "compact_Append f c hv =
     (let (hv1, nodes) = compact_Append_loop f (c_Count c) hv (c_vNodes c)
      in \<lparr>c_Count = wrap64 (c_Count c + 1), c_vNodes = nodes @ [hv1]\<rparr>)"

text \<open>The peaks over the leaves \<open>xs\<close>, lowest first: one per set bit of the count.\<close>

fun peaks :: "('h \<Rightarrow> 'h \<Rightarrow> 'h) \<Rightarrow> 'h \<Rightarrow> 'h list \<Rightarrow> nat \<Rightarrow> nat \<Rightarrow> 'h list" where
  "peaks f z xs h n =
     (if n = 0 then []
      else (if odd n then [node_hash f z xs h (n - 1)] else []) @ peaks f z xs (h + 1) (n div 2))"

declare peaks.simps [simp del]

lemma peaks_0 [simp]: "peaks f z xs h 0 = []"
  by (simp add: peaks.simps)

lemma peaks_odd: "odd n \<Longrightarrow> peaks f z xs h n = node_hash f z xs h (n - 1) # peaks f z xs (Suc h) (n div 2)"
  by (subst peaks.simps) (auto elim: oddE)

lemma peaks_even: "even n \<Longrightarrow> peaks f z xs h n = peaks f z xs (Suc h) (n div 2)"
  by (cases "n = 0") (simp_all add: peaks.simps [of _ _ _ h n])

lemma peaks_append: "n * 2 ^ h \<le> length xs \<Longrightarrow> peaks f z (xs @ ys) h n = peaks f z xs h n"
proof (induction n arbitrary: h rule: less_induct)
  case (less n)
  have d: "n div 2 * 2 ^ Suc h \<le> length xs"
  proof -
    have "n div 2 * 2 * 2 ^ h \<le> n * 2 ^ h" by (intro mult_le_mono1) (simp add: div_times_less_eq_dividend)
    then show ?thesis using less.prems unfolding power_Suc mult.assoc by linarith
  qed
  show ?case
  proof (cases "n = 0")
    case False
    then have IH: "peaks f z (xs @ ys) (Suc h) (n div 2) = peaks f z xs (Suc h) (n div 2)"
      by (intro less.IH d) simp
    show ?thesis
    proof (cases "odd n")
      case True
      then have "(n - 1 + 1) * 2 ^ h \<le> length xs" using less.prems False by simp
      then show ?thesis using True IH by (simp add: peaks_odd node_hash_append)
    qed (use IH in \<open>simp add: peaks_even\<close>)
  qed simp
qed

definition compact_represents ::
  "('h \<Rightarrow> 'h \<Rightarrow> 'h) \<Rightarrow> 'h \<Rightarrow> 'h CompactMmr \<Rightarrow> 'h list \<Rightarrow> bool" where
  "compact_represents f z c xs \<longleftrightarrow>
     c_Count c = length xs \<and> c_vNodes c = rev (peaks f z xs 0 (length xs)) \<and> length xs < 2 ^ 63"

lemma compact_Append_loop_correct:
  assumes "(n + 1) * 2 ^ h \<le> length xs + 1" and "hv = node_hash f z (xs @ [v]) h n"
    and "nodes = rev (peaks f z xs h n)"
    and "compact_Append_loop f n hv nodes = (hv', nodes')"
  shows "nodes' @ [hv'] = rev (peaks f z (xs @ [v]) h (n + 1))"
  using assms
proof (induction n arbitrary: h hv nodes rule: less_induct)
  case (less n)
  have nb: "n * 2 ^ h \<le> length xs" using less.prems(1) one_le_power [of "2 :: nat" h]
    by (simp only: distrib_right mult_1) linarith
  show ?case
  proof (cases "even n")
    case True
    then have "hv' = hv" "nodes' = nodes" using less.prems(4) by (simp_all add: compact_Append_loop.simps)
    moreover have "peaks f z (xs @ [v]) h (n + 1) = hv # peaks f z (xs @ [v]) (Suc h) (n div 2)"
      using True less.prems(2) by (simp add: peaks_odd)
    moreover have "peaks f z xs h n = peaks f z (xs @ [v]) (Suc h) (n div 2)"
      using True peaks_append [OF nb, of f z "[v]"] by (simp add: peaks_even)
    ultimately show ?thesis using less.prems(3) by simp
  next
    case False
    define j where "j = n div 2"
    have n: "n = 2 * j + 1" using False by (simp add: j_def)
    have pk: "peaks f z xs h n = node_hash f z xs h (2 * j) # peaks f z xs (Suc h) j"
      using False n by (simp add: peaks_odd)
    have "(2 * j + 1) * 2 ^ h \<le> length xs" using nb n by simp
    then have l: "node_hash f z xs h (2 * j) = node_hash f z (xs @ [v]) h (2 * j)"
      by (simp add: node_hash_append)
    have "(2 * j + 1) * 2 ^ h < length (xs @ [v])" using nb n by simp
    then have hv1: "interpret_side f hv (last nodes) False = node_hash f z (xs @ [v]) (Suc h) j"
      using node_hash_Suc [of j h "xs @ [v]" f z] less.prems(2,3) pk l n by (simp add: interpret_side_def)
    have run: "compact_Append_loop f j (interpret_side f hv (last nodes) False) (butlast nodes) = (hv', nodes')"
      using less.prems(4) False by (simp add: compact_Append_loop.simps [of f n] j_def)
    have "nodes' @ [hv'] = rev (peaks f z (xs @ [v]) (Suc h) (j + 1))"
      using n less.prems(1,3) pk by (intro less.IH [OF _ _ hv1 _ run]) (simp_all add: algebra_simps)
    moreover have "peaks f z (xs @ [v]) h (n + 1) = peaks f z (xs @ [v]) (Suc h) (j + 1)"
      using n peaks_even [of "n + 1" f z "xs @ [v]" h] by simp
    ultimately show ?thesis by simp
  qed
qed

lemma compact_Append_represents:
  assumes "compact_represents f z c xs" and "length xs + 1 < 2 ^ 63"
  shows "compact_represents f z (compact_Append f c hv) (xs @ [hv])"
proof -
  obtain hv1 nodes where r: "compact_Append_loop f (c_Count c) hv (c_vNodes c) = (hv1, nodes)" by fastforce
  have "nodes @ [hv1] = rev (peaks f z (xs @ [hv]) 0 (length xs + 1))"
    using assms r by (intro compact_Append_loop_correct [OF _ _ _ r [unfolded assms(1) [unfolded compact_represents_def, THEN conjunct1]]])
      (simp_all add: compact_represents_def node_hash_0)
  then show ?thesis using assms r by (simp add: compact_represents_def compact_Append_def)
qed

text \<open>The loops over the stored peaks are the loops of \<open>Mmr\<close> over the node hashes.\<close>

definition node_load :: "('h \<Rightarrow> 'h \<Rightarrow> 'h) \<Rightarrow> 'h \<Rightarrow> 'h list \<Rightarrow> Position \<Rightarrow> 'h" where
  "node_load f z xs p = node_hash f z xs (pos_H p) (pos_X p)"

interpretation nodes: mmr_reader f z "node_load f z" "\<lambda>ys xs. ys = xs \<and> length xs < 2 ^ 63" for f z
  by unfold_locales (auto simp: node_load_def)

lemma compact_Predicted_loop_eq:
  "nodes = rev (peaks f z xs h n) @ used \<Longrightarrow> iPos = length (peaks f z xs h n) \<Longrightarrow>
    compact_Predicted_loop f nodes n iPos hv = mmr_Predicted_loop f (node_load f z xs) h n hv"
proof (induction n arbitrary: h iPos used hv rule: less_induct)
  case (less n)
  show ?case
  proof (cases "n = 0")
    case True
    then show ?thesis by (subst compact_Predicted_loop.simps, subst mmr_Predicted_loop.simps) simp
  next
    case n0: False
    show ?thesis
    proof (cases "odd n")
      case True
      let ?p = "node_hash f z xs h (n - 1)"
      have pk: "peaks f z xs h n = ?p # peaks f z xs (Suc h) (n div 2)" using True by (rule peaks_odd)
      have "nodes ! (iPos - 1) = ?p" using less.prems pk by (simp add: nth_append)
      moreover have "compact_Predicted_loop f nodes (n div 2) (iPos - 1) (interpret_side f hv ?p False) =
          mmr_Predicted_loop f (node_load f z xs) (Suc h) (n div 2) (interpret_side f hv ?p False)"
        using less.prems pk n0 by (intro less.IH [where used = "?p # used"]) simp_all
      ultimately show ?thesis
        using n0 True
        by (subst compact_Predicted_loop.simps, subst mmr_Predicted_loop.simps)
          (simp add: Let_def node_load_def nat_xor_Suc_0)
    next
      case False
      then have pk: "peaks f z xs h n = peaks f z xs (Suc h) (n div 2)" by (intro peaks_even) simp
      have "compact_Predicted_loop f nodes (n div 2) iPos hv =
          mmr_Predicted_loop f (node_load f z xs) (Suc h) (n div 2) hv"
        using less.prems pk n0 by (intro less.IH [where used = used]) simp_all
      then show ?thesis
        using n0 False by (subst compact_Predicted_loop.simps, subst mmr_Predicted_loop.simps) simp
    qed
  qed
qed

lemma compact_Hash_loop_eq:
  "i \<le> length nodes \<Longrightarrow> compact_Hash_loop f nodes i hv = foldl (\<lambda>a p. f p a) hv (rev (take i nodes))"
proof (induction i arbitrary: hv)
  case (Suc i)
  then show ?case by (simp add: take_Suc_conv_app_nth interpret_side_def)
qed simp

lemma HashForRange_loop_peaks:
  "n < 2 ^ 64 \<Longrightarrow> mmr_HashForRange_loop f (node_load f z xs) h 0 n hv =
    (case hv of Some a \<Rightarrow> Some (foldl (\<lambda>a p. f p a) a (peaks f z xs h n))
     | None \<Rightarrow> (case peaks f z xs h n of [] \<Rightarrow> None | p # ps \<Rightarrow> Some (foldl (\<lambda>a p. f p a) p ps)))"
proof (induction n arbitrary: h hv rule: less_induct)
  case (less n)
  show ?case
  proof (cases "n = 0")
    case True
    then show ?thesis by (subst mmr_HashForRange_loop.simps) (simp split: option.split)
  next
    case n0: False
    have IH: "mmr_HashForRange_loop f (node_load f z xs) (Suc h) 0 (n div 2) hv' =
        (case hv' of Some a \<Rightarrow> Some (foldl (\<lambda>a p. f p a) a (peaks f z xs (Suc h) (n div 2)))
         | None \<Rightarrow> (case peaks f z xs (Suc h) (n div 2) of [] \<Rightarrow> None
             | p # ps \<Rightarrow> Some (foldl (\<lambda>a p. f p a) p ps)))" for hv'
      using n0 less.prems by (intro less.IH) simp_all
    show ?thesis
      using n0 less.prems
      by (subst mmr_HashForRange_loop.simps, cases "odd n")
        (simp_all add: IH peaks_odd peaks_even Let_def node_load_def nat_xor_Suc_0 interpret_side_def
          split: option.split)
  qed
qed

lemma compact_get_Hash_correct:
  assumes "compact_represents f z c xs"
  shows "compact_get_Hash f z c = mth f z xs"
proof -
  let ?ps = "peaks f z xs 0 (length xs)"
  have len: "length xs < 2 ^ 63" and nodes: "c_vNodes c = rev ?ps"
    using assms by (simp_all add: compact_represents_def)
  have r: "mmr_get_Hash f z (node_load f z xs) (length xs) = mth f z xs"
    using len by (simp add: nodes.get_Hash_correct)
  have "compact_get_Hash f z c = (case ?ps of [] \<Rightarrow> z | p # ps \<Rightarrow> foldl (\<lambda>a p. f p a) p ps)"
    by (cases ?ps) (simp_all add: compact_get_Hash_def nodes compact_Hash_loop_eq nth_append)
  also have "\<dots> = mmr_get_Hash f z (node_load f z xs) (length xs)"
    using HashForRange_loop_peaks [of "length xs" f z xs 0 None] len
    by (simp add: mmr_get_Hash_def mmr_get_HashForRange_def split: list.split)
  finally show ?thesis using r by simp
qed

lemma compact_get_PredictedHash_correct:
  assumes "compact_represents f z c xs"
  shows "compact_get_PredictedHash f c hv = mth f z (xs @ [hv])"
proof -
  have len: "length xs < 2 ^ 63" using assms by (simp add: compact_represents_def)
  have "compact_get_PredictedHash f c hv = mmr_get_PredictedHash f (node_load f z xs) (length xs) hv"
    using assms compact_Predicted_loop_eq [of "c_vNodes c" f z xs 0 "length xs" "[]" "length (c_vNodes c)" hv]
    by (simp add: compact_get_PredictedHash_def mmr_get_PredictedHash_def compact_represents_def)
  also have "\<dots> = mth f z (xs @ [hv])"
    using len by (simp add: nodes.get_PredictedHash_correct)
  finally show ?thesis .
qed

section \<open>Append-only accumulators\<close>

locale merkle_accumulator =
  fixes f :: "'h \<Rightarrow> 'h \<Rightarrow> 'h" and z :: 'h and init :: 'c and append :: "'c \<Rightarrow> 'h \<Rightarrow> 'c"
    and root :: "'c \<Rightarrow> 'h" and predict :: "'c \<Rightarrow> 'h \<Rightarrow> 'h"
    and represents :: "'c \<Rightarrow> 'h list \<Rightarrow> bool" and capacity :: nat
  assumes represents_init: "represents init []"
    and represents_append: "represents c xs \<Longrightarrow> length xs < capacity \<Longrightarrow> represents (append c hv) (xs @ [hv])"
    and root_represents: "represents c xs \<Longrightarrow> root c = mth f z xs"
    and predict_represents: "represents c xs \<Longrightarrow> length xs < capacity \<Longrightarrow> predict c hv = mth f z (xs @ [hv])"
begin

lemma represents_run: "length hs \<le> capacity \<Longrightarrow> represents (foldl append init hs) hs"
  by (induction hs rule: rev_induct) (simp_all add: represents_init represents_append)

lemma root_run: "length hs \<le> capacity \<Longrightarrow> root (foldl append init hs) = mth f z hs"
  using represents_run root_represents by blast

lemma predict_run:
  "length hs < capacity \<Longrightarrow> predict (foldl append init hs) hv = root (append (foldl append init hs) hv)"
  using represents_run [of hs] root_run [of "hs @ [hv]"] by (simp add: predict_represents)

end

definition compact_init :: "'h CompactMmr" where
  "compact_init = \<lparr>c_Count = 0, c_vNodes = []\<rparr>"

interpretation compact: merkle_accumulator f z compact_init "compact_Append f" "compact_get_Hash f z"
    "compact_get_PredictedHash f" "compact_represents f z" "2 ^ 63 - 1" for f z
proof unfold_locales
  show "compact_represents f z compact_init []" by (simp add: compact_represents_def compact_init_def)
next
  fix c :: "'a CompactMmr" and xs hv
  assume "compact_represents f z c xs" "length xs < 2 ^ 63 - 1"
  then show "compact_represents f z (compact_Append f c hv) (xs @ [hv])"
    by (intro compact_Append_represents) simp_all
next
  fix c xs
  assume "compact_represents f z c xs"
  then show "compact_get_Hash f z c = mth f z xs" by (rule compact_get_Hash_correct)
next
  fix c xs hv
  assume "compact_represents f z c xs"
  then show "compact_get_PredictedHash f c hv = mth f z (xs @ [hv])" by (rule compact_get_PredictedHash_correct)
qed

text \<open>\<open>FixedMmr\<close> constructed for \<open>nTotal\<close> leaves.\<close>

definition fixed_init :: "'h \<Rightarrow> nat \<Rightarrow> 'h list Mmr" where
  "fixed_init z nTotal = \<lparr>m_Count = 0, m_Store = fixed_Resize z [] nTotal\<rparr>"

definition fixed_Append :: "('h \<Rightarrow> 'h \<Rightarrow> 'h) \<Rightarrow> 'h list Mmr \<Rightarrow> 'h \<Rightarrow> 'h list Mmr" where
  "fixed_Append f m hv = mmr_Append f fixed_LoadElement fixed_SaveElement m hv"

definition fixed_get_Hash :: "('h \<Rightarrow> 'h \<Rightarrow> 'h) \<Rightarrow> 'h \<Rightarrow> 'h list Mmr \<Rightarrow> 'h" where
  "fixed_get_Hash f z m = mmr_get_Hash f z (fixed_LoadElement (m_Store m)) (m_Count m)"

definition fixed_get_PredictedHash :: "('h \<Rightarrow> 'h \<Rightarrow> 'h) \<Rightarrow> 'h list Mmr \<Rightarrow> 'h \<Rightarrow> 'h" where
  "fixed_get_PredictedHash f m hv = mmr_get_PredictedHash f (fixed_LoadElement (m_Store m)) (m_Count m) hv"

definition fixed_get_Proof :: "('h \<Rightarrow> 'h \<Rightarrow> 'h) \<Rightarrow> 'h list Mmr \<Rightarrow> 'h \<Rightarrow> 'h Node list \<Rightarrow> nat \<Rightarrow> 'h Node list" where
  "fixed_get_Proof f m hv p i = mmr_get_Proof f (fixed_LoadElement (m_Store m)) (m_Count m) hv p i"

text \<open>The number of leaves an array of this size is certain to take.\<close>

definition fixed_capacity :: "nat \<Rightarrow> nat" where
  "fixed_capacity nTotal = (if nTotal < 2 ^ 63 then nTotal else 0)"

definition fixed_represents ::
  "('h \<Rightarrow> 'h \<Rightarrow> 'h) \<Rightarrow> 'h \<Rightarrow> nat \<Rightarrow> 'h list Mmr \<Rightarrow> 'h list \<Rightarrow> bool" where
  "fixed_represents f z nTotal m xs \<longleftrightarrow>
     m_Count m = length xs \<and> length xs \<le> fixed_capacity nTotal \<and>
     holds_tree f z fixed_LoadElement (m_Store m) xs \<and> node_total (fixed_capacity nTotal) \<le> length (m_Store m)"

lemma fixed_represents_fits: "fixed_represents f z nTotal m xs \<Longrightarrow> n \<le> fixed_capacity nTotal \<Longrightarrow>
    fixed_fits (m_Store m) n"
  using node_total_mono [of n "fixed_capacity nTotal"]
  by (auto simp: fixed_represents_def fixed_fits_def fixed_capacity_def split: if_splits)

lemma fixed_represents_store:
  "fixed_represents f z nTotal m xs \<Longrightarrow> store_represents f z fixed_LoadElement (m_Store m) xs"
  by (auto simp: store_represents_def fixed_represents_def fixed_capacity_def split: if_splits)

lemma length_Replace_loop [simp]:
  "length (mmr_Replace_loop f fixed_LoadElement fixed_SaveElement h i n hv s) = length s"
proof (induction n arbitrary: h i hv s rule: less_induct)
  case (less n)
  show ?case
    by (subst mmr_Replace_loop.simps) (simp add: Let_def less fixed_SaveElement_def)
qed

interpretation fixed_acc: merkle_accumulator f z "fixed_init z nTotal" "fixed_Append f" "fixed_get_Hash f z"
    "fixed_get_PredictedHash f" "fixed_represents f z nTotal" "fixed_capacity nTotal" for f z nTotal
proof unfold_locales
  show "fixed_represents f z nTotal (fixed_init z nTotal) []"
    by (simp add: fixed_represents_def fixed_init_def holds_tree_def fixed_capacity_def fixed_Resize_def
        flat_get_TotalHashes_eq Let_def)
next
  fix m :: "'a list Mmr" and xs hv
  assume r: "fixed_represents f z nTotal m xs" and l: "length xs < fixed_capacity nTotal"
  have "fixed_fits (m_Store m) (length xs + 1)" using fixed_represents_fits [OF r] l by simp
  moreover have "length xs + 1 < 2 ^ 64" using l by (simp add: fixed_capacity_def split: if_splits)
  ultimately show "fixed_represents f z nTotal (fixed_Append f m hv) (xs @ [hv])"
    using fixed.Append_correct [of f z m xs hv] r l
    by (simp add: fixed_represents_def fixed_Append_def) (simp add: mmr_Append_def mmr_Replace_def Let_def)
next
  fix m xs
  assume r: "fixed_represents f z nTotal m xs"
  then show "fixed_get_Hash f z m = mth f z xs"
    using store.get_Hash_correct [OF fixed_represents_store [OF r]]
    by (simp add: fixed_get_Hash_def fixed_represents_def)
next
  fix m xs hv
  assume r: "fixed_represents f z nTotal m xs"
  then show "fixed_get_PredictedHash f m hv = mth f z (xs @ [hv])"
    using store.get_PredictedHash_correct [OF fixed_represents_store [OF r]]
    by (simp add: fixed_get_PredictedHash_def fixed_represents_def)
qed

definition fixed_Replace :: "('h \<Rightarrow> 'h \<Rightarrow> 'h) \<Rightarrow> 'h list Mmr \<Rightarrow> nat \<Rightarrow> 'h \<Rightarrow> 'h list Mmr" where
  "fixed_Replace f m n hv = mmr_Replace f fixed_LoadElement fixed_SaveElement m n hv"

abbreviation fixed_run :: "('h \<Rightarrow> 'h \<Rightarrow> 'h) \<Rightarrow> 'h \<Rightarrow> nat \<Rightarrow> 'h list \<Rightarrow> 'h list Mmr" where
  "fixed_run f z nTotal hs \<equiv> foldl (fixed_Append f) (fixed_init z nTotal) hs"

abbreviation compact_run :: "('h \<Rightarrow> 'h \<Rightarrow> 'h) \<Rightarrow> 'h list \<Rightarrow> 'h CompactMmr" where
  "compact_run f hs \<equiv> foldl (compact_Append f) compact_init hs"

lemma fixed_capacity_eq: "nTotal < 2 ^ 63 \<Longrightarrow> fixed_capacity nTotal = nTotal"
  by (simp add: fixed_capacity_def)

lemma fixed_run_store:
  assumes "length hs \<le> nTotal" and "nTotal < 2 ^ 63"
  shows "fixed_represents f z nTotal (fixed_run f z nTotal hs) hs"
    "store_represents f z fixed_LoadElement (m_Store (fixed_run f z nTotal hs)) hs"
    "m_Count (fixed_run f z nTotal hs) = length hs"
proof -
  show r: "fixed_represents f z nTotal (fixed_run f z nTotal hs) hs"
    using assms by (intro fixed_acc.represents_run) (simp add: fixed_capacity_eq)
  then show "store_represents f z fixed_LoadElement (m_Store (fixed_run f z nTotal hs)) hs"
    by (rule fixed_represents_store)
  show "m_Count (fixed_run f z nTotal hs) = length hs" using r by (simp add: fixed_represents_def)
qed

section \<open>Properties\<close>

text \<open>After any sequence of appends within its size a \<open>FixedMmr\<close> reports the root of the abstract Merkle tree
  over exactly the appended hashes, and \<open>get_PredictedHash\<close> announces the root that the next append produces.\<close>

theorem FixedMmr_root_and_prediction:
  assumes "length hs < nTotal" and "nTotal < 2 ^ 63"
  shows "fixed_get_Hash f z (fixed_run f z nTotal hs) = mth f z hs \<and>
    fixed_get_PredictedHash f (fixed_run f z nTotal hs) hv = fixed_get_Hash f z (fixed_Append f (fixed_run f z nTotal hs) hv)"
  using assms by (simp add: fixed_acc.root_run fixed_acc.predict_run fixed_capacity_eq)

theorem FixedMmr_root_and_prediction_witness:
  "fixed_get_Hash (\<lambda>a b. 2 * a + 3 * b + 1) (0 :: nat) (fixed_run (\<lambda>a b. 2 * a + 3 * b + 1) 0 4 [10, 20, 30]) = 253 \<and>
   fixed_get_PredictedHash (\<lambda>a b. 2 * a + 3 * b + 1) (fixed_run (\<lambda>a b. 2 * a + 3 * b + 1) (0 :: nat) 4 [10, 20, 30]) 7 =
     fixed_get_Hash (\<lambda>a b. 2 * a + 3 * b + 1) 0
       (fixed_Append (\<lambda>a b. 2 * a + 3 * b + 1) (fixed_run (\<lambda>a b. 2 * a + 3 * b + 1) 0 4 [10, 20, 30]) 7)"
proof -
  have r: "mth (\<lambda>a b. 2 * a + 3 * b + 1) (0 :: nat) [10, 20, 30] = 253"
    by code_simp
  show ?thesis
    using FixedMmr_root_and_prediction [of "[10, 20, 30]" 4 "\<lambda>a b. 2 * a + 3 * b + 1" "0 :: nat" 7] unfolding r by simp
qed

text \<open>C17: a \<open>CompactMmr\<close>, which keeps only the peaks, reports and predicts the same roots as a \<open>FixedMmr\<close> over the
  same appended hashes.\<close>

theorem CompactMmr_refines_FixedMmr:
  assumes "length hs < nTotal" and "nTotal < 2 ^ 63"
  shows "compact_get_Hash f z (compact_run f hs) = fixed_get_Hash f z (fixed_run f z nTotal hs) \<and>
    compact_get_PredictedHash f (compact_run f hs) hv = fixed_get_PredictedHash f (fixed_run f z nTotal hs) hv"
proof -
  have l: "length hs < 2 ^ 63 - 1" "length hs < fixed_capacity nTotal" using assms by (simp_all add: fixed_capacity_eq)
  have p: "compact_get_PredictedHash f (compact_run f hs) hv = mth f z (hs @ [hv])"
    using compact.predict_represents [OF compact.represents_run l(1)] l(1) by simp
  have q: "fixed_get_PredictedHash f (fixed_run f z nTotal hs) hv = mth f z (hs @ [hv])"
    using fixed_acc.predict_represents [OF fixed_acc.represents_run l(2)] l(2) by simp
  show ?thesis using l by (simp add: p q compact.root_run fixed_acc.root_run)
qed

theorem CompactMmr_refines_FixedMmr_witness:
  "compact_get_Hash (\<lambda>a b. 2 * a + 3 * b + 1) (0 :: nat) (compact_run (\<lambda>a b. 2 * a + 3 * b + 1) [1, 2, 3, 4, 5]) =
     fixed_get_Hash (\<lambda>a b. 2 * a + 3 * b + 1) 0 (fixed_run (\<lambda>a b. 2 * a + 3 * b + 1) 0 8 [1, 2, 3, 4, 5]) \<and>
   compact_get_PredictedHash (\<lambda>a b. 2 * a + 3 * b + 1) (compact_run (\<lambda>a b. 2 * a + 3 * b + 1) [1, 2, 3, 4, 5]) (9 :: nat) =
     fixed_get_PredictedHash (\<lambda>a b. 2 * a + 3 * b + 1) (fixed_run (\<lambda>a b. 2 * a + 3 * b + 1) 0 8 [1, 2, 3, 4, 5]) 9"
  by (rule CompactMmr_refines_FixedMmr) simp_all

text \<open>C18: the proof that \<open>get_Proof\<close> of a \<open>FixedMmr\<close> builds for a leaf leads from the leaf to the current root.\<close>

theorem FixedMmr_proof_leads_to_root:
  assumes "length hs \<le> nTotal" and "nTotal < 2 ^ 63" and "i < length hs"
  shows "interpret_proof f (hs ! i) (fixed_get_Proof f (fixed_run f z nTotal hs) hv [] i) =
    fixed_get_Hash f z (fixed_run f z nTotal hs)"
  using store.get_Proof_correct [OF fixed_run_store(2) [OF assms(1,2)] assms(3)]
    store.get_Hash_correct [OF fixed_run_store(2) [OF assms(1,2)]]
  by (simp add: fixed_get_Proof_def fixed_get_Hash_def fixed_run_store(3) [OF assms(1,2)])

theorem FixedMmr_proof_leads_to_root_witness:
  "interpret_proof (\<lambda>a b. 2 * a + 3 * b + 1) ([10, 20, 30] ! 1)
     (fixed_get_Proof (\<lambda>a b. 2 * a + 3 * b + 1) (fixed_run (\<lambda>a b. 2 * a + 3 * b + 1) (0 :: nat) 3 [10, 20, 30]) 0 [] 1) =
     fixed_get_Hash (\<lambda>a b. 2 * a + 3 * b + 1) 0 (fixed_run (\<lambda>a b. 2 * a + 3 * b + 1) 0 3 [10, 20, 30])"
  by (rule FixedMmr_proof_leads_to_root) simp_all

text \<open>C21: \<open>Replace\<close> of an existing leaf of a \<open>FixedMmr\<close> makes its root the root over the updated list of leaves.\<close>

theorem FixedMmr_Replace_updates_root:
  assumes "length hs \<le> nTotal" and "nTotal < 2 ^ 63" and "i < length hs"
  shows "fixed_get_Hash f z (fixed_Replace f (fixed_run f z nTotal hs) i hv) = mth f z (hs[i := hv])"
proof -
  let ?m = "fixed_run f z nTotal hs"
  have r: "fixed_represents f z nTotal ?m hs" by (rule fixed_run_store(1) [OF assms(1,2)])
  have h: "holds_tree f z fixed_LoadElement (m_Store ?m) hs" using r by (simp add: fixed_represents_def)
  have ft: "fixed_fits (m_Store ?m) (length hs)"
    using assms by (intro fixed_represents_fits [OF r]) (simp add: fixed_capacity_eq)
  note c = fixed.Replace_correct [OF h fixed_run_store(3) [OF assms(1,2)] assms(3) ft, of hv]
  have "store_represents f z fixed_LoadElement (m_Store (fixed_Replace f ?m i hv)) (hs[i := hv])"
    using c(1) assms by (simp add: store_represents_def fixed_Replace_def)
  from store.get_Hash_correct [OF this] show ?thesis
    using c(2) by (simp add: fixed_get_Hash_def fixed_Replace_def)
qed

theorem FixedMmr_Replace_updates_root_witness:
  "fixed_get_Hash (\<lambda>a b. 2 * a + 3 * b + 1) (0 :: nat)
     (fixed_Replace (\<lambda>a b. 2 * a + 3 * b + 1) (fixed_run (\<lambda>a b. 2 * a + 3 * b + 1) 0 4 [10, 20, 30]) 1 21) =
   mth (\<lambda>a b. 2 * a + 3 * b + 1) 0 ([10, 20, 30][1 := 21])"
  by (rule FixedMmr_Replace_updates_root) simp_all

text \<open>C20: a hard proof (hashes without sides) that a \<open>FixedMmr\<close> builds is accepted by \<open>HardVerifier::InterpretMmr\<close>
  for the index and the count, which consumes exactly the proof and arrives at the root.\<close>

theorem HardVerifier_accepts_FixedMmr_proof:
  assumes "length hs \<le> nTotal" and "nTotal < 2 ^ 63" and "i < length hs"
  shows "hard_InterpretMmr f z hv
      \<lparr>m_hv = hs ! i,
       m_rest = snd (mmr_get_Proof_with f (fixed_LoadElement (m_Store (fixed_run f z nTotal hs))) (length hs) hv'
         proofBuilderHard_AppendNode [] i) @ rest\<rparr> i (length hs) =
    (True, \<lparr>m_hv = mth f z hs, m_rest = rest\<rparr>)"
  by (rule store.hard_complete [OF fixed_run_store(2) [OF assms(1,2)] assms(3)])

theorem HardVerifier_accepts_FixedMmr_proof_witness:
  "hard_InterpretMmr (\<lambda>a b. 2 * a + 3 * b + 1) 0 0
      \<lparr>m_hv = [10, 20, 30] ! 2,
       m_rest = snd (mmr_get_Proof_with (\<lambda>a b. 2 * a + 3 * b + 1)
         (fixed_LoadElement (m_Store (fixed_run (\<lambda>a b. 2 * a + 3 * b + 1) (0 :: nat) 3 [10, 20, 30]))) (length [10, 20, 30 :: nat]) 0
         proofBuilderHard_AppendNode [] 2) @ [99]\<rparr> 2 (length [10, 20, 30 :: nat]) =
    (True, \<lparr>m_hv = mth (\<lambda>a b. 2 * a + 3 * b + 1) 0 [10, 20, 30], m_rest = [99]\<rparr>)"
  by (rule HardVerifier_accepts_FixedMmr_proof) simp_all



text \<open>\<open>FlatMmr::Pos2Idx\<close> gives the complete nodes over \<open>n\<close> leaves distinct places in an array of
  \<open>get_TotalHashes\<close> elements, without wrap-around of its 64-bit arithmetic.\<close>

theorem Pos2Idx_injective_and_bounded:
  assumes "n < 2 ^ 63" and "complete_pos n p" and "complete_pos n q"
  shows "(flat_Pos2Idx p 0 = flat_Pos2Idx q 0 \<longleftrightarrow> p = q) \<and> flat_Pos2Idx p 0 < flat_get_TotalHashes n 0"
proof -
  define s where "s = replicate (node_total n) ()"
  have ft: "fixed_fits s n" using assms(1) by (simp add: fixed_fits_def s_def)
  have e: "flat_Pos2Idx p 0 = node_index (pos_H p) (pos_X p)" "flat_Pos2Idx q 0 = node_index (pos_H q) (pos_X q)"
    using fixed_index(1) [OF ft assms(2)] fixed_index(1) [OF ft assms(3)] by (simp_all add: fixed_Pos2Idx_def)
  have "flat_Pos2Idx p 0 < node_total n"
    using fixed_index(2) [OF ft assms(2)] by (simp add: fixed_Pos2Idx_def s_def)
  moreover have "flat_Pos2Idx p 0 = flat_Pos2Idx q 0 \<longleftrightarrow> p = q"
    unfolding e using node_index_inject by (metis Position.equality unit.exhaust)
  ultimately show ?thesis using assms(1) by (simp add: flat_get_TotalHashes_eq)
qed

theorem Pos2Idx_injective_and_bounded_witness:
  "flat_Pos2Idx (pos 1 0) 0 = 2 \<and>
   (flat_Pos2Idx (pos 1 0) 0 = flat_Pos2Idx (pos 0 2) 0 \<longleftrightarrow> pos 1 0 = pos 0 2) \<and>
   flat_Pos2Idx (pos 1 0) 0 < flat_get_TotalHashes 3 0"
proof
  show "flat_Pos2Idx (pos 1 0) 0 = 2"
    by (simp add: flat_Pos2Idx_def flat_sum.simps u64_sub_def wrap64_def)
qed (rule Pos2Idx_injective_and_bounded; simp add: complete_pos_def)

end
