(* ===== verification/Merkle_MultiProof.thy ===== *)
theory Merkle_MultiProof
  imports Merkle_Store
begin

text \<open>
  \<open>MultiProof\<close> (\<open>src/core/merkle.h\<close>, \<open>src/core/merkle.cpp\<close>): the proofs of several leaves merged so that no hash is
  stored twice, its \<open>Builder\<close> and its \<open>Verifier\<close>.  The vectors \<open>m_vLast\<close> and \<open>m_vLastRev\<close> are used as stacks and
  are lists with the back of the vector first; the iterator pair of the verifier is the list of hashes not yet
  consumed; the pointer \<open>m_phvSibling\<close> is an option.  Shown: the verifier accepts, and consumes exactly, what
  the builder wrote for the same leaves, and a leaf that an accepting verifier was given is the leaf of the
  tree unless the hash function has a collision.
\<close>

section \<open>Builder\<close>

record 'h MpBuilder =
  b_vData :: "'h list"
  b_vLast :: "Position list"
  b_vLastRev :: "Position list"
  b_bSkipSibling :: bool

definition mpb_init :: "'h list \<Rightarrow> 'h MpBuilder" where
  "mpb_init d = \<lparr>b_vData = d, b_vLast = [], b_vLastRev = [], b_bSkipSibling = False\<rparr>"

text \<open>The loop over \<open>m_vLast\<close>: \<open>True\<close> when the same position is found.\<close>

fun mpb_pop :: "Position list \<Rightarrow> Position \<Rightarrow> bool \<times> Position list" where
  "mpb_pop [] p = (False, [])"
| "mpb_pop (p0 # st) p =
     (if pos_H p < pos_H p0 then (False, p0 # st)
      else if pos_H p0 = pos_H p \<and> pos_X p0 = pos_X p then (True, p0 # st)
      else mpb_pop st p)"

definition mpb_AppendNode :: "'h MpBuilder \<Rightarrow> 'h Node \<Rightarrow> Position \<Rightarrow> bool \<times> 'h MpBuilder" where
  "mpb_AppendNode b n p =
     (let (found, st) = mpb_pop (b_vLast b) p; b1 = b\<lparr>b_vLast := st\<rparr>
      in if found then (False, b1)
         else
           (let b2 = (if pos_H p \<noteq> 0 then b1\<lparr>b_vLastRev := p # b_vLastRev b1\<rparr> else b1)
            in (True, if pos_H p \<noteq> 0 \<or> \<not> b_bSkipSibling b2 then b2\<lparr>b_vData := b_vData b2 @ [snd n]\<rparr> else b2)))"

text \<open>\<open>Builder::Add\<close>; \<open>getProof\<close> is the virtual \<open>get_Proof\<close> of the derived class.\<close>

definition mpb_Add ::
  "(('h MpBuilder \<Rightarrow> 'h Node \<Rightarrow> Position \<Rightarrow> bool \<times> 'h MpBuilder) \<Rightarrow> 'h MpBuilder \<Rightarrow> nat \<Rightarrow> bool \<times> 'h MpBuilder) \<Rightarrow>
   'h MpBuilder \<Rightarrow> nat \<Rightarrow> 'h MpBuilder" where
  "mpb_Add getProof b i =
     (let b1 = snd (getProof mpb_AppendNode b i)
      in b1\<lparr>b_vLast := rev (b_vLastRev b1) @ b_vLast b1, b_vLastRev := [], b_bSkipSibling := False\<rparr>)"

section \<open>Verifier\<close>

record 'h MpNode =
  mn_hv :: 'h
  mn_Pos :: Position

record 'h MpVerifier =
  v_Count :: nat
  v_rest :: "'h list"
  v_vLast :: "'h MpNode list"
  v_vLastRev :: "'h MpNode list"
  v_hvPos :: 'h
  v_phvSibling :: "'h option"
  v_bVerify :: bool

definition mpv_init :: "'h list \<Rightarrow> nat \<Rightarrow> 'h \<Rightarrow> 'h MpVerifier" where
  "mpv_init d nCount hv =
     \<lparr>v_Count = nCount, v_rest = d, v_vLast = [], v_vLastRev = [], v_hvPos = hv, v_phvSibling = None, v_bVerify = True\<rparr>"

fun mpv_pop :: "'h MpNode list \<Rightarrow> Position \<Rightarrow> 'h MpNode option \<times> 'h MpNode list" where
  "mpv_pop [] p = (None, [])"
| "mpv_pop (mn # st) p =
     (if pos_H p < pos_H (mn_Pos mn) then (None, mn # st)
      else if pos_H (mn_Pos mn) = pos_H p \<and> pos_X (mn_Pos mn) = pos_X p then (Some mn, mn # st)
      else mpv_pop st p)"

text \<open>The end of \<open>Verifier::AppendNode\<close>: fold the sibling in.\<close>

definition mpv_fold :: "('h \<Rightarrow> 'h \<Rightarrow> 'h) \<Rightarrow> 'h MpVerifier \<Rightarrow> 'h \<Rightarrow> bool \<Rightarrow> 'h MpVerifier" where
  "mpv_fold f v s bRight =
     v\<lparr>v_hvPos := (if v_bVerify v then interpret_side f (v_hvPos v) s bRight else v_hvPos v), v_phvSibling := None\<rparr>"

definition mpv_AppendNode ::
  "('h \<Rightarrow> 'h \<Rightarrow> 'h) \<Rightarrow> 'h MpVerifier \<Rightarrow> 'h Node \<Rightarrow> Position \<Rightarrow> bool \<times> 'h MpVerifier" where
  "mpv_AppendNode f v n p =
     (case mpv_pop (v_vLast v) p of
        (Some mn, st) \<Rightarrow>
          (False, v\<lparr>v_vLast := st,
                    v_bVerify := (if v_bVerify v \<and> mn_hv mn \<noteq> v_hvPos v then False else v_bVerify v)\<rparr>)
      | (None, st) \<Rightarrow>
          (let v1 = v\<lparr>v_vLast := st,
                      v_vLastRev := (if pos_H p \<noteq> 0 then \<lparr>mn_hv = v_hvPos v, mn_Pos = p\<rparr> # v_vLastRev v
                                     else v_vLastRev v)\<rparr>
           in case v_phvSibling v1 of
                Some s \<Rightarrow> (True, mpv_fold f v1 s (fst n))
              | None \<Rightarrow>
                  (case v_rest v1 of
                     [] \<Rightarrow> (False, v1\<lparr>v_bVerify := False\<rparr>)
                   | s # rest \<Rightarrow> (True, mpv_fold f (v1\<lparr>v_rest := rest\<rparr>) s (fst n)))))"

text \<open>\<open>Verifier::Process\<close>; \<open>isRootValid\<close> is the virtual \<open>IsRootValid\<close>, \<open>z\<close> and \<open>hv\<close> are passed to \<open>InterpretPath\<close>.\<close>

definition mpv_Process ::
  "('h \<Rightarrow> 'h \<Rightarrow> 'h) \<Rightarrow> 'h \<Rightarrow> 'h \<Rightarrow> ('h \<Rightarrow> bool) \<Rightarrow> 'h MpVerifier \<Rightarrow> nat \<Rightarrow> 'h MpVerifier" where
  "mpv_Process f z hv isRootValid v i =
     (if v_Count v \<le> i then v\<lparr>v_bVerify := False\<rparr>
      else
        (let (ok, v1) = path_InterpretPath f z (v_Count v) hv (mpv_AppendNode f) v i;
             v2 = (if ok \<and> v_bVerify v1 \<and> \<not> isRootValid (v_hvPos v1) then v1\<lparr>v_bVerify := False\<rparr> else v1)
         in v2\<lparr>v_vLast := rev (v_vLastRev v2) @ v_vLast v2, v_vLastRev := []\<rparr>))"


section \<open>The verifier follows the builder\<close>

definition true_node :: "('h \<Rightarrow> 'h \<Rightarrow> 'h) \<Rightarrow> 'h \<Rightarrow> 'h list \<Rightarrow> 'h MpNode \<Rightarrow> bool" where
  "true_node f z xs mn \<longleftrightarrow> mn_hv mn = node_hash f z xs (pos_H (mn_Pos mn)) (pos_X (mn_Pos mn) XOR 1)"

definition mp_sim :: "('h \<Rightarrow> 'h \<Rightarrow> 'h) \<Rightarrow> 'h \<Rightarrow> 'h list \<Rightarrow> 'h MpBuilder \<Rightarrow> 'h MpVerifier \<Rightarrow> bool" where
  "mp_sim f z xs b v \<longleftrightarrow>
     b_vLast b = map mn_Pos (v_vLast v) \<and> b_vLastRev b = map mn_Pos (v_vLastRev v) \<and>
     list_all (true_node f z xs) (v_vLast v) \<and> list_all (true_node f z xs) (v_vLastRev v) \<and> v_bVerify v"

lemma mpv_pop_sim:
  "mpb_pop (map mn_Pos st) p = (fst (mpv_pop st p) \<noteq> None, map mn_Pos (snd (mpv_pop st p)))"
  by (induction st) auto

lemma mpv_pop_all: "list_all P st \<Longrightarrow> list_all P (snd (mpv_pop st p))"
  by (induction st) auto

lemma mpv_pop_found: "mpv_pop st p = (Some mn, st') \<Longrightarrow> list_all P st \<Longrightarrow> P mn \<and> mn_Pos mn = p"
  by (induction st) (auto split: if_splits)

text \<open>The sibling hash that the caller supplies instead of the proof.\<close>

definition given_sibling :: "bool \<Rightarrow> ('h Node \<times> Position) list \<Rightarrow> 'h option" where
  "given_sibling sk ps = (case ps of [] \<Rightarrow> None | (n, p) # _ \<Rightarrow> if sk \<and> pos_H p = 0 then Some (snd n) else None)"

lemma given_sibling_tl: "\<forall>(n, p) \<in> set ps. pos_H p \<noteq> 0 \<Longrightarrow> given_sibling sk ps = None"
  by (auto simp: given_sibling_def split: list.split)

lemma mpb_AppendNode_data:
  "mpb_AppendNode b n p = (ok, b1) \<Longrightarrow>
    b_vData b1 = b_vData b @ (if ok \<and> (pos_H p \<noteq> 0 \<or> \<not> b_bSkipSibling b) then [snd n] else []) \<and>
    b_bSkipSibling b1 = b_bSkipSibling b"
  by (auto simp: mpb_AppendNode_def Let_def split: prod.splits if_splits)

lemma feed_builder_grows: "feed mpb_AppendNode ps b = (ok, b') \<Longrightarrow> \<exists>dn. b_vData b' = b_vData b @ dn"
proof (induction ps arbitrary: b)
  case (Cons np ps)
  obtain n p where np: "np = (n, p)" by fastforce
  obtain ok1 b1 where s: "mpb_AppendNode b n p = (ok1, b1)" by fastforce
  obtain e where e: "b_vData b1 = b_vData b @ e" using mpb_AppendNode_data [OF s] by blast
  show ?case
  proof (cases ok1)
    case True
    then obtain dn where "b_vData b' = b_vData b1 @ dn" using Cons by (auto simp: np s)
    then show ?thesis using e by simp
  qed (use Cons.prems e in \<open>auto simp: np s\<close>)
qed simp

lemma append_sim_stop:
  assumes "mp_sim f z xs b v" and "v_hvPos v = node_hash f z xs (pos_H p) (pos_X p XOR 1)"
    and "mpb_AppendNode b n p = (False, b1)"
  shows "\<exists>v1. mpv_AppendNode f v m p = (False, v1) \<and> mp_sim f z xs b1 v1 \<and> v_rest v1 = v_rest v \<and>
    v_Count v1 = v_Count v"
proof -
  obtain mo st where q: "mpv_pop (v_vLast v) p = (mo, st)" by fastforce
  have pb: "mpb_pop (b_vLast b) p = (mo \<noteq> None, map mn_Pos st)"
    using mpv_pop_sim [of "v_vLast v" p] q assms(1) by (simp add: mp_sim_def)
  then obtain mn where mo: "mo = Some mn" and b1: "b1 = b\<lparr>b_vLast := map mn_Pos st\<rparr>"
    using assms(3) by (cases mo) (auto simp: mpb_AppendNode_def Let_def)
  have "mn_hv mn = v_hvPos v"
    using mpv_pop_found [OF q [unfolded mo], of "true_node f z xs"] assms(1,2)
    by (simp add: mp_sim_def true_node_def)
  moreover have "list_all (true_node f z xs) st"
    using mpv_pop_all [of "true_node f z xs" "v_vLast v" p] q assms(1) by (simp add: mp_sim_def)
  ultimately show ?thesis
    using assms(1) q by (simp add: mpv_AppendNode_def mo mp_sim_def b1)
qed

lemma append_sim_go:
  assumes "mp_sim f z xs b v" and "v_hvPos v = node_hash f z xs (pos_H p) (pos_X p XOR 1)"
    and "v_phvSibling v = (if b_bSkipSibling b \<and> pos_H p = 0 then Some (snd n) else None)"
    and "mpb_AppendNode b n p = (True, b1)" and "fst m = fst n"
    and "v_rest v = (if pos_H p \<noteq> 0 \<or> \<not> b_bSkipSibling b then [snd n] else []) @ r"
  shows "\<exists>v1. mpv_AppendNode f v m p = (True, v1) \<and> mp_sim f z xs b1 v1 \<and> v_rest v1 = r \<and>
    v_Count v1 = v_Count v \<and> v_phvSibling v1 = None \<and> v_hvPos v1 = interpret_node f (v_hvPos v) n"
proof -
  obtain mo st where q: "mpv_pop (v_vLast v) p = (mo, st)" by fastforce
  have pb: "mpb_pop (b_vLast b) p = (mo \<noteq> None, map mn_Pos st)"
    using mpv_pop_sim [of "v_vLast v" p] q assms(1) by (simp add: mp_sim_def)
  then have mo: "mo = None" using assms(4) by (cases mo) (auto simp: mpb_AppendNode_def Let_def)
  have "list_all (true_node f z xs) st"
    using mpv_pop_all [of "true_node f z xs" "v_vLast v" p] q assms(1) by (simp add: mp_sim_def)
  moreover have "b1 = b\<lparr>b_vLast := map mn_Pos st,
      b_vLastRev := (if pos_H p \<noteq> 0 then p # b_vLastRev b else b_vLastRev b),
      b_vData := b_vData b @ (if pos_H p \<noteq> 0 \<or> \<not> b_bSkipSibling b then [snd n] else [])\<rparr>"
    using assms(4) pb mo by (auto simp: mpb_AppendNode_def Let_def)
  ultimately show ?thesis
    using assms(1-3,5,6) q
    by (auto simp: mpv_AppendNode_def mo mp_sim_def mpv_fold_def interpret_node_def Let_def true_node_def
        split: option.splits list.splits if_splits)
qed

lemma feed_sim:
  assumes "true_path f z xs cur ps" and "map node_shape qs = map node_shape ps" and "mp_sim f z xs b v"
    and "v_hvPos v = cur" and "v_phvSibling v = given_sibling (b_bSkipSibling b) ps"
    and "\<forall>(n, p) \<in> set (tl ps). pos_H p \<noteq> 0"
    and "feed mpb_AppendNode ps b = (ok, b')" and "b_vData b' = b_vData b @ dn" and "v_rest v = dn @ rest"
  shows "\<exists>v'. feed (mpv_AppendNode f) qs v = (ok, v') \<and> mp_sim f z xs b' v' \<and> v_rest v' = rest \<and>
    (ok \<longrightarrow> v_hvPos v' = mth f z xs) \<and> v_Count v' = v_Count v"
  using assms
proof (induction ps arbitrary: cur qs b v dn)
  case Nil
  then show ?case by simp
next
  case (Cons np ps)
  obtain n p where np: "np = (n, p)" by fastforce
  obtain mq qs' where q: "qs = mq # qs'" "node_shape mq = node_shape np" "map node_shape qs' = map node_shape ps"
    using Cons.prems(2) by (cases qs) auto
  obtain m where qs: "qs = (m, p) # qs'" "fst m = fst n" "map node_shape qs' = map node_shape ps"
    using q by (cases mq) (auto simp: np node_shape_def)
  have cur: "v_hvPos v = node_hash f z xs (pos_H p) (pos_X p XOR 1)"
      "true_path f z xs (interpret_node f (v_hvPos v) n) ps"
    using Cons.prems(1,4) by (auto simp: np)
  obtain ok1 b1 where s: "mpb_AppendNode b n p = (ok1, b1)" by fastforce
  show ?case
  proof (cases ok1)
    case False
    then have "b' = b1" "\<not> ok" using Cons.prems(7) s by (simp_all add: np)
    moreover have "dn = []" using mpb_AppendNode_data [OF s] Cons.prems(8) False calculation by simp
    moreover obtain v1 where "mpv_AppendNode f v m p = (False, v1)" "mp_sim f z xs b1 v1"
        "v_rest v1 = v_rest v" "v_Count v1 = v_Count v"
      using append_sim_stop [OF Cons.prems(3) cur(1), of n b1 m] s False by auto
    ultimately show ?thesis using Cons.prems(9) by (simp add: qs)
  next
    case True
    have fb: "feed mpb_AppendNode ps b1 = (ok, b')" using Cons.prems(7) s True by (simp add: np)
    let ?e = "if pos_H p \<noteq> 0 \<or> \<not> b_bSkipSibling b then [snd n] else []"
    obtain dn' where dn': "b_vData b' = b_vData b1 @ dn'" using feed_builder_grows [OF fb] by blast
    have dn: "dn = ?e @ dn'" and sk: "b_bSkipSibling b1 = b_bSkipSibling b"
      using mpb_AppendNode_data [OF s] True Cons.prems(8) dn' by (auto split: if_splits)
    have sib: "v_phvSibling v = (if b_bSkipSibling b \<and> pos_H p = 0 then Some (snd n) else None)"
      using Cons.prems(5) by (simp add: np given_sibling_def)
    have "v_rest v = ?e @ dn' @ rest" using Cons.prems(9) unfolding dn by simp
    from append_sim_go [OF Cons.prems(3) cur(1) sib s [unfolded True [THEN eqTrueI]] qs(2) this]
    obtain v1 where v1: "mpv_AppendNode f v m p = (True, v1)" "mp_sim f z xs b1 v1" "v_rest v1 = dn' @ rest"
        "v_Count v1 = v_Count v" "v_phvSibling v1 = None" "v_hvPos v1 = interpret_node f (v_hvPos v) n"
      by blast
    have tl: "\<forall>(n, p) \<in> set ps. pos_H p \<noteq> 0" using Cons.prems(6) by simp
    then have "\<forall>(n, p) \<in> set (tl ps). pos_H p \<noteq> 0" by (cases ps) auto
    from Cons.IH [OF cur(2) qs(3) v1(2,6) _ this fb dn' v1(3)] show ?thesis
      using v1 given_sibling_tl [OF tl] by (simp add: qs sk)
  qed
qed

text \<open>Adding and processing a sequence of leaves.  An entry is the index of a leaf and whether its sibling leaf
  is left out of the proof (\<open>m_bSkipSibling\<close>, \<open>m_phvSibling\<close>).\<close>

definition mpb_run ::
  "(('h MpBuilder \<Rightarrow> 'h Node \<Rightarrow> Position \<Rightarrow> bool \<times> 'h MpBuilder) \<Rightarrow> 'h MpBuilder \<Rightarrow> nat \<Rightarrow> bool \<times> 'h MpBuilder) \<Rightarrow>
   'h MpBuilder \<Rightarrow> (nat \<times> bool) list \<Rightarrow> 'h MpBuilder" where
  "mpb_run getProof b js = foldl (\<lambda>b (i, sk). mpb_Add getProof (b\<lparr>b_bSkipSibling := sk\<rparr>) i) b js"

definition mpv_run ::
  "('h \<Rightarrow> 'h \<Rightarrow> 'h) \<Rightarrow> 'h \<Rightarrow> 'h \<Rightarrow> ('h \<Rightarrow> bool) \<Rightarrow> 'h MpVerifier \<Rightarrow> (nat \<times> 'h \<times> 'h option) list \<Rightarrow> 'h MpVerifier" where
  "mpv_run f z hv isRootValid v js =
     foldl (\<lambda>v (i, leaf, sib). mpv_Process f z hv isRootValid (v\<lparr>v_hvPos := leaf, v_phvSibling := sib\<rparr>) i) v js"

definition mp_claims :: "'h list \<Rightarrow> (nat \<times> bool) list \<Rightarrow> (nat \<times> 'h \<times> 'h option) list" where
  "mp_claims xs js = map (\<lambda>(i, sk). (i, xs ! i, if sk then Some (xs ! (i XOR 1)) else None)) js"

context mmr_reader
begin

lemma given_sibling_path:
  assumes "represents s xs" and "i < length xs" and "sk \<longrightarrow> i XOR 1 < length xs"
  shows "given_sibling sk (mmr_path f (load s) (length xs) False hv 0 (length xs) i) =
    (if sk then Some (xs ! (i XOR 1)) else None)"
proof (cases sk)
  case True
  have x: "i XOR 1 < length xs" using assms(3) True by simp
  then have w: "wrap64 (i XOR 1) = i XOR 1" using count_bound [OF assms(1)] by simp
  have "load s (pos 0 (i XOR 1)) = xs ! (i XOR 1)"
    using load_node [OF assms(1), of "i XOR 1" 0] x by (simp add: node_hash_0 Suc_le_eq)
  then have "snd (mmr_sibling f (load s) (length xs) False hv 0 i) = xs ! (i XOR 1)"
    using x w by (simp add: mmr_sibling_def Let_def)
  moreover have "mmr_path f (load s) (length xs) False hv 0 (length xs) i =
      (mmr_sibling f (load s) (length xs) False hv 0 i, pos 0 (i XOR 1)) #
      mmr_path f (load s) (length xs) False hv 1 (length xs div 2) (i div 2)"
    using assms(2) x w by (subst mmr_path_step) (auto simp: Let_def)
  ultimately show ?thesis using True by (simp add: given_sibling_def)
qed (simp add: given_sibling_def split: list.split)

lemma path_tl_heights:
  "\<forall>(n, p) \<in> set (tl (mmr_path f (load s) count ign hv 0 m i)). pos_H p \<noteq> 0"
proof (cases "m = 0")
  case False
  let ?R = "mmr_path f (load s) count ign hv 1 (m div 2) (i div 2)"
  have "1 \<le> pos_H p" if "(n, p) \<in> set ?R" for n p
    using mmr_path_heights [OF that] .
  then have R: "\<forall>(n, p) \<in> set ?R. pos_H p \<noteq> 0" by fastforce
  moreover have "set (tl ?R) \<subseteq> set ?R" by (cases ?R) auto
  ultimately show ?thesis using False by (subst mmr_path_step) (auto simp: Let_def)
qed (simp add: mmr_path_0)

lemma Process_sim:
  assumes "represents s xs" and "i < length xs" and "sk \<longrightarrow> i XOR 1 < length xs" and "mp_sim f z xs b v"
    and "v_Count v = length xs"
    and "b' = mpb_Add (mmr_get_Proof_with f (load s) (length xs) hv) (b\<lparr>b_bSkipSibling := sk\<rparr>) i"
    and "b_vData b' = b_vData b @ dn" and "v_rest v = dn @ rest"
    and "v' = mpv_Process f z hv' (\<lambda>h. h = mth f z xs)
      (v\<lparr>v_hvPos := xs ! i, v_phvSibling := (if sk then Some (xs ! (i XOR 1)) else None)\<rparr>) i"
  shows "mp_sim f z xs b' v' \<and> v_Count v' = length xs \<and> v_rest v' = rest"
proof -
  let ?ps = "mmr_path f (load s) (length xs) False hv 0 (length xs) i"
  let ?qs = "mmr_path f (\<lambda>_. z) (length xs) True hv' 0 (length xs) i"
  let ?b = "b\<lparr>b_bSkipSibling := sk\<rparr>"
  let ?v = "v\<lparr>v_hvPos := xs ! i, v_phvSibling := (if sk then Some (xs ! (i XOR 1)) else None)\<rparr>"
  obtain ok b1 where fb: "feed mpb_AppendNode ?ps ?b = (ok, b1)" by fastforce
  have b': "b' = b1\<lparr>b_vLast := rev (b_vLastRev b1) @ b_vLast b1, b_vLastRev := [], b_bSkipSibling := False\<rparr>"
    using fb assms(6) by (simp add: mpb_Add_def mmr_get_Proof_with_def mmr_get_ProofInternal_feed Let_def)
  have tp: "true_path f z xs (xs ! i) ?ps"
    using true_path_mmr_path [OF assms(1,2), of "length xs" 0 i hv] assms(2) by (simp add: node_hash_0)
  have sh: "map node_shape ?qs = map node_shape ?ps" by (rule mmr_path_shape)
  have "\<exists>v1. feed (mpv_AppendNode f) ?qs ?v = (ok, v1) \<and> mp_sim f z xs b1 v1 \<and> v_rest v1 = rest \<and>
      (ok \<longrightarrow> v_hvPos v1 = mth f z xs) \<and> v_Count v1 = v_Count ?v"
    using assms(4,7,8) b' given_sibling_path [OF assms(1-3)] path_tl_heights
    by (intro feed_sim [OF tp sh _ _ _ _ fb]) (simp_all add: mp_sim_def)
  then obtain v1 where v1: "feed (mpv_AppendNode f) ?qs ?v = (ok, v1)" "mp_sim f z xs b1 v1" "v_rest v1 = rest"
      "ok \<longrightarrow> v_hvPos v1 = mth f z xs" "v_Count v1 = length xs" using assms(5) by auto
  have "v' = v1\<lparr>v_vLast := rev (v_vLastRev v1) @ v_vLast v1, v_vLastRev := []\<rparr>"
    using assms(2,5,9) v1
    by (auto simp: mpv_Process_def path_InterpretPath_def mmr_get_ProofInternal_feed Let_def)
  then show ?thesis using v1 b' by (auto simp: mp_sim_def rev_map list_all_iff)
qed

lemma run_builder_grows:
  "\<exists>dn. b_vData (mpb_run (mmr_get_Proof_with f (load s) count hv) b js) = b_vData b @ dn"
proof (induction js arbitrary: b)
  case (Cons j js)
  obtain i sk where j: "j = (i, sk)" by fastforce
  let ?b = "b\<lparr>b_bSkipSibling := sk\<rparr>"
  obtain ok b1 where fb: "feed mpb_AppendNode (mmr_path f (load s) count False hv 0 count i) ?b = (ok, b1)" by fastforce
  obtain d1 where "b_vData b1 = b_vData ?b @ d1" using feed_builder_grows [OF fb] by blast
  then have "b_vData (mpb_Add (mmr_get_Proof_with f (load s) count hv) ?b i) = b_vData b @ d1"
    using fb by (simp add: mpb_Add_def mmr_get_Proof_with_def mmr_get_ProofInternal_feed Let_def)
  moreover obtain d2 where "b_vData (mpb_run (mmr_get_Proof_with f (load s) count hv)
        (mpb_Add (mmr_get_Proof_with f (load s) count hv) ?b i) js) =
      b_vData (mpb_Add (mmr_get_Proof_with f (load s) count hv) ?b i) @ d2"
    using Cons.IH by blast
  ultimately show ?case by (simp add: mpb_run_def j)
qed (simp add: mpb_run_def)

lemma run_sim:
  assumes "represents s xs" and "\<forall>(i, sk) \<in> set js. i < length xs \<and> (sk \<longrightarrow> i XOR 1 < length xs)"
    and "mp_sim f z xs b v" and "v_Count v = length xs"
    and "b' = mpb_run (mmr_get_Proof_with f (load s) (length xs) hv) b js"
    and "b_vData b' = b_vData b @ dn" and "v_rest v = dn @ rest"
    and "v' = mpv_run f z hv' (\<lambda>h. h = mth f z xs) v (mp_claims xs js)"
  shows "mp_sim f z xs b' v' \<and> v_rest v' = rest"
  using assms(2-)
proof (induction js arbitrary: b v dn)
  case Nil
  then show ?case by (simp add: mpb_run_def mpv_run_def mp_claims_def)
next
  case (Cons j js)
  obtain i sk where j: "j = (i, sk)" by fastforce
  define b1 where "b1 = mpb_Add (mmr_get_Proof_with f (load s) (length xs) hv) (b\<lparr>b_bSkipSibling := sk\<rparr>) i"
  define v1 where "v1 = mpv_Process f z hv' (\<lambda>h. h = mth f z xs)
    (v\<lparr>v_hvPos := xs ! i, v_phvSibling := (if sk then Some (xs ! (i XOR 1)) else None)\<rparr>) i"
  have il: "i < length xs" "sk \<longrightarrow> i XOR 1 < length xs" using Cons.prems(1) by (simp_all add: j)
  have b1r: "b1 = mpb_run (mmr_get_Proof_with f (load s) (length xs) hv) b [j]" by (simp add: mpb_run_def j b1_def)
  obtain d1 where d1: "b_vData b1 = b_vData b @ d1"
    unfolding b1r using run_builder_grows by blast
  have b': "b' = mpb_run (mmr_get_Proof_with f (load s) (length xs) hv) b1 js"
    using Cons.prems(4) by (simp add: mpb_run_def j b1_def)
  obtain d2 where d2: "b_vData b' = b_vData b1 @ d2" unfolding b' using run_builder_grows by blast
  have dn: "dn = d1 @ d2" using d1 d2 Cons.prems(5) by simp
  have "mp_sim f z xs b1 v1 \<and> v_Count v1 = length xs \<and> v_rest v1 = d2 @ rest"
    using Cons.prems(6) unfolding dn
    by (intro Process_sim [OF assms(1) il Cons.prems(2,3) b1_def d1 _ v1_def]) simp
  moreover have "v' = mpv_run f z hv' (\<lambda>h. h = mth f z xs) v1 (mp_claims xs js)"
    using Cons.prems(7) by (simp add: mpv_run_def mp_claims_def j v1_def)
  ultimately show ?case
    using Cons.prems(1) by (intro Cons.IH [OF _ _ _ b' d2]) simp_all
qed

lemma multi_complete:
  assumes "represents s xs" and "\<forall>(i, sk) \<in> set js. i < length xs \<and> (sk \<longrightarrow> i XOR 1 < length xs)"
    and "d = b_vData (mpb_run (mmr_get_Proof_with f (load s) (length xs) hv) (mpb_init []) js)"
    and "v = mpv_run f z hv' (\<lambda>h. h = mth f z xs) (mpv_init (d @ rest) (length xs) h0) (mp_claims xs js)"
  shows "v_bVerify v \<and> v_rest v = rest"
  using run_sim [OF assms(1,2) _ _ refl _ _ assms(4), of "mpb_init []" hv d rest] assms(3)
  by (simp add: mp_sim_def mpb_init_def mpv_init_def)

end

section \<open>An accepting verifier was given the leaves of the tree\<close>

definition collision :: "('h \<Rightarrow> 'h \<Rightarrow> 'h) \<Rightarrow> bool" where
  "collision f \<longleftrightarrow> (\<exists>l r l' r'. (l, r) \<noteq> (l', r') \<and> f l r = f l' r')"

lemma interpret_side_inject:
  "\<not> collision f \<Longrightarrow> interpret_side f a s d = interpret_side f b t d \<Longrightarrow> a = b"
  by (auto simp: collision_def interpret_side_def split: if_splits)

lemma mpv_AppendNode_verify: "mpv_AppendNode f v n p = (ok, v') \<Longrightarrow> v_bVerify v' \<Longrightarrow> v_bVerify v"
  by (auto simp: mpv_AppendNode_def mpv_fold_def Let_def split: prod.splits option.splits list.splits if_splits)

lemma feed_verify: "feed (mpv_AppendNode f) qs v = (ok, v') \<Longrightarrow> v_bVerify v' \<Longrightarrow> v_bVerify v"
proof (induction qs arbitrary: v)
  case (Cons q qs)
  obtain n p where q: "q = (n, p)" by fastforce
  obtain ok1 v1 where s: "mpv_AppendNode f v n p = (ok1, v1)" by fastforce
  show ?case
    using Cons mpv_AppendNode_verify [OF s] by (cases ok1) (auto simp: q s)
qed simp

text \<open>One call of \<open>AppendNode\<close> by an accepting verifier.\<close>

lemma mpv_AppendNode_cases:
  assumes "mpv_AppendNode f v n p = (ok, v')" and "v_bVerify v'"
  obtains (stop) mn st where "\<not> ok" "mpv_pop (v_vLast v) p = (Some mn, st)" "mn_hv mn = v_hvPos v"
      "v_vLast v' = st" "v_vLastRev v' = v_vLastRev v"
  | (go) t st where "ok" "mpv_pop (v_vLast v) p = (None, st)" "v_hvPos v' = interpret_side f (v_hvPos v) t (fst n)"
      "v_vLast v' = st" "set (v_vLastRev v') \<subseteq> set (v_vLastRev v) \<union> {\<lparr>mn_hv = v_hvPos v, mn_Pos = p\<rparr>}"
proof -
  obtain mo st where q: "mpv_pop (v_vLast v) p = (mo, st)" by fastforce
  show thesis
  proof (cases mo)
    case (Some mn)
    then show thesis using assms q
      by (intro stop [of mn st]) (auto simp: mpv_AppendNode_def split: if_splits)
  next
    case None
    then obtain t where "ok" "v_hvPos v' = interpret_side f (v_hvPos v) t (fst n)" "v_vLast v' = st"
        "set (v_vLastRev v') \<subseteq> set (v_vLastRev v) \<union> {\<lparr>mn_hv = v_hvPos v, mn_Pos = p\<rparr>}"
      using assms q by (auto simp: mpv_AppendNode_def mpv_fold_def Let_def split: option.splits list.splits if_splits)
        blast+
    then show thesis using q None by (intro go) simp_all
  qed
qed

lemma feed_count: "feed (mpv_AppendNode f) qs v = (ok, v') \<Longrightarrow> v_Count v' = v_Count v"
proof (induction qs arbitrary: v)
  case (Cons q qs)
  obtain n p where q: "q = (n, p)" by fastforce
  obtain ok1 v1 where s: "mpv_AppendNode f v n p = (ok1, v1)" by fastforce
  have "v_Count v1 = v_Count v" using s
    by (auto simp: mpv_AppendNode_def mpv_fold_def Let_def split: prod.splits option.splits list.splits)
  then show ?case using Cons by (cases ok1) (auto simp: q s)
qed simp

lemma Process_verify:
  assumes "v_bVerify (mpv_Process f z hv R v i)"
  shows "v_bVerify v"
proof -
  obtain ok v1 where fd: "feed (mpv_AppendNode f) (mmr_path f (\<lambda>_. z) (v_Count v) True hv 0 (v_Count v) i) v = (ok, v1)"
    by fastforce
  have "v_bVerify v1"
    using assms fd
    by (auto simp: mpv_Process_def path_InterpretPath_def mmr_get_ProofInternal_feed Let_def split: if_splits)
  with fd show ?thesis by (rule feed_verify)
qed

lemma run_verify: "v_bVerify (mpv_run f z hv R v js) \<Longrightarrow> v_bVerify v"
proof (induction js arbitrary: v)
  case (Cons j js)
  obtain i leaf sib where j: "j = (i, leaf, sib)" by (metis prod_cases3)
  have "v_bVerify (mpv_Process f z hv R (v\<lparr>v_hvPos := leaf, v_phvSibling := sib\<rparr>) i)"
    by (rule Cons.IH) (use Cons.prems in \<open>simp add: mpv_run_def j\<close>)
  from Process_verify [OF this] show ?case by simp
qed (simp add: mpv_run_def)

lemma feed_sound:
  assumes "\<not> collision f" and "true_path f z xs cur ps" and "map node_shape qs = map node_shape ps"
    and "feed (mpv_AppendNode f) qs v = (ok, v')" and "v_bVerify v'" and "ok \<longrightarrow> v_hvPos v' = mth f z xs"
    and "list_all (true_node f z xs) (v_vLast v)"
  shows "v_hvPos v = cur \<and> list_all (true_node f z xs) (v_vLast v') \<and>
    set (v_vLastRev v') \<subseteq> set (v_vLastRev v) \<union> Collect (true_node f z xs)"
  using assms(2-)
proof (induction ps arbitrary: cur qs v)
  case Nil
  then show ?case by auto
next
  case (Cons np ps)
  obtain n p where np: "np = (n, p)" by fastforce
  obtain mq qs' where q: "qs = mq # qs'" "node_shape mq = node_shape np" "map node_shape qs' = map node_shape ps"
    using Cons.prems(2) by (cases qs) auto
  obtain m where qs: "qs = (m, p) # qs'" "fst m = fst n" "map node_shape qs' = map node_shape ps"
    using q by (cases mq) (auto simp: np node_shape_def)
  have cur: "cur = node_hash f z xs (pos_H p) (pos_X p XOR 1)" "true_path f z xs (interpret_node f cur n) ps"
    using Cons.prems(1) by (auto simp: np)
  obtain ok1 v1 where s: "mpv_AppendNode f v m p = (ok1, v1)" by fastforce
  have v1: "v_bVerify v1"
    using Cons.prems(3,4) feed_verify [of f qs' v1 ok v'] by (cases ok1) (auto simp: qs s)
  show ?case
  proof (rule mpv_AppendNode_cases [OF s v1])
    fix mn st
    assume a: "\<not> ok1" "mpv_pop (v_vLast v) p = (Some mn, st)" "mn_hv mn = v_hvPos v"
      "v_vLast v1 = st" "v_vLastRev v1 = v_vLastRev v"
    have "v' = v1" using Cons.prems(3) a(1) by (simp add: qs s)
    moreover have "true_node f z xs mn \<and> mn_Pos mn = p" by (rule mpv_pop_found [OF a(2) Cons.prems(6)])
    moreover have "list_all (true_node f z xs) st"
      using mpv_pop_all [OF Cons.prems(6), of p] a(2) by simp
    moreover have "v_hvPos v = cur" using calculation a(3) cur(1) by (auto simp: true_node_def)
    ultimately show ?thesis using a by auto
  next
    fix t st
    assume a: "ok1" "mpv_pop (v_vLast v) p = (None, st)" "v_hvPos v1 = interpret_side f (v_hvPos v) t (fst m)"
      "v_vLast v1 = st" "set (v_vLastRev v1) \<subseteq> set (v_vLastRev v) \<union> {\<lparr>mn_hv = v_hvPos v, mn_Pos = p\<rparr>}"
    have "feed (mpv_AppendNode f) qs' v1 = (ok, v')" using Cons.prems(3) a(1) by (simp add: qs s)
    moreover have "list_all (true_node f z xs) (v_vLast v1)"
      using mpv_pop_all [OF Cons.prems(6), of p] a(2,4) by simp
    ultimately have IH: "v_hvPos v1 = interpret_node f cur n" "list_all (true_node f z xs) (v_vLast v')"
        "set (v_vLastRev v') \<subseteq> set (v_vLastRev v1) \<union> Collect (true_node f z xs)"
      using Cons.IH [OF cur(2) qs(3)] Cons.prems(4,5) by blast+
    have "v_hvPos v = cur"
      using interpret_side_inject [OF assms(1), of "v_hvPos v" t "fst m" cur "snd n"] IH(1) a(3) qs(2)
      by (simp add: interpret_node_def)
    moreover have "true_node f z xs \<lparr>mn_hv = v_hvPos v, mn_Pos = p\<rparr>"
      using calculation cur(1) by (simp add: true_node_def)
    ultimately show ?thesis using IH(2,3) a(5) by auto
  qed
qed

context mmr_reader
begin

lemma Process_sound:
  assumes nc: "\<not> collision f" and rep: "represents s xs" and cnt: "v_Count v = length xs"
    and run: "v' = mpv_Process f z hv' (\<lambda>h. h = mth f z xs) (v\<lparr>v_hvPos := leaf, v_phvSibling := sib\<rparr>) i"
    and ok: "v_bVerify v'" and inv: "list_all (true_node f z xs) (v_vLast v)" "v_vLastRev v = []"
  shows "i < length xs \<and> leaf = xs ! i \<and> list_all (true_node f z xs) (v_vLast v') \<and> v_vLastRev v' = [] \<and>
    v_Count v' = length xs \<and> v_bVerify v"
proof -
  let ?ps = "mmr_path f (load s) (length xs) False hv' 0 (length xs) i"
  let ?qs = "mmr_path f (\<lambda>_. z) (length xs) True hv' 0 (length xs) i"
  let ?v = "v\<lparr>v_hvPos := leaf, v_phvSibling := sib\<rparr>"
  have il: "i < length xs" using run ok cnt by (auto simp: mpv_Process_def split: if_splits)
  obtain r v1 where fd: "feed (mpv_AppendNode f) ?qs ?v = (r, v1)" by fastforce
  have c1: "v_Count v1 = v_Count ?v" using fd by (rule feed_count)
  have v': "v_bVerify v1" "r \<longrightarrow> v_hvPos v1 = mth f z xs"
      "v' = v1\<lparr>v_vLast := rev (v_vLastRev v1) @ v_vLast v1, v_vLastRev := []\<rparr>"
    using run ok il cnt fd
    by (auto simp: mpv_Process_def path_InterpretPath_def mmr_get_ProofInternal_feed Let_def split: if_splits)
  have tp: "true_path f z xs (xs ! i) ?ps"
    using true_path_mmr_path [OF rep il, of "length xs" 0 i hv'] il by (simp add: node_hash_0)
  have sh: "map node_shape ?qs = map node_shape ?ps" by (rule mmr_path_shape)
  have "v_hvPos ?v = xs ! i \<and> list_all (true_node f z xs) (v_vLast v1) \<and>
      set (v_vLastRev v1) \<subseteq> set (v_vLastRev ?v) \<union> Collect (true_node f z xs)"
    by (rule feed_sound [OF nc tp sh fd v'(1,2)]) (simp add: inv)
  moreover have "v_bVerify v" using feed_verify [OF fd v'(1)] by simp
  ultimately show ?thesis using il v'(3) inv(2) c1 cnt by (auto simp: list_all_iff)
qed

lemma multi_sound:
  assumes "\<not> collision f" and "represents s xs" and "v_Count v = length xs"
    and "v_bVerify (mpv_run f z hv' (\<lambda>h. h = mth f z xs) v js)"
    and "list_all (true_node f z xs) (v_vLast v)" and "v_vLastRev v = []"
  shows "\<forall>(i, leaf, sib) \<in> set js. i < length xs \<and> leaf = xs ! i"
  using assms(3-)
proof (induction js arbitrary: v)
  case (Cons j js)
  obtain i leaf sib where j: "j = (i, leaf, sib)" by (metis prod_cases3)
  define v1 where "v1 = mpv_Process f z hv' (\<lambda>h. h = mth f z xs) (v\<lparr>v_hvPos := leaf, v_phvSibling := sib\<rparr>) i"
  have ok: "v_bVerify (mpv_run f z hv' (\<lambda>h. h = mth f z xs) v1 js)"
    using Cons.prems(2) by (simp add: mpv_run_def j v1_def)
  then have "v_bVerify v1" by (rule run_verify)
  from Process_sound [OF assms(1,2) Cons.prems(1) v1_def this Cons.prems(3,4)]
  have p: "i < length xs" "leaf = xs ! i" "list_all (true_node f z xs) (v_vLast v1)" "v_vLastRev v1 = []"
      "v_Count v1 = length xs" by simp_all
  show ?case using Cons.IH [OF p(5) ok p(3,4)] p(1,2) by (simp add: j)
qed simp

end

section \<open>Properties\<close>

text \<open>C2: a \<open>MultiProof\<close> built over a \<open>FlyMmr\<close> for any sequence of leaves (each with or without its sibling leaf
  left out) makes the verifier, given the leaves in the same sequence, accept, and is consumed exactly.\<close>

theorem MultiProof_complete:
  assumes "fly_represents leaf xs"
    and "\<forall>(i, sk) \<in> set js. i < length xs \<and> (sk \<longrightarrow> i XOR 1 < length xs)"
    and "d = b_vData (mpb_run (fly_get_Proof f leaf (length xs) hv) (mpb_init []) js)"
    and "v = mpv_run f z hv' (\<lambda>h. h = mth f z xs) (mpv_init (d @ rest) (length xs) h0) (mp_claims xs js)"
  shows "v_bVerify v \<and> v_rest v = rest"
  by (rule fly.multi_complete [OF assms(1,2) assms(3) [unfolded fly_get_Proof_eq] assms(4)])

theorem MultiProof_complete_witness:
  "v_bVerify (mpv_run (\<lambda>a b. 2 * a + 3 * b + 1) 0 0 (\<lambda>h. h = mth (\<lambda>a b. 2 * a + 3 * b + 1) 0 [10, 20, 30, 40, 50])
      (mpv_init (b_vData (mpb_run (fly_get_Proof (\<lambda>a b. 2 * a + 3 * b + 1) (\<lambda>i. [10, 20, 30, 40, 50 :: nat] ! i)
        (length [10, 20, 30, 40, 50 :: nat]) 0) (mpb_init []) [(0, False), (1, True), (4, False)]) @ [7])
        (length [10, 20, 30, 40, 50 :: nat]) 0)
      (mp_claims [10, 20, 30, 40, 50] [(0, False), (1, True), (4, False)])) \<and>
   v_rest (mpv_run (\<lambda>a b. 2 * a + 3 * b + 1) 0 0 (\<lambda>h. h = mth (\<lambda>a b. 2 * a + 3 * b + 1) 0 [10, 20, 30, 40, 50])
      (mpv_init (b_vData (mpb_run (fly_get_Proof (\<lambda>a b. 2 * a + 3 * b + 1) (\<lambda>i. [10, 20, 30, 40, 50 :: nat] ! i)
        (length [10, 20, 30, 40, 50 :: nat]) 0) (mpb_init []) [(0, False), (1, True), (4, False)]) @ [7])
        (length [10, 20, 30, 40, 50 :: nat]) 0)
      (mp_claims [10, 20, 30, 40, 50] [(0, False), (1, True), (4, False)])) = [7]"
  by (rule MultiProof_complete [OF _ _ refl refl]) (simp_all add: fly_represents_def nat_xor_Suc_0)

text \<open>C1: when a \<open>MultiProof\<close> verifier that checks against the root of a tree still accepts after a sequence of
  leaves, whatever the proof data, every leaf it was given is the leaf of the tree at its index, unless the
  hash function has a collision.\<close>

theorem MultiProof_sound:
  assumes "length xs < 2 ^ 63"
    and "v_bVerify (mpv_run f z hv (\<lambda>h. h = mth f z xs) (mpv_init d (length xs) h0) js)"
  shows "collision f \<or> (\<forall>(i, leaf, sib) \<in> set js. i < length xs \<and> leaf = xs ! i)"
proof -
  have "fly_represents (\<lambda>i. xs ! i) xs" using assms(1) by (simp add: fly_represents_def)
  from fly.multi_sound [OF _ this _ assms(2)] show ?thesis by (auto simp: mpv_init_def)
qed

theorem MultiProof_sound_witness:
  "collision (\<lambda>a b. 2 * a + 3 * b + 1 :: nat) \<or>
   (\<forall>(i, leaf, sib) \<in> set [(0 :: nat, 10 :: nat, None :: nat option)]. i < length [10, 20 :: nat] \<and> leaf = [10, 20] ! i)"
proof (rule MultiProof_sound)
  show "length [10, 20 :: nat] < 2 ^ 63" by simp
  have "mth (\<lambda>a b. 2 * a + 3 * b + 1) (0 :: nat) [10, 20] = 81" by code_simp
  then show "v_bVerify (mpv_run (\<lambda>a b. 2 * a + 3 * b + 1 :: nat) 0 0 (\<lambda>h. h = mth (\<lambda>a b. 2 * a + 3 * b + 1) 0 [10, 20])
      (mpv_init [20] (length [10, 20 :: nat]) 0) [(0, 10, None)])"
    by (simp add: mpv_run_def mpv_Process_def mpv_init_def path_InterpretPath_def mmr_get_ProofInternal_def
        mmr_Proof_loop.simps mpv_AppendNode_def mpv_fold_def Let_def wrap64_def interpret_side_def nat_xor_Suc_0)
qed

end
