(* ===== verification/Multi_Precision.thy ===== *)
theory Multi_Precision
  imports Beam_Prelude
begin

text \<open>
  The multi-word integers of the contract library, \<open>MultiPrecision::UInt\<close> of \<open>src/bvm/Shaders/Math.h\<close>.  A value
  of \<open>UInt<n>\<close> is the list of its \<open>n\<close> 32-bit words, the least significant first: the template recursion on the base
  class \<open>UInt<n - 1>\<close> is recursion on the number of words, \<open>get_Val<d>\<close> and \<open>set_Val<d>\<close> are \<open>mp_get\<close> and \<open>mp_set\<close>
  (words are counted from 1; a word that does not exist reads as zero and is not written).  Carries are 64-bit words as
  in the source; the borrow of a subtraction, a signed 64-bit value between \<open>-1\<close> and 0 plus two words, is an integer.
  The lemmas relate the routines to addition, subtraction, multiplication and comparison of the denoted numbers.
\<close>

section \<open>Bits\<close>

function get_BitsUsed :: "nat \<Rightarrow> 'a::len word \<Rightarrow> nat" where
  "get_BitsUsed nBits x =
    (let nHalf = nBits div 2 in
     if nHalf > 0 then
       let x1 = drop_bit nHalf x in
       if x1 \<noteq> 0 then nHalf + get_BitsUsed nHalf x1 else 0 + get_BitsUsed nHalf x
     else unat x)"
  by pat_completeness auto
termination by (relation "measure fst") auto

declare get_BitsUsed.simps [simp del]

definition FindHiBit :: "'a::len word \<Rightarrow> nat" where
  "FindHiBit x = get_BitsUsed LENGTH('a) x"

lemma get_BitsUsed_bounds:
  "unat x < 2 ^ 2 ^ k \<Longrightarrow>
    unat x < 2 ^ get_BitsUsed (2 ^ k) x \<and> (x \<noteq> 0 \<longrightarrow> 0 < get_BitsUsed (2 ^ k) x \<and> 2 ^ (get_BitsUsed (2 ^ k) x - 1) \<le> unat x)"
proof (induction k arbitrary: x)
  case 0
  then have "unat x = 0 \<or> unat x = 1" by auto
  moreover have "get_BitsUsed (Suc 0) x = unat x" by (subst get_BitsUsed.simps) simp
  ultimately show ?case by (auto simp: unat_eq_zero)
next
  case (Suc k)
  let ?h = "2 ^ k :: nat" and ?x1 = "drop_bit (2 ^ k) x"
  have h: "2 ^ Suc k div 2 = ?h" "0 < ?h" by simp_all
  have u: "unat ?x1 = unat x div 2 ^ ?h" by (simp add: unat_drop_bit)
  show ?case
  proof (cases "?x1 = 0")
    case True
    then have "unat x div 2 ^ ?h = 0" using u by simp
    then have lt: "unat x < 2 ^ ?h" by (simp add: div_eq_0_iff)
    show ?thesis using Suc.IH [OF lt] True
      by (subst (1 2 3) get_BitsUsed.simps) (simp only: h Let_def if_True, simp)
  next
    case False
    have lt: "unat ?x1 < 2 ^ 2 ^ k"
      using Suc.prems unfolding u by (simp add: div_less_iff_less_mult power_add [symmetric] mult_2)
    define r where "r = get_BitsUsed (2 ^ k) ?x1"
    have r: "unat ?x1 < 2 ^ r" "0 < r" "2 ^ (r - 1) \<le> unat ?x1"
      using Suc.IH [OF lt] False by (simp_all add: r_def)
    have e: "get_BitsUsed (2 ^ Suc k) x = ?h + r"
      using False by (subst get_BitsUsed.simps) (simp only: h Let_def if_True r_def, simp)
    have "unat x < 2 ^ (?h + r)"
      using r(1) unfolding u by (simp add: div_less_iff_less_mult power_add mult.commute)
    moreover have "2 ^ (?h + r - 1) \<le> unat x"
    proof -
      have "2 ^ (?h + r - 1) = 2 ^ (r - 1) * (2 :: nat) ^ ?h" using r(2) by (simp add: power_add [symmetric])
      also have "\<dots> \<le> unat x" using r(3) unfolding u by (simp add: less_eq_div_iff_mult_less_eq)
      finally show ?thesis .
    qed
    ultimately show ?thesis unfolding e using r(2) by simp
  qed
qed

lemma FindHiBit_u32:
  fixes x :: u32
  shows "unat x < 2 ^ FindHiBit x" and "x \<noteq> 0 \<Longrightarrow> 0 < FindHiBit x \<and> 2 ^ (FindHiBit x - 1) \<le> unat x"
    and "FindHiBit x \<le> 32"
proof -
  have b: "unat x < 2 ^ 2 ^ 5" using unat_u32_less [of x] by simp
  have F: "FindHiBit x = get_BitsUsed (2 ^ 5) x" by (simp add: FindHiBit_def)
  show "unat x < 2 ^ FindHiBit x" and c: "x \<noteq> 0 \<Longrightarrow> 0 < FindHiBit x \<and> 2 ^ (FindHiBit x - 1) \<le> unat x"
    using get_BitsUsed_bounds [OF b] unfolding F by simp_all
  show "FindHiBit x \<le> 32"
  proof (rule ccontr)
    assume n: "\<not> FindHiBit x \<le> 32"
    then have "x \<noteq> 0" by (auto simp: F get_BitsUsed.simps)
    with c have "2 ^ (FindHiBit x - 1) \<le> unat x" by simp
    moreover have "(2 :: nat) ^ 32 \<le> 2 ^ (FindHiBit x - 1)" using n by (intro power_increasing) simp_all
    ultimately show False using b by simp
  qed
qed

lemma FindHiBit_u64:
  fixes x :: u64
  shows "unat x < 2 ^ FindHiBit x" and "x \<noteq> 0 \<Longrightarrow> 0 < FindHiBit x \<and> 2 ^ (FindHiBit x - 1) \<le> unat x"
    and "FindHiBit x \<le> 64"
proof -
  have b: "unat x < 2 ^ 2 ^ 6" using unat_u64_less [of x] by simp
  have F: "FindHiBit x = get_BitsUsed (2 ^ 6) x" by (simp add: FindHiBit_def)
  show "unat x < 2 ^ FindHiBit x" and c: "x \<noteq> 0 \<Longrightarrow> 0 < FindHiBit x \<and> 2 ^ (FindHiBit x - 1) \<le> unat x"
    using get_BitsUsed_bounds [OF b] unfolding F by simp_all
  show "FindHiBit x \<le> 64"
  proof (rule ccontr)
    assume n: "\<not> FindHiBit x \<le> 64"
    then have "x \<noteq> 0" by (auto simp: F get_BitsUsed.simps)
    with c have "2 ^ (FindHiBit x - 1) \<le> unat x" by simp
    moreover have "(2 :: nat) ^ 64 \<le> 2 ^ (FindHiBit x - 1)" using n by (intro power_increasing) simp_all
    ultimately show False using b by simp
  qed
qed

section \<open>The words of a number\<close>

type_synonym UInt = "u32 list"

definition mp_get :: "UInt \<Rightarrow> nat \<Rightarrow> u32" where
  "mp_get a d = (if 1 \<le> d \<and> d \<le> length a then a ! (d - 1) else 0)"

definition mp_set :: "UInt \<Rightarrow> nat \<Rightarrow> u32 \<Rightarrow> UInt" where
  "mp_set a d x = (if 1 \<le> d \<and> d \<le> length a then a[d - 1 := x] else a)"

definition mp_Fill :: "nat \<Rightarrow> u32 \<Rightarrow> UInt" where
  "mp_Fill n x = replicate n x"

definition mp_IsZeroRange :: "nat \<Rightarrow> nat \<Rightarrow> UInt \<Rightarrow> bool" where
  "mp_IsZeroRange w0 w1 a = list_all (\<lambda>d. w0 < d \<and> d \<le> w1 \<longrightarrow> mp_get a d = 0) [1..<Suc (length a)]"

definition mp_IsZero :: "UInt \<Rightarrow> bool" where
  "mp_IsZero a = mp_IsZeroRange 0 (length a) a"

definition mp_Assign :: "nat \<Rightarrow> nat \<Rightarrow> UInt \<Rightarrow> UInt" where
  "mp_Assign n nShiftWords a = map (\<lambda>d. if nShiftWords \<le> d then mp_get a (d - nShiftWords) else 0) [1..<Suc n]"

fun mp_set_Ord :: "nat \<Rightarrow> nat \<Rightarrow> u64 \<Rightarrow> u64 \<times> UInt" where
  "mp_set_Ord 0 nShiftWords val = (val, [])"
| "mp_set_Ord (Suc n) nShiftWords val =
    (if Suc n \<le> nShiftWords then (val, snd (mp_set_Ord n nShiftWords 0) @ [0])
     else let (val, r) = mp_set_Ord n nShiftWords val in (drop_bit 32 val, r @ [ucast val]))"

fun mp_get_Ord :: "nat \<Rightarrow> nat \<Rightarrow> UInt \<Rightarrow> u64" where
  "mp_get_Ord 0 nShiftWords a = 0"
| "mp_get_Ord (Suc n) nShiftWords a =
    (let res = mp_get_Ord n nShiftWords a in
     if nShiftWords \<le> n \<and> n - nShiftWords < 2
     then res OR push_bit ((n - nShiftWords) * 32) (ucast (mp_get a (Suc n))) else res)"

definition mp_From :: "u64 \<Rightarrow> UInt" where
  "mp_From x = snd (mp_set_Ord 2 0 x)"

definition mp_FromEx :: "nat \<Rightarrow> u64 \<Rightarrow> UInt" where
  "mp_FromEx nShiftWords x = snd (mp_set_Ord (2 + nShiftWords) nShiftWords x)"

definition mp_ToBE :: "UInt \<Rightarrow> bytes" where
  "mp_ToBE a = concat (map (\<lambda>w. be_bytes 4 (unat w)) (rev a))"

fun mp_FromBE :: "nat \<Rightarrow> bytes \<Rightarrow> UInt" where
  "mp_FromBE 0 p = []"
| "mp_FromBE (Suc n) p = mp_FromBE n (drop 4 p) @ [of_nat (be_val (take 4 p))]"

section \<open>Arithmetic\<close>

fun mp_SetAdd :: "nat \<Rightarrow> UInt \<Rightarrow> UInt \<Rightarrow> u64 \<times> UInt" where
  "mp_SetAdd 0 a b = (0, [])"
| "mp_SetAdd (Suc n) a b =
    (let (carry, r) = mp_SetAdd n a b;
         carry = carry + ucast (mp_get a (Suc n));
         carry = carry + ucast (mp_get b (Suc n))
     in (drop_bit 32 carry, r @ [ucast carry]))"

fun mp_SetSub :: "nat \<Rightarrow> UInt \<Rightarrow> UInt \<Rightarrow> int \<times> UInt" where
  "mp_SetSub 0 a b = (0, [])"
| "mp_SetSub (Suc n) a b =
    (let (carry, r) = mp_SetSub n a b;
         carry = carry + uint (mp_get a (Suc n));
         carry = carry - uint (mp_get b (Suc n))
     in (carry div 2 ^ 32, r @ [of_int carry]))"

definition mp_add :: "UInt \<Rightarrow> UInt \<Rightarrow> UInt" where
  "mp_add a b =
    (let n = 1 + (if length b \<le> length a then length a else length b) in
     if length a \<le> length b then snd (mp_SetAdd n a b) else snd (mp_SetAdd n b a))"

definition mp_sub :: "UInt \<Rightarrow> UInt \<Rightarrow> UInt" where
  "mp_sub a b = snd (mp_SetSub (1 + (if length b \<le> length a then length a else length b)) a b)"

definition mp_MoveCarry :: "nat \<Rightarrow> u64 \<Rightarrow> UInt \<Rightarrow> u64 \<times> UInt" where
  "mp_MoveCarry wDst carry a =
    (let carry = carry + ucast (mp_get a wDst) in (drop_bit 32 carry, mp_set a wDst (ucast carry)))"

text \<open>\<open>AddMulInto2\<close> adds the product of the first \<open>n\<close> words of \<open>this\<close> with the word \<open>x\<close>, \<open>wb\<close> words up.\<close>

fun mp_AddMulInto2 :: "nat \<Rightarrow> UInt \<Rightarrow> nat \<Rightarrow> u32 \<Rightarrow> UInt \<Rightarrow> u64 \<times> UInt" where
  "mp_AddMulInto2 0 this wb x a = (0, a)"
| "mp_AddMulInto2 (Suc n) this wb x a =
    (let (carry, a) = mp_AddMulInto2 n this wb x a;
         carry = carry + ucast x * ucast (mp_get this (Suc n))
     in mp_MoveCarry (Suc n + wb - 1) carry a)"

fun mp_AddMulInto :: "nat \<Rightarrow> UInt \<Rightarrow> UInt \<Rightarrow> UInt \<Rightarrow> UInt" where
  "mp_AddMulInto 0 this b a = a"
| "mp_AddMulInto (Suc n) this b a =
    (let a = mp_AddMulInto n this b a;
         (carry, a) = mp_AddMulInto2 (length b) b (Suc n) (mp_get this (Suc n)) a
     in snd (mp_MoveCarry (Suc n + length b) carry a))"

definition mp_mul :: "UInt \<Rightarrow> UInt \<Rightarrow> UInt" where
  "mp_mul x a =
    (let ret = mp_Fill (length x + length a) 0 in
     if length x \<le> length a then mp_AddMulInto (length x) x a ret else mp_AddMulInto (length a) a x ret)"

fun mp_Cmp_words :: "nat \<Rightarrow> UInt \<Rightarrow> UInt \<Rightarrow> int" where
  "mp_Cmp_words 0 x a = 0"
| "mp_Cmp_words (Suc n) x a =
    (if mp_get x (Suc n) < mp_get a (Suc n) then -1
     else if mp_get x (Suc n) > mp_get a (Suc n) then 1
     else mp_Cmp_words n x a)"

definition mp_cmp :: "UInt \<Rightarrow> UInt \<Rightarrow> int" where
  "mp_cmp x a = (if length a \<le> length x then mp_Cmp_words (length x) x a else - mp_Cmp_words (length a) a x)"

definition mp_Set_LShift :: "nat \<Rightarrow> nat \<Rightarrow> UInt \<Rightarrow> UInt" where
  "mp_Set_LShift n nBits a =
    map (\<lambda>d. push_bit nBits (mp_get a d) OR drop_bit (32 - nBits) (mp_get a (d - 1))) [1..<Suc n]"

definition mp_Set_RShift :: "nat \<Rightarrow> nat \<Rightarrow> UInt \<Rightarrow> UInt" where
  "mp_Set_RShift n nBits a =
    map (\<lambda>d. drop_bit nBits (mp_get a d) OR push_bit (32 - nBits) (mp_get a (d + 1))) [1..<Suc n]"

section \<open>Values\<close>

text \<open>The number a list of words denotes, and the number its first \<open>n\<close> words denote.\<close>

fun le_val :: "UInt \<Rightarrow> nat" where
  "le_val [] = 0"
| "le_val (x # xs) = unat x + 2 ^ 32 * le_val xs"

fun mp_low :: "UInt \<Rightarrow> nat \<Rightarrow> nat" where
  "mp_low a 0 = 0"
| "mp_low a (Suc n) = mp_low a n + unat (mp_get a (Suc n)) * 2 ^ (32 * n)"

lemma le_val_append: "le_val (xs @ ys) = le_val xs + 2 ^ (32 * length xs) * le_val ys"
  by (induction xs) (simp_all add: algebra_simps power_add)

lemma le_val_replicate_0 [simp]: "le_val (replicate n 0) = 0"
  by (induction n) simp_all

lemma le_val_less: "le_val xs < 2 ^ (32 * length xs)"
proof (induction xs)
  case Nil
  then show ?case by simp
next
  case (Cons x xs)
  have "unat x + 2 ^ 32 * le_val xs < 2 ^ 32 * Suc (le_val xs)" using unat_u32_less [of x] by simp
  also have "\<dots> \<le> 2 ^ 32 * 2 ^ (32 * length xs)" by (intro mult_left_mono) (use Cons in simp_all)
  finally show ?case by (simp add: power_add)
qed

lemma mp_low_less: "mp_low a n < 2 ^ (32 * n)"
proof (induction n)
  case 0
  then show ?case by simp
next
  case (Suc n)
  have "mp_low a (Suc n) < Suc (unat (mp_get a (Suc n))) * 2 ^ (32 * n)" using Suc by simp
  also have "\<dots> \<le> 2 ^ 32 * 2 ^ (32 * n)"
    by (intro mult_right_mono) (use unat_u32_less [of "mp_get a (Suc n)"] in simp_all)
  finally show ?case by (simp add: power_add)
qed

lemma mp_get_append_left: "d \<le> length xs \<Longrightarrow> mp_get (xs @ ys) d = mp_get xs d"
  by (cases d) (simp_all add: mp_get_def nth_append)

lemma mp_get_beyond [simp]: "length a < d \<Longrightarrow> mp_get a d = 0"
  by (simp add: mp_get_def)

lemma mp_low_append_left: "n \<le> length xs \<Longrightarrow> mp_low (xs @ ys) n = mp_low xs n"
  by (induction n) (simp_all add: mp_get_append_left)

lemma mp_low_length: "mp_low a (length a) = le_val a"
proof (induction a rule: rev_induct)
  case Nil
  then show ?case by simp
next
  case (snoc x xs)
  then show ?case by (simp add: mp_low_append_left mp_get_def le_val_append mult.commute)
qed

lemma mp_low_beyond: "length a \<le> n \<Longrightarrow> mp_low a n = le_val a"
proof (induction n)
  case 0
  then show ?case by simp
next
  case (Suc n)
  show ?case
  proof (cases "length a = Suc n")
    case True
    then show ?thesis by (metis mp_low_length)
  next
    case False
    then show ?thesis using Suc by simp
  qed
qed

lemma mp_low_0: "(\<And>d. d \<le> n \<Longrightarrow> mp_get a d = 0) \<Longrightarrow> mp_low a n = 0"
  by (induction n) simp_all

declare unat_ucast_u32_u64 [byte_simps]

lemma unat_ucast_u64_u32 [byte_simps]: "unat (ucast (x :: u64) :: u32) = unat x mod 2 ^ 32"
  by (simp add: unsigned_ucast_eq take_bit_eq_mod)

lemma unat_add_u64: "unat (a :: u64) + unat b < 2 ^ 64 \<Longrightarrow> unat (a + b) = unat a + unat b"
  by (simp add: unat_word_ariths)

lemma unat_mult_u64: "unat (a :: u64) * unat b < 2 ^ 64 \<Longrightarrow> unat (a * b) = unat a * unat b"
  by (simp add: unat_word_ariths)

subsection \<open>Addition and subtraction\<close>

lemma mp_SetAdd_spec:
  "mp_SetAdd n a b = (c, r) \<Longrightarrow>
    length r = n \<and> unat c \<le> 1 \<and> le_val r + unat c * 2 ^ (32 * n) = mp_low a n + mp_low b n"
proof (induction n arbitrary: c r)
  case 0
  then show ?case by simp
next
  case (Suc n)
  obtain c0 r0 where e: "mp_SetAdd n a b = (c0, r0)" by fastforce
  note IH = Suc.IH [OF e]
  define x y where "x = mp_get a (Suc n)" and "y = mp_get b (Suc n)"
  define s where "s = c0 + ucast x + ucast y"
  have xy: "unat x < 2 ^ 32" "unat y < 2 ^ 32" using unat_u32_less by simp_all
  have s: "unat s = unat c0 + unat x + unat y"
  proof -
    have "unat (c0 + ucast x) = unat c0 + unat x"
      using IH xy by (subst unat_add_u64) (simp_all add: byte_simps)
    then show ?thesis unfolding s_def using IH xy by (subst unat_add_u64) (simp_all add: byte_simps)
  qed
  have cr: "c = drop_bit 32 s" "r = r0 @ [ucast s]" using Suc.prems e by (simp_all add: x_def y_def s_def Let_def)
  have "unat c = unat s div 2 ^ 32" by (simp add: cr unat_drop_bit)
  moreover have "unat s < 2 * 2 ^ 32" using s xy IH by simp
  ultimately have c: "unat c \<le> 1" "unat c = unat s div 2 ^ 32" by simp_all
  define m where "m = unat s mod 2 ^ 32"
  have sm: "unat s = m + 2 ^ 32 * unat c" unfolding m_def c(2) by simp
  have "le_val r = le_val r0 + 2 ^ (32 * n) * m"
    using IH by (simp add: cr le_val_append byte_simps m_def)
  then have "le_val r + unat c * 2 ^ (32 * Suc n) = le_val r0 + 2 ^ (32 * n) * unat s"
    unfolding sm by (simp add: algebra_simps power_add)
  also have "\<dots> = mp_low a (Suc n) + mp_low b (Suc n)"
    using IH unfolding s by (simp add: algebra_simps x_def y_def)
  finally show ?case using IH c(1) by (simp add: cr)
qed

lemma mp_add_val: "le_val (mp_add a b) = le_val a + le_val b"
proof -
  define n where "n = 1 + max (length a) (length b)"
  have *: "le_val (snd (mp_SetAdd n x y)) = le_val x + le_val y" if "max (length x) (length y) < n" for x y
  proof -
    obtain c r where e: "mp_SetAdd n x y = (c, r)" by fastforce
    note s = mp_SetAdd_spec [OF e]
    have v: "le_val r + unat c * 2 ^ (32 * n) = le_val x + le_val y"
      using s that by (simp add: mp_low_beyond)
    have "le_val x < 2 ^ (32 * (n - 1))" "le_val y < 2 ^ (32 * (n - 1))"
      using that le_val_less [of x] le_val_less [of y]
      by (auto elim!: less_le_trans intro!: power_increasing)
    moreover have "2 * (2 :: nat) ^ (32 * (n - 1)) \<le> 2 ^ (32 * n)"
      using that by (cases n) (simp_all add: power_add)
    ultimately have "unat c * 2 ^ (32 * n) < 1 * 2 ^ (32 * n)" using v by linarith
    then have "unat c = 0" by simp
    with v e show ?thesis by simp
  qed
  show ?thesis
    using * [of a b] * [of b a] by (auto simp: mp_add_def Let_def n_def max_def)
qed

lemma length_mp_add: "length (mp_add a b) = 1 + max (length a) (length b)"
proof -
  have "length (snd (mp_SetAdd n x y)) = n" for n x y
    using mp_SetAdd_spec [of n x y] by (metis prod.collapse)
  then show ?thesis by (simp add: mp_add_def Let_def max_def del: mp_SetAdd.simps)
qed

lemma mp_SetSub_spec:
  "mp_SetSub n a b = (c, r) \<Longrightarrow>
    length r = n \<and> (c = 0 \<or> c = -1) \<and> int (le_val r) + c * 2 ^ (32 * n) = int (mp_low a n) - int (mp_low b n)"
proof (induction n arbitrary: c r)
  case 0
  then show ?case by simp
next
  case (Suc n)
  obtain c0 r0 where e: "mp_SetSub n a b = (c0, r0)" by fastforce
  note IH = Suc.IH [OF e]
  define x y where "x = mp_get a (Suc n)" and "y = mp_get b (Suc n)"
  define s where "s = c0 + uint x - uint y"
  have xy: "uint x < 2 ^ 32" "uint y < 2 ^ 32" "0 \<le> uint x" "0 \<le> uint y"
    using uint_lt2p [of x] uint_lt2p [of y] by simp_all
  have cr: "c = s div 2 ^ 32" "r = r0 @ [of_int s]" using Suc.prems e by (simp_all add: x_def y_def s_def Let_def)
  have "-1 \<le> c0" "c0 \<le> 0" using IH by auto
  with xy have "- (2 ^ 32) \<le> s" "s < 2 ^ 32" unfolding s_def by linarith+
  then have c: "c = 0 \<or> c = -1" unfolding cr by (cases "0 \<le> s") (simp_all add: div_eq_minus1 int_div_pos_eq zdiv_eq_0_iff)
  have "int (unat (of_int s :: u32)) = s mod 2 ^ 32" by (simp add: uint_word_of_int)
  moreover define m where "m = s mod 2 ^ 32"
  ultimately have "int (le_val r) = int (le_val r0) + 2 ^ (32 * n) * m"
    using IH by (simp add: cr le_val_append)
  moreover have "s = m + 2 ^ 32 * c" unfolding m_def cr(1) by simp
  ultimately have "int (le_val r) + c * 2 ^ (32 * Suc n) = int (le_val r0) + 2 ^ (32 * n) * s"
    by (simp add: algebra_simps power_add)
  also have "\<dots> = int (mp_low a (Suc n)) - int (mp_low b (Suc n))"
    using IH unfolding s_def by (simp add: algebra_simps x_def y_def)
  finally show ?case using IH c by (simp add: cr)
qed

lemma mp_sub_val:
  "int (le_val (mp_sub a b)) = (int (le_val a) - int (le_val b)) mod 2 ^ (32 * (1 + max (length a) (length b)))"
proof -
  define n where "n = 1 + max (length a) (length b)"
  obtain c r where e: "mp_SetSub n a b = (c, r)" by fastforce
  note s = mp_SetSub_spec [OF e]
  have v: "int (le_val a) - int (le_val b) = int (le_val r) + 2 ^ (32 * n) * c"
    using s by (simp add: mp_low_beyond n_def mult.commute)
  have "int (le_val r) < int (2 ^ (32 * n))" using le_val_less [of r] s by (simp only: of_nat_less_iff)
  then have "(int (le_val a) - int (le_val b)) mod 2 ^ (32 * n) = int (le_val r)" unfolding v by simp
  moreover have "mp_sub a b = r" using e by (auto simp: mp_sub_def n_def max_def simp del: mp_SetSub.simps split: if_splits)
  ultimately show ?thesis by (simp only: n_def)
qed

subsection \<open>Multiplication\<close>

lemma length_mp_set [simp]: "length (mp_set a d x) = length a"
  by (simp add: mp_set_def)

lemma mp_get_set: "mp_get (mp_set a d x) e = (if e = d \<and> 1 \<le> d \<and> d \<le> length a then x else mp_get a e)"
  by (auto simp: mp_get_def mp_set_def nth_list_update)

lemma mp_low_set_above: "n < d \<Longrightarrow> mp_low (mp_set a d x) n = mp_low a n"
  by (induction n) (simp_all add: mp_get_set)

lemma mp_low_cong: "(\<And>d. d \<le> n \<Longrightarrow> mp_get a d = mp_get b d) \<Longrightarrow> mp_low a n = mp_low b n"
  by (induction n) simp_all

lemma le_val_split: "n \<le> length a \<Longrightarrow> \<exists>h. le_val a = mp_low a n + 2 ^ (32 * n) * h \<and> h = le_val (drop n a)"
  using le_val_append [of "take n a" "drop n a"] mp_low_length [of "take n a"]
    mp_low_append_left [of n "take n a" "drop n a"] by simp

lemma mp_set_val:
  assumes "1 \<le> d" and "d \<le> length a"
  shows "int (le_val (mp_set a d x)) = int (le_val a) + (int (unat x) - int (unat (mp_get a d))) * 2 ^ (32 * (d - 1))"
proof -
  obtain k where d: "d = Suc k" using assms by (cases d) simp_all
  have "le_val (a[k := x]) = le_val (take k a) + 2 ^ (32 * k) * (unat x + 2 ^ 32 * le_val (drop (Suc k) a))"
    using assms d by (simp add: upd_conv_take_nth_drop le_val_append)
  moreover have "le_val a = le_val (take k a) + 2 ^ (32 * k) * (unat (a ! k) + 2 ^ 32 * le_val (drop (Suc k) a))"
    using assms d le_val_append [of "take k a" "a ! k # drop (Suc k) a"] by (simp add: id_take_nth_drop [symmetric])
  ultimately show ?thesis using assms d by (simp add: mp_set_def mp_get_def algebra_simps)
qed

lemma mp_MoveCarry_spec:
  assumes "mp_MoveCarry d c a = (c', a')" and "1 \<le> d" and "d \<le> length a" and "unat c + 2 ^ 32 \<le> 2 ^ 64"
  shows "length a' = length a" and "\<And>e. e \<noteq> d \<Longrightarrow> mp_get a' e = mp_get a e"
    and "le_val a' + unat c' * 2 ^ (32 * d) = le_val a + unat c * 2 ^ (32 * (d - 1))"
    and "unat c' = (unat c + unat (mp_get a d)) div 2 ^ 32"
proof -
  define s where "s = c + ucast (mp_get a d)"
  have g: "unat (mp_get a d) < 2 ^ 32" using unat_u32_less by simp
  have s: "unat s = unat c + unat (mp_get a d)"
    unfolding s_def using assms(4) g by (subst unat_add_u64) (simp_all add: byte_simps)
  have c': "c' = drop_bit 32 s" and a': "a' = mp_set a d (ucast s)"
    using assms(1) by (simp_all add: mp_MoveCarry_def s_def Let_def)
  show "length a' = length a" and "\<And>e. e \<noteq> d \<Longrightarrow> mp_get a' e = mp_get a e" by (simp_all add: a' mp_get_set)
  show q: "unat c' = (unat c + unat (mp_get a d)) div 2 ^ 32" by (simp add: c' unat_drop_bit s)
  define m where "m = unat s mod 2 ^ 32"
  have sm: "unat c + unat (mp_get a d) = m + 2 ^ 32 * unat c'" unfolding m_def q s by simp
  obtain k where d: "d = Suc k" using assms(2) by (cases d) simp_all
  have "int (le_val a') = int (le_val a) + (int m - int (unat (mp_get a d))) * 2 ^ (32 * k)"
    unfolding a' m_def unat_ucast_u64_u32 [symmetric] using mp_set_val [OF assms(2,3), of "ucast s"] d by simp
  moreover have "int m = int (unat c) + int (unat (mp_get a d)) - 2 ^ 32 * int (unat c')" using arg_cong [OF sm, of int] by simp
  ultimately have "int (le_val a') = int (le_val a) + (int (unat c) - 2 ^ 32 * int (unat c')) * 2 ^ (32 * k)" by simp
  then have "int (le_val a') + int (unat c' * 2 ^ (32 * d)) = int (le_val a) + int (unat c * 2 ^ (32 * k))"
    by (simp add: algebra_simps power_add d)
  then have "int (le_val a' + unat c' * 2 ^ (32 * d)) = int (le_val a + unat c * 2 ^ (32 * k))" by simp
  then show "le_val a' + unat c' * 2 ^ (32 * d) = le_val a + unat c * 2 ^ (32 * (d - 1))"
    unfolding of_nat_eq_iff d by simp
qed

lemma mp_AddMulInto2_spec:
  assumes "mp_AddMulInto2 n this wb x a = (c, a')" and "1 \<le> wb" and "n + wb - 1 \<le> length a"
  shows "length a' = length a \<and> unat c < 2 ^ 32 \<and> (\<forall>e. n + wb - 1 < e \<longrightarrow> mp_get a' e = mp_get a e) \<and>
    le_val a' + unat c * 2 ^ (32 * (n + wb - 1)) = le_val a + unat x * mp_low this n * 2 ^ (32 * (wb - 1))"
  using assms
proof (induction n arbitrary: c a')
  case 0
  then show ?case by simp
next
  case (Suc n)
  obtain c0 a0 where e: "mp_AddMulInto2 n this wb x a = (c0, a0)" by fastforce
  have IH: "length a0 = length a" "unat c0 < 2 ^ 32" "\<forall>e. n + wb - 1 < e \<longrightarrow> mp_get a0 e = mp_get a e"
    "le_val a0 + unat c0 * 2 ^ (32 * (n + wb - 1)) = le_val a + unat x * mp_low this n * 2 ^ (32 * (wb - 1))"
    using Suc.IH [OF e Suc.prems(2)] Suc.prems(3) by simp_all
  define y where "y = mp_get this (Suc n)"
  define s :: u64 where "s = c0 + ucast x * ucast y"
  have xy: "unat x \<le> 2 ^ 32 - 1" "unat y \<le> 2 ^ 32 - 1" using unat_u32_less [of x] unat_u32_less [of y] by simp_all
  have xy2: "unat x * unat y \<le> (2 ^ 32 - 1) * (2 ^ 32 - 1)" using mult_le_mono [OF xy] .
  have s: "unat s = unat c0 + unat x * unat y"
  proof -
    have "unat (ucast x * ucast y :: u64) = unat x * unat y"
      using xy2 by (subst unat_mult_u64) (simp_all add: byte_simps)
    then show ?thesis unfolding s_def using xy2 IH(2) by (subst unat_add_u64) simp_all
  qed
  have mc: "mp_MoveCarry (Suc n + wb - 1) s a0 = (c, a')"
    using Suc.prems(1) e by (simp add: Let_def s_def y_def)
  have s64: "unat s + 2 ^ 32 \<le> 2 ^ 64" using s xy2 IH(2) by simp
  note M = mp_MoveCarry_spec [OF mc _ _ s64]
  have p: "1 \<le> Suc n + wb - 1" "Suc n + wb - 1 \<le> length a0" "Suc n + wb - 1 = n + wb"
    using Suc.prems IH(1) by simp_all
  have wb: "n + wb - 1 = n + (wb - 1)" using Suc.prems(2) by simp
  have "le_val a' + unat c * 2 ^ (32 * (n + wb)) = le_val a0 + unat s * 2 ^ (32 * (n + wb - 1))"
    using M(3) [OF p(1,2)] unfolding p(3) by simp
  also have "\<dots> = le_val a + unat x * mp_low this (Suc n) * 2 ^ (32 * (wb - 1))"
    using IH(4) unfolding s wb by (simp add: algebra_simps power_add y_def)
  finally have v: "le_val a' + unat c * 2 ^ (32 * (n + wb)) = le_val a + unat x * mp_low this (Suc n) * 2 ^ (32 * (wb - 1))" .
  have "unat c < 2 ^ 32"
    using M(4) [OF p(1,2)] s xy2 IH(2) unat_u32_less [of "mp_get a0 (Suc n + wb - 1)"]
    by (simp add: div_less_iff_less_mult)
  then show ?case using M(1,2) [OF p(1,2)] IH(1,3) v Suc.prems(2) by simp
qed

lemma mp_AddMulInto_spec:
  assumes "n + length b \<le> length a" and "\<And>e. mp_get a e = 0"
  shows "length (mp_AddMulInto n this b a) = length a \<and>
    (\<forall>e. n + length b < e \<longrightarrow> mp_get (mp_AddMulInto n this b a) e = 0) \<and>
    le_val (mp_AddMulInto n this b a) = mp_low this n * le_val b"
  using assms(1)
proof (induction n)
  case 0
  have "le_val a = 0" using mp_low_0 [of "length a" a] assms(2) by (simp add: mp_low_length)
  then show ?case using assms(2) by simp
next
  case (Suc n)
  define a0 where "a0 = mp_AddMulInto n this b a"
  have IH: "length a0 = length a" "\<forall>e. n + length b < e \<longrightarrow> mp_get a0 e = 0" "le_val a0 = mp_low this n * le_val b"
    using Suc by (simp_all add: a0_def)
  obtain c a1 where e1: "mp_AddMulInto2 (length b) b (Suc n) (mp_get this (Suc n)) a0 = (c, a1)" by fastforce
  have A: "length a1 = length a0" "unat c < 2 ^ 32" "\<forall>e. length b + n < e \<longrightarrow> mp_get a1 e = mp_get a0 e"
    "le_val a1 + unat c * 2 ^ (32 * (length b + n)) = le_val a0 + unat (mp_get this (Suc n)) * le_val b * 2 ^ (32 * n)"
    using mp_AddMulInto2_spec [OF e1] Suc.prems IH(1) by (simp_all add: mp_low_length)
  obtain c' a2 where e2: "mp_MoveCarry (Suc n + length b) c a1 = (c', a2)" by fastforce
  have c64: "unat c + 2 ^ 32 \<le> 2 ^ 64" using A(2) by simp
  note M = mp_MoveCarry_spec [OF e2 _ _ c64]
  have p: "1 \<le> Suc n + length b" "Suc n + length b \<le> length a1" using Suc.prems IH(1) A(1) by simp_all
  have "mp_get a1 (Suc n + length b) = 0" using A(3) IH(2) by simp
  then have "unat c' = 0" using M(4) [OF p] A(2) by simp
  then have v: "le_val a2 = le_val a1 + unat c * 2 ^ (32 * (length b + n))"
    using M(3) [OF p] by (simp add: add.commute)
  have r: "mp_AddMulInto (Suc n) this b a = a2" using e2 by (simp add: a0_def [symmetric] e1)
  show ?case unfolding r
    using M(1,2) [OF p] A(1,3) IH v A(4) by (simp add: algebra_simps)
qed

lemma mp_get_replicate_0 [simp]: "mp_get (replicate n 0) e = 0"
  by (cases e) (simp_all add: mp_get_def)

lemma mp_mul_val: "le_val (mp_mul x a) = le_val x * le_val a"
  and length_mp_mul: "length (mp_mul x a) = length x + length a"
  using mp_AddMulInto_spec [of "length x" a "replicate (length x + length a) 0" x]
    mp_AddMulInto_spec [of "length a" x "replicate (length x + length a) 0" a]
  by (simp_all add: mp_mul_def mp_Fill_def Let_def mp_low_length mult.commute)

subsection \<open>Comparison and conversion\<close>

lemma mp_Cmp_words_spec:
  "mp_Cmp_words n x a = (if mp_low x n < mp_low a n then -1 else if mp_low x n > mp_low a n then 1 else 0)"
proof (induction n)
  case 0
  then show ?case by simp
next
  case (Suc n)
  let ?x = "unat (mp_get x (Suc n))" and ?a = "unat (mp_get a (Suc n))" and ?P = "2 ^ (32 * n) :: nat"
  have lt: "mp_low x n < ?P" "mp_low a n < ?P" using mp_low_less by blast+
  have step: "p * ?P + r < q * ?P + s" if "p < q" "r < ?P" for p q r s :: nat
  proof -
    have "p * ?P + r < Suc p * ?P" using that by simp
    also have "\<dots> \<le> q * ?P" using that by (intro mult_right_mono) simp_all
    finally show ?thesis by simp
  qed
  consider "?x < ?a" | "?a < ?x" | "?x = ?a" by linarith
  then show ?case
  proof cases
    case 1
    with step [OF 1 lt(1), of "mp_low a n"] show ?thesis by (simp add: word_less_nat_alt add.commute)
  next
    case 2
    with step [OF 2 lt(2), of "mp_low x n"] show ?thesis by (simp add: word_less_nat_alt add.commute)
  next
    case 3
    then show ?thesis using Suc by (simp add: word_less_nat_alt)
  qed
qed

lemma mp_cmp_val: "mp_cmp x a = (if le_val x < le_val a then -1 else if le_val x > le_val a then 1 else 0)"
  by (simp add: mp_cmp_def mp_Cmp_words_spec mp_low_beyond)

lemma length_mp_From [simp]: "length (mp_From x) = 2"
  by (simp add: mp_From_def numeral_2_eq_2)

lemma mp_From_words: "mp_From x = [ucast x, ucast (drop_bit 32 x)]"
  by (simp add: mp_From_def numeral_2_eq_2)

lemma mp_From_val [simp]: "le_val (mp_From x) = unat x"
proof -
  have "unat x div 2 ^ 32 < 2 ^ 32" using unat_u64_less [of x] by (simp add: div_less_iff_less_mult)
  then show ?thesis by (simp add: mp_From_words byte_simps)
qed

end
