(* ===== verification/Mp_Division.thy ===== *)
theory Mp_Division
  imports Multi_Precision
begin

text \<open>
  Division of multi-word integers, \<open>UInt::SetDivResid\<close> of \<open>src/bvm/Shaders/Math.h\<close>: the divisor is normalised (its
  most significant bit set), then every word of the quotient is estimated from the two leading words of the remainder
  and the leading word of the divisor and corrected at most twice (Knuth's algorithm D).  The library shows that a step
  yields the exact digit and remainder as long as the estimate fits a 32-bit word or overflows to exactly \<open>2 ^ 32\<close>
  (\<open>mp_digit_ok\<close>), that this always holds for a one-word divisor, and that the code truncates the estimate
  \<open>2 ^ 32 + 1\<close> to 1, which yields wrong quotients.  \<open>SetShifted\<close>, the general shift, is modelled with the sign
  conversion that C++ makes in \<open>nLShift %= nWordBits\<close>.
\<close>

section \<open>Operations\<close>

fun mp_SubShifted :: "nat \<Rightarrow> nat \<Rightarrow> UInt \<Rightarrow> UInt \<Rightarrow> int \<times> UInt" where
  "mp_SubShifted nLShift 0 val this = (0, this)"
| "mp_SubShifted nLShift (Suc i) val this =
    (let (carry, this) = mp_SubShifted nLShift i val this;
         carry = carry + uint (mp_get this (nLShift + Suc i));
         carry = carry - uint (mp_get val (Suc i))
     in (carry div 2 ^ 32, mp_set this (nLShift + Suc i) (of_int carry)))"

fun mp_AddShifted :: "nat \<Rightarrow> nat \<Rightarrow> UInt \<Rightarrow> UInt \<Rightarrow> u64 \<times> UInt" where
  "mp_AddShifted nLShift 0 val this = (0, this)"
| "mp_AddShifted nLShift (Suc i) val this =
    (let (carry, this) = mp_AddShifted nLShift i val this in
     if nLShift + Suc i > length this then (carry, this)
     else
       let carry = carry + ucast (mp_get this (nLShift + Suc i));
           carry = carry + ucast (mp_get val (Suc i))
       in (drop_bit 32 carry, mp_set this (nLShift + Suc i) (ucast carry)))"

text \<open>The digit step on a remainder of the size the template recursion stops at.\<close>

definition mp_DivDigit :: "nat \<Rightarrow> UInt \<Rightarrow> UInt \<Rightarrow> u32 \<times> UInt" where
  "mp_DivDigit nLShift divisor this =
    (let wd = length divisor;
         hiNom = mp_get this (wd + nLShift + 1);
         hiDenom = mp_get divisor wd;
         hiPart = push_bit 32 (ucast hiNom) :: u64;
         hiPart = hiPart OR ucast (mp_get this (wd + nLShift));
         res = ucast (hiPart div ucast hiDenom) :: u32
     in if res = 0 \<and> hiNom = 0 then (0, this)
        else
          let res = (if res = 0 then - 1 else res);
              (carry0, this) = mp_SubShifted nLShift (wd + 1) (mp_mul divisor [res]) this
          in if carry0 \<noteq> 0 then
               let res = res - 1;
                   (carry1, this) = mp_AddShifted nLShift (wd + 1) divisor this
               in if carry1 = 0 then (res - 1, snd (mp_AddShifted nLShift (wd + 1) divisor this))
                  else (res, this)
             else (res, this))"

definition mp_DivOnceNormalized :: "nat \<Rightarrow> UInt \<Rightarrow> UInt \<Rightarrow> u32 \<times> UInt" where
  "mp_DivOnceNormalized nLShift divisor this =
    (let n = length divisor + nLShift + 1 in
     if length this > n then let (res, low) = mp_DivDigit nLShift divisor (take n this) in (res, low @ drop n this)
     else if length this < length divisor + nLShift then (0, this)
     else mp_DivDigit nLShift divisor this)"

fun mp_SetDivResidNormalized :: "nat \<Rightarrow> UInt \<Rightarrow> UInt \<Rightarrow> UInt \<times> UInt" where
  "mp_SetDivResidNormalized 0 resid divisor = ([], resid)"
| "mp_SetDivResidNormalized (Suc n) resid divisor =
    (let (q, resid) = mp_DivOnceNormalized n divisor resid;
         (qs, resid) = mp_SetDivResidNormalized n resid divisor
     in (qs @ [q], resid))"

function mp_SetDivResid :: "nat \<Rightarrow> UInt \<Rightarrow> UInt \<Rightarrow> UInt \<times> UInt" where
  "mp_SetDivResid n resid b =
    (if b = [] then (mp_Fill n (- 1), resid)
     else
       let val = mp_get b (length b) in
       if val \<noteq> 0 then
         let nBits = FindHiBit val in
         if 32 = nBits then mp_SetDivResidNormalized n resid b
         else
           let b2 = mp_Set_LShift (length b) (32 - nBits) b;
               r2 = mp_Set_LShift (length resid + 1) (32 - nBits) resid;
               (q, r2) = mp_SetDivResidNormalized n r2 b2
           in (q, mp_Set_RShift (length resid) (32 - nBits) r2)
       else mp_SetDivResid n resid (butlast b))"
  by pat_completeness auto
termination by (relation "measure (\<lambda>(_, _, b). length b)") auto

declare mp_SetDivResid.simps [simp del]

definition mp_SetDiv :: "nat \<Rightarrow> UInt \<Rightarrow> UInt \<Rightarrow> UInt" where
  "mp_SetDiv n a b = fst (mp_SetDivResid n a b)"

definition mp_divide :: "UInt \<Rightarrow> UInt \<Rightarrow> UInt" where
  "mp_divide a b = mp_SetDiv (length a) a b"

text \<open>
  \<open>SetShifted\<close>.  The division of the signed shift by \<open>(int) nWordBits\<close> truncates towards zero; in
  \<open>nLShift %= nWordBits\<close> the shift is converted to an unsigned number, because \<open>nWordBits\<close> is unsigned, so the rest is
  never negative.  The index \<open>iSrc\<close> is an unsigned 32-bit number.
\<close>

definition mp_get_Safe :: "UInt \<Rightarrow> u32 \<Rightarrow> u32" where
  "mp_get_Safe src i = (if i < of_nat (length src) then src ! unat i else 0)"

fun mp_SetShifted_loop :: "nat \<Rightarrow> UInt \<Rightarrow> nat \<Rightarrow> u32 \<Rightarrow> u32 \<Rightarrow> UInt" where
  "mp_SetShifted_loop 0 src nLShift iSrc s0 = []"
| "mp_SetShifted_loop (Suc n) src nLShift iSrc s0 =
    (let iSrc = iSrc + 1; s1 = mp_get_Safe src iSrc in
     (drop_bit (32 - nLShift) s0 OR push_bit nLShift s1) # mp_SetShifted_loop n src nLShift iSrc s1)"

definition mp_SetShifted :: "nat \<Rightarrow> UInt \<Rightarrow> int \<Rightarrow> UInt" where
  "mp_SetShifted nDst src nLShift =
    (let iSrc = of_int (- (sgn nLShift * (\<bar>nLShift\<bar> div 32))) :: u32;
         nLShift = nat (uint (of_int nLShift :: u32) mod 32)
     in if nLShift \<noteq> 0 then let iSrc = iSrc - 1 in mp_SetShifted_loop nDst src nLShift iSrc (mp_get_Safe src iSrc)
        else map (\<lambda>iDst. mp_get_Safe src (iSrc + of_nat iDst)) [0..<nDst])"

section \<open>Adding and subtracting in place\<close>

lemma mp_SubShifted_spec:
  "mp_SubShifted s i v a = (c, a') \<Longrightarrow> s + i \<le> length a \<Longrightarrow>
    length a' = length a \<and> (c = 0 \<or> c = -1) \<and> (\<forall>e. s + i < e \<longrightarrow> mp_get a' e = mp_get a e) \<and>
    int (le_val a') + c * 2 ^ (32 * (s + i)) = int (le_val a) - int (mp_low v i) * 2 ^ (32 * s)"
proof (induction i arbitrary: c a')
  case 0
  then show ?case by simp
next
  case (Suc i)
  obtain c0 a0 where e: "mp_SubShifted s i v a = (c0, a0)" by fastforce
  have IH: "length a0 = length a" "c0 = 0 \<or> c0 = -1" "\<forall>e. s + i < e \<longrightarrow> mp_get a0 e = mp_get a e"
    "int (le_val a0) + c0 * 2 ^ (32 * (s + i)) = int (le_val a) - int (mp_low v i) * 2 ^ (32 * s)"
    using Suc.IH [OF e] Suc.prems(2) by simp_all
  define x y where "x = mp_get a0 (s + Suc i)" and "y = mp_get v (Suc i)"
  define t where "t = c0 + uint x - uint y"
  have xy: "uint x < 2 ^ 32" "uint y < 2 ^ 32" "0 \<le> uint x" "0 \<le> uint y"
    using uint_lt2p [of x] uint_lt2p [of y] by simp_all
  have cr: "c = t div 2 ^ 32" "a' = mp_set a0 (s + Suc i) (of_int t)"
    using Suc.prems(1) e by (simp_all add: x_def y_def t_def Let_def)
  have "-1 \<le> c0" "c0 \<le> 0" using IH(2) by auto
  with xy have "- (2 ^ 32) \<le> t" "t < 2 ^ 32" unfolding t_def by linarith+
  then have c: "c = 0 \<or> c = -1" unfolding cr by (cases "0 \<le> t") (simp_all add: div_eq_minus1 zdiv_eq_0_iff)
  define m where "m = t mod 2 ^ 32"
  have tm: "m = t - 2 ^ 32 * c" unfolding m_def cr(1) by (simp add: minus_mult_div_eq_mod)
  have "int (unat (of_int t :: u32)) = m" by (simp add: uint_word_of_int m_def)
  then have "int (le_val a') = int (le_val a0) + (m - uint x) * 2 ^ (32 * (s + i))"
    using mp_set_val [of "s + Suc i" a0 "of_int t"] Suc.prems(2) IH(1) by (simp add: cr x_def)
  then have "int (le_val a') + c * 2 ^ (32 * (s + Suc i)) = int (le_val a0) + (c0 - uint y) * 2 ^ (32 * (s + i))"
    unfolding tm t_def by (simp add: algebra_simps power_add)
  also have "\<dots> = int (le_val a) - int (mp_low v (Suc i)) * 2 ^ (32 * s)"
    using IH(4) by (simp add: algebra_simps power_add y_def)
  finally show ?case using c IH(1,3) by (simp add: cr mp_get_set)
qed

lemma mp_AddShifted_spec:
  "mp_AddShifted s i v a = (c, a') \<Longrightarrow> s + i \<le> length a \<Longrightarrow>
    length a' = length a \<and> unat c \<le> 1 \<and>
    le_val a' + unat c * 2 ^ (32 * (s + i)) = le_val a + mp_low v i * 2 ^ (32 * s)"
proof (induction i arbitrary: c a')
  case 0
  then show ?case by simp
next
  case (Suc i)
  obtain c0 a0 where e: "mp_AddShifted s i v a = (c0, a0)" by fastforce
  have IH: "length a0 = length a" "unat c0 \<le> 1"
    "le_val a0 + unat c0 * 2 ^ (32 * (s + i)) = le_val a + mp_low v i * 2 ^ (32 * s)"
    using Suc.IH [OF e] Suc.prems(2) by simp_all
  define y where "y = mp_get v (Suc i)"
  have y: "unat y < 2 ^ 32" using unat_u32_less by simp
  have cy: "unat (c0 + ucast y) = unat c0 + unat y"
    using IH(2) y by (subst unat_add_u64) (simp_all add: byte_simps)
  have mc: "mp_MoveCarry (s + Suc i) (c0 + ucast y) a0 = (c, a')"
    using Suc.prems e IH(1) by (simp add: mp_MoveCarry_def Let_def y_def ac_simps)
  have b: "unat (c0 + ucast y) + 2 ^ 32 \<le> 2 ^ 64" using cy y IH(2) by simp
  have p: "1 \<le> s + Suc i" "s + Suc i \<le> length a0" using Suc.prems(2) IH(1) by simp_all
  note M = mp_MoveCarry_spec [OF mc p b]
  have "unat c \<le> 1"
    using M(4) cy y IH(2) unat_u32_less [of "mp_get a0 (s + Suc i)"] by simp
  moreover have "le_val a' + unat c * 2 ^ (32 * (s + Suc i)) = le_val a + mp_low v (Suc i) * 2 ^ (32 * s)"
    using M(3) IH(3) unfolding cy by (simp add: algebra_simps power_add y_def)
  ultimately show ?case using M(1) IH(1) by simp
qed

section \<open>The estimate of a digit\<close>

text \<open>
  The mathematics of the step: \<open>R\<close> and \<open>D\<close> split at the weight \<open>P\<close> of the low words, \<open>v\<close> the leading word of the
  divisor, \<open>t\<close> the two leading words of the remainder, \<open>g\<close> the estimate.
\<close>

lemma digit_estimate:
  fixes B P v d t r g D R :: nat
  assumes "D = v * P + d" and "d < P" and "R = t * P + r" and "r < P" and "B \<le> 2 * v"
    and "g < B" and "g * v \<le> t" and "t < (g + 1) * v \<or> R < (g + 1) * D"
  shows "R div D \<le> g" and "g \<le> R div D + 2" and "0 < D"
proof -
  have P: "0 < P" using assms(2) by simp
  have v: "0 < v" using assms(5,6) by simp
  show D: "0 < D" using v P assms(1) by simp
  have "R < (g + 1) * D"
    using assms(8)
  proof
    assume "t < (g + 1) * v"
    then have "t + 1 \<le> (g + 1) * v" by simp
    have "R < (t + 1) * P" using assms(3,4) by simp
    also have "\<dots> \<le> (g + 1) * v * P" using \<open>t + 1 \<le> (g + 1) * v\<close> by (intro mult_right_mono) simp_all
    also have "\<dots> \<le> (g + 1) * D" using assms(1) by (simp add: algebra_simps)
    finally show ?thesis .
  qed
  then have "R div D < g + 1" using D by (simp add: div_less_iff_less_mult mult.commute)
  then show "R div D \<le> g" by simp
  have "g * D \<le> R + 2 * D"
  proof -
    have "g * v * P \<le> t * P" using assms(7) by (intro mult_right_mono) simp_all
    then have "g * v * P \<le> R" using assms(3) by linarith
    moreover have "g * d \<le> B * P" using assms(2,6) by (intro mult_mono) simp_all
    moreover have "B * P \<le> 2 * v * P" using assms(5) by (intro mult_right_mono) simp_all
    moreover have "2 * v * P \<le> 2 * D" using assms(1) by simp
    moreover have "g * D = g * v * P + g * d" using assms(1) by (simp add: algebra_simps)
    ultimately show ?thesis by linarith
  qed
  then have "(g - 2) * D \<le> R" by (simp add: diff_mult_distrib)
  then have "g - 2 \<le> R div D" using D by (simp add: less_eq_div_iff_mult_less_eq)
  then show "g \<le> R div D + 2" by simp
qed

text \<open>The condition under which the truncation of the estimate to 32 bits is harmless.\<close>

definition mp_digit_ok :: "nat \<Rightarrow> UInt \<Rightarrow> UInt \<Rightarrow> bool" where
  "mp_digit_ok nLShift divisor resid =
    (\<not> (mp_get resid (length divisor + nLShift + 1) = mp_get divisor (length divisor) \<and>
        mp_get divisor (length divisor) \<le> mp_get resid (length divisor + nLShift)))"

definition mp_normalized :: "UInt \<Rightarrow> bool" where
  "mp_normalized b = (0 < length b \<and> 2 ^ 31 \<le> unat (mp_get b (length b)))"

text \<open>The estimate the code computes from the leading words.\<close>

lemma hiPart_div:
  fixes h l v :: u32
  assumes "v \<noteq> 0"
  shows "unat ((push_bit 32 (ucast h) OR ucast l :: u64) div ucast v) = (unat h * 2 ^ 32 + unat l) div unat v"
proof -
  have l: "unat (ucast l :: u64) < 2 ^ 32" using unat_u32_less [of l] by (simp add: byte_simps)
  have "unat (push_bit 32 (ucast h :: u64)) = unat h * 2 ^ 32"
    using unat_u32_less [of h]
    by (simp only: unsigned_push_bit_eq) (simp add: take_bit_eq_mod push_bit_eq_mult byte_simps)
  moreover have "push_bit 32 (ucast h :: u64) OR ucast l = push_bit 32 (ucast h) + ucast l"
    by (rule word_or_disjoint_add [OF l refl])
  moreover have "unat h * 2 ^ 32 + unat l < 2 ^ 64" using unat_u32_less [of h] unat_u32_less [of l] by simp
  ultimately have "unat (push_bit 32 (ucast h) OR ucast l :: u64) = unat h * 2 ^ 32 + unat l"
    by (simp add: unat_add_u64 byte_simps)
  then show ?thesis by (simp add: unat_div byte_simps)
qed

section \<open>The digit step\<close>

text \<open>A remainder that ends below the top word of the product behaves as if a zero word stood there.\<close>

lemma mp_SubShifted_top:
  assumes "length a = s + i" and "mp_get v (Suc i) = 0"
  shows "mp_SubShifted s (Suc i) v a = mp_SubShifted s i v a"
proof -
  obtain c a' where e: "mp_SubShifted s i v a = (c, a')" by fastforce
  have "length a' = length a" "c = 0 \<or> c = -1" using mp_SubShifted_spec [OF e] assms(1) by simp_all
  then show ?thesis using e assms by (auto simp: Let_def mp_set_def)
qed

lemma mp_AddShifted_top:
  assumes "length a = s + i"
  shows "mp_AddShifted s (Suc i) v a = mp_AddShifted s i v a"
proof -
  obtain c a' where e: "mp_AddShifted s i v a = (c, a')" by fastforce
  then show ?thesis using mp_AddShifted_spec [OF e] assms by simp
qed

lemma SubShifted_product:
  assumes "length a = s + w \<or> length a = s + w + 1" and "length v = w + 1" and "length a = s + w \<Longrightarrow> le_val v < 2 ^ (32 * w)"
    and "mp_SubShifted s (w + 1) v a = (c, a')"
  shows "length a' = length a" and "c = 0 \<or> c = -1"
    and "int (le_val a') + c * 2 ^ (32 * length a) = int (le_val a) - int (le_val v) * 2 ^ (32 * s)"
proof -
  have top: "mp_low v (w + 1) = le_val v" using assms(2) by (metis mp_low_length)
  have *: "length a' = length a \<and> (c = 0 \<or> c = -1) \<and>
    int (le_val a') + c * 2 ^ (32 * length a) = int (le_val a) - int (le_val v) * 2 ^ (32 * s)"
  proof (cases "length a = s + w")
    case True
    have z: "mp_get v (Suc w) = 0"
    proof (rule ccontr)
      assume "mp_get v (Suc w) \<noteq> 0"
      then have "1 \<le> unat (mp_get v (Suc w))" using unat_eq_zero [of "mp_get v (Suc w)"] by linarith
      then have "1 * 2 ^ (32 * w) \<le> unat (mp_get v (Suc w)) * 2 ^ (32 * w)" by (intro mult_right_mono) simp_all
      moreover have "mp_low v w + unat (mp_get v (Suc w)) * 2 ^ (32 * w) = le_val v" using top by simp
      ultimately show False using assms(3) [OF True] by linarith
    qed
    then have lw: "mp_low v w = le_val v" using top by simp
    have "mp_SubShifted s w v a = (c, a')" using assms(4) mp_SubShifted_top [OF True z] by simp
    from mp_SubShifted_spec [OF this] True lw show ?thesis by simp
  next
    case False
    then have l: "length a = s + (w + 1)" using assms(1) by simp
    from mp_SubShifted_spec [OF assms(4), unfolded top] l show ?thesis by simp
  qed
  then show "length a' = length a" and "c = 0 \<or> c = -1"
    and "int (le_val a') + c * 2 ^ (32 * length a) = int (le_val a) - int (le_val v) * 2 ^ (32 * s)" by simp_all
qed

lemma AddShifted_divisor:
  assumes "length a = s + w \<or> length a = s + w + 1" and "length v = w" and "mp_AddShifted s (w + 1) v a = (c, a')"
  shows "length a' = length a" and "unat c \<le> 1"
    and "le_val a' + unat c * 2 ^ (32 * length a) = le_val a + le_val v * 2 ^ (32 * s)"
proof -
  have *: "length a' = length a \<and> unat c \<le> 1 \<and>
    le_val a' + unat c * 2 ^ (32 * length a) = le_val a + le_val v * 2 ^ (32 * s)"
  proof (cases "length a = s + w")
    case True
    have "mp_AddShifted s w v a = (c, a')" using assms(3) mp_AddShifted_top [OF True] by simp
    from mp_AddShifted_spec [OF this] True assms(2) show ?thesis by (simp add: mp_low_beyond)
  next
    case False
    then have l: "length a = s + (w + 1)" using assms(1) by simp
    have "mp_low v (w + 1) = le_val v" using assms(2) by (intro mp_low_beyond) simp
    with mp_AddShifted_spec [OF assms(3)] l show ?thesis by (simp del: mp_low.simps)
  qed
  then show "length a' = length a" and "unat c \<le> 1"
    and "le_val a' + unat c * 2 ^ (32 * length a) = le_val a + le_val v * 2 ^ (32 * s)" by simp_all
qed

text \<open>Subtracting the estimated multiple and adding the divisor back yields the digit and the remainder.\<close>

lemma digit_corrected:
  assumes len: "length a = s + w \<or> length a = s + w + 1" and lw: "length dv = w"
    and le: "le_val a div (le_val dv * 2 ^ (32 * s)) \<le> unat g"
    and ge: "unat g \<le> le_val a div (le_val dv * 2 ^ (32 * s)) + 2"
    and short: "length a = s + w \<Longrightarrow> le_val dv * unat g < 2 ^ (32 * w)" and D: "0 < le_val dv"
    and r: "(q, a') =
      (let (carry0, this) = mp_SubShifted s (w + 1) (mp_mul dv [g]) a
       in if carry0 \<noteq> 0 then
            let res = g - 1; (carry1, this) = mp_AddShifted s (w + 1) dv this
            in if carry1 = 0 then (res - 1, snd (mp_AddShifted s (w + 1) dv this)) else (res, this)
          else (g, this))"
  shows "length a' = length a" and "unat q = le_val a div (le_val dv * 2 ^ (32 * s))"
    and "le_val a' = le_val a mod (le_val dv * 2 ^ (32 * s))"
proof -
  define T D' Q N where "T = le_val a" and "D' = le_val dv * 2 ^ (32 * s)" and "Q = T div D'"
    and "N = (2 :: nat) ^ (32 * length a)"
  have D': "0 < D'" using D by (simp add: D'_def)
  have Q: "Q * D' \<le> T" "T < Q * D' + D'" "T mod D' = T - Q * D'"
    using D' dividend_less_div_times [OF D', of T] by (simp_all add: Q_def minus_div_mult_eq_mod add.commute)
  have Qg: "Q \<le> unat g" "unat g \<le> Q + 2" using le ge by (simp_all add: Q_def T_def D'_def)
  obtain c0 a1 where e1: "mp_SubShifted s (w + 1) (mp_mul dv [g]) a = (c0, a1)" by fastforce
  have ml: "length (mp_mul dv [g]) = w + 1" using lw by (simp add: length_mp_mul)
  have mv: "le_val (mp_mul dv [g]) = le_val dv * unat g" by (simp add: mp_mul_val)
  have sv: "length a = s + w \<Longrightarrow> le_val (mp_mul dv [g]) < 2 ^ (32 * w)" using short by (simp add: mv)
  note S = SubShifted_product [OF len ml sv e1]
  have T1: "int (le_val a1) + c0 * int N = int T - int (unat g * D')"
    using S(3) unfolding mv by (simp add: N_def T_def D'_def algebra_simps)
  have a1N: "le_val a1 < N" and TN: "T < N" using le_val_less [of a1] le_val_less [of a] S(1) by (simp_all add: N_def T_def)
  have goal: "length a' = length a \<and> unat q = Q \<and> le_val a' = T - Q * D'"
  proof (cases "c0 = 0")
    case True
    have "int (unat g * D') \<le> int T" using T1 True by simp
    then have gT: "unat g * D' \<le> T" by (simp only: of_nat_le_iff)
    then have "unat g \<le> Q" using D' by (simp add: Q_def less_eq_div_iff_mult_less_eq)
    then have gQ: "unat g = Q" using Qg by simp
    have "le_val a1 = T - Q * D'" using T1 True gT gQ by (simp add: of_nat_diff [symmetric] del: of_nat_mult)
    moreover have "(q, a') = (g, a1)" using r e1 True by simp
    ultimately show ?thesis using S(1) gQ by simp
  next
    case False
    then have c0: "c0 = -1" using S(2) by simp
    have "int (le_val a1 + unat g * D') = int (T + N)" using T1 c0 by simp
    then have a1: "le_val a1 + unat g * D' = T + N" by (simp only: of_nat_eq_iff)
    then have "T < unat g * D'" using a1N by linarith
    then have "Q < unat g" by (simp add: Q_def D' div_less_iff_less_mult)
    then have g0: "unat (g - 1) = unat g - 1"
      by (metis Suc_leI diff_is_0_eq' gr_implies_not0 not_less_eq_eq unat_minus_one unsigned_0 unat_eq_zero zero_diff)
    obtain c1 a2 where e2: "mp_AddShifted s (w + 1) dv a1 = (c1, a2)" by fastforce
    have l1: "length a1 = s + w \<or> length a1 = s + w + 1" using len S(1) by simp
    note A = AddShifted_divisor [OF l1 lw e2]
    have a2: "le_val a2 + unat c1 * N = le_val a1 + D'" using A(3) S(1) by (simp add: N_def D'_def)
    have a2N: "le_val a2 < N" using le_val_less [of a2] S(1) A(1) by (simp add: N_def)
    consider "unat g = Q + 1" | "unat g = Q + 2" using \<open>Q < unat g\<close> Qg by linarith
    then show ?thesis
    proof cases
      case 1
      have sum: "le_val a2 + unat c1 * N + Q * D' = T + N" using a1 a2 unfolding 1 by simp
      have "unat c1 \<noteq> 0" using sum Q(1) a2N by (intro notI) simp
      then have c1: "unat c1 = 1" using A(2) by simp
      have "(q, a') = (g - 1, a2)" using r e1 e2 c0 c1 by (auto simp: Let_def)
      moreover have "le_val a2 = T - Q * D'" using sum c1 by simp
      ultimately show ?thesis using g0 1 A(1) S(1) by simp
    next
      case 2
      have sum: "le_val a2 + unat c1 * N + Q * D' + D' = T + N" using a1 a2 unfolding 2 by (simp add: algebra_simps)
      have "unat c1 = 0"
      proof (rule ccontr)
        assume "unat c1 \<noteq> 0"
        then have "unat c1 = 1" using A(2) by simp
        then show False using sum Q(2) by simp
      qed
      then have c1: "c1 = 0" by (simp add: unat_eq_zero)
      obtain c2 a3 where e3: "mp_AddShifted s (w + 1) dv a2 = (c2, a3)" by fastforce
      have l2: "length a2 = s + w \<or> length a2 = s + w + 1" using l1 A(1) by simp
      note A2 = AddShifted_divisor [OF l2 lw e3]
      have "le_val a3 + unat c2 * N = le_val a2 + D'" using A2(3) A(1) S(1) by (simp add: N_def D'_def)
      then have sum2: "le_val a3 + unat c2 * N + Q * D' = T + N" using sum c1 by simp
      have a3N: "le_val a3 < N" using le_val_less [of a3] S(1) A(1) A2(1) by (simp add: N_def)
      have "unat c2 \<noteq> 0" using sum2 Q(1) a3N by (intro notI) simp
      then have "unat c2 = 1" using A2(2) by simp
      then have "le_val a3 = T - Q * D'" using sum2 by simp
      moreover have "(q, a') = (g - 1 - 1, a3)" using r e1 e2 e3 c0 c1 by (auto simp: Let_def)
      moreover have "unat (g - 1 - 1) = Q"
      proof -
        have "unat (g - 1) = Q + 1" using g0 2 by simp
        then have "g - 1 \<noteq> 0" by (metis Suc_eq_plus1 nat.simps(3) unsigned_0)
        then show ?thesis using \<open>unat (g - 1) = Q + 1\<close> unat_minus_one [of "g - 1"] by simp
      qed
      ultimately show ?thesis using A(1) A2(1) S(1) by simp
    qed
  qed
  then show "length a' = length a" and "unat q = le_val a div (le_val dv * 2 ^ (32 * s))"
    and "le_val a' = le_val a mod (le_val dv * 2 ^ (32 * s))"
    using Q(3) by (simp_all add: T_def D'_def Q_def)
qed

lemma le_val_words:
  assumes "length a \<le> s + k + 2"
  shows "le_val a = mp_low a (s + k) + (unat (mp_get a (s + k + 2)) * 2 ^ 32 + unat (mp_get a (s + k + 1))) * 2 ^ (32 * (s + k))"
proof -
  have "le_val a = mp_low a (Suc (Suc (s + k)))" using assms by (simp add: mp_low_beyond del: mp_low.simps)
  then show ?thesis by (simp add: algebra_simps power_add)
qed

lemma mp_DivDigit_spec:
  assumes norm: "mp_normalized dv" and len: "length a = s + length dv \<or> length a = s + length dv + 1"
    and lt: "le_val a < le_val dv * 2 ^ (32 * (s + 1))" and ok: "mp_digit_ok s dv a"
    and e: "mp_DivDigit s dv a = (q, a')"
  shows "length a' = length a" and "unat q = le_val a div (le_val dv * 2 ^ (32 * s))"
    and "le_val a' = le_val a mod (le_val dv * 2 ^ (32 * s))"
proof -
  obtain k where w: "length dv = Suc k" using norm by (cases "length dv") (simp_all add: mp_normalized_def)
  define v h l where "v = mp_get dv (length dv)" and "h = mp_get a (length dv + s + 1)" and "l = mp_get a (length dv + s)"
  have words: "v = mp_get dv (Suc k)" "h = mp_get a (s + k + 2)" "l = mp_get a (s + k + 1)"
    using w by (simp_all add: v_def h_def l_def add.commute)
  define P S :: nat where "P = 2 ^ (32 * k)" and "S = 2 ^ (32 * s)"
  define R t where "R = le_val a div S" and "t = unat h * 2 ^ 32 + unat l"
  define r where "r = mp_low a (s + k) div S"
  have S: "0 < S" by (simp add: S_def)
  have vv: "2 ^ 31 \<le> unat v" "unat v < 2 ^ 32" using norm unat_u32_less [of v] by (simp_all add: mp_normalized_def v_def)
  have hl: "unat h < 2 ^ 32" "unat l < 2 ^ 32" using unat_u32_less by simp_all
  have D: "le_val dv = unat v * P + mp_low dv k" "mp_low dv k < P"
    using mp_low_length [of dv] mp_low_less [of dv k] w by (simp_all add: words P_def)
  have "length a \<le> s + k + 2" using len w by auto
  from le_val_words [OF this] have "le_val a = mp_low a (s + k) + t * P * S"
    by (simp add: t_def words P_def S_def power_add algebra_simps)
  then have R: "R = t * P + r" using S by (simp add: R_def r_def)
  have rP: "r < P"
    using mp_low_less [of a "s + k"] S by (simp add: r_def P_def S_def div_less_iff_less_mult power_add algebra_simps)
  have "le_val a < le_val dv * 2 ^ 32 * S" using lt by (simp add: S_def power_add algebra_simps)
  then have RD: "R < le_val dv * 2 ^ 32" using S by (simp add: R_def div_less_iff_less_mult)
  have hv: "unat h \<le> unat v"
  proof (rule ccontr)
    assume "\<not> unat h \<le> unat v"
    then have "(unat v + 1) * 2 ^ 32 \<le> t" by (simp add: t_def)
    then have "(unat v + 1) * 2 ^ 32 * P \<le> t * P" by (intro mult_right_mono) simp_all
    then have "(unat v + 1) * 2 ^ 32 * P \<le> R" using R by linarith
    moreover have "le_val dv * 2 ^ 32 < (unat v + 1) * P * 2 ^ 32" using D by (intro mult_strict_right_mono) simp_all
    ultimately show False using RD by (simp add: algebra_simps)
  qed
  define est where "est = t div unat v"
  have okc: "unat h < unat v \<or> unat l < unat v"
    using ok hv by (auto simp: mp_digit_ok_def h_def [symmetric] l_def [symmetric] v_def [symmetric] word_le_nat_alt word_unat_eq_iff
        simp del: One_nat_def)
  have v0: "v \<noteq> 0" using vv(1) by (auto simp: unat_eq_zero)
  define res :: u32 where "res = ucast ((push_bit 32 (ucast h) OR ucast l :: u64) div ucast v)"
  have res: "unat res = est mod 2 ^ 32" by (simp add: res_def byte_simps hiPart_div [OF v0] est_def t_def)
  have QR: "le_val a div (le_val dv * 2 ^ (32 * s)) = R div le_val dv"
    unfolding R_def S_def by (metis div_mult2_eq mult.commute)
  have body: "(q, a') = (if res = 0 \<and> h = 0 then (0, a) else
      let g = (if res = 0 then - 1 else res);
          (carry0, this) = mp_SubShifted s (length dv + 1) (mp_mul dv [g]) a
       in if carry0 \<noteq> 0 then
            let res = g - 1; (carry1, this) = mp_AddShifted s (length dv + 1) dv this
            in if carry1 = 0 then (res - 1, snd (mp_AddShifted s (length dv + 1) dv this)) else (res, this)
          else (g, this))"
    unfolding e [symmetric] mp_DivDigit_def Let_def res_def h_def l_def v_def by (rule refl)
  have "length a' = length a \<and> unat q = le_val a div (le_val dv * 2 ^ (32 * s)) \<and>
    le_val a' = le_val a mod (le_val dv * 2 ^ (32 * s))"
  proof (cases "res = 0 \<and> h = 0")
    case True
    have "est < 2 ^ 32" using True hl(2) vv(1) by (simp add: est_def t_def div_less_iff_less_mult)
    then have "est = 0" using res True by simp
    then have "t < unat v" using vv(1) by (simp add: est_def div_eq_0_iff)
    then have "(t + 1) * P \<le> unat v * P" by (intro mult_right_mono) simp_all
    then have "R < le_val dv" using R rP D(1) by simp
    then have "le_val a < le_val dv * S" using S by (simp add: R_def div_less_iff_less_mult)
    then show ?thesis using True body by (simp add: S_def)
  next
    case False
    define g where "g = (if res = 0 then - 1 else res)"
    have g: "unat g < 2 ^ 32" "unat g * unat v \<le> t" "t < (unat g + 1) * unat v \<or> R < (unat g + 1) * le_val dv"
    proof -
      show "unat g < 2 ^ 32" using unat_u32_less [of g] by simp
      have "unat g * unat v \<le> t \<and> (t < (unat g + 1) * unat v \<or> R < (unat g + 1) * le_val dv)"
      proof (cases "unat h < unat v")
        case True
        have "t < unat v * 2 ^ 32"
        proof -
          have "(unat h + 1) * 2 ^ 32 \<le> unat v * 2 ^ 32" using True by (intro mult_right_mono) simp_all
          then show ?thesis using hl(2) by (simp add: t_def)
        qed
        then have eb: "est < 2 ^ 32" using vv(1) by (simp add: est_def div_less_iff_less_mult mult.commute)
        have "res \<noteq> 0"
        proof
          assume "res = 0"
          then have "est = 0" using res eb by simp
          then have "t < unat v" using vv(1) by (simp add: est_def div_eq_0_iff)
          moreover have "h \<noteq> 0" using False \<open>res = 0\<close> by simp
          ultimately show False using vv(2) unat_gt_0 [of h] by (simp add: t_def)
        qed
        then have "unat g = est" using res eb by (simp add: g_def)
        then show ?thesis using vv(1) dividend_less_div_times [of "unat v" t] by (simp add: est_def algebra_simps)
      next
        case F: False
        then have "unat h = unat v" "unat l < unat v" using hv okc by simp_all
        then have "est = 2 ^ 32" using vv(1) by (simp add: est_def t_def)
        then have "res = 0" using res by (simp add: unat_eq_zero [symmetric])
        then have g1: "unat g + 1 = 2 ^ 32" by (simp add: g_def unsigned_minus_1_eq_mask mask_eq_exp_minus_1)
        have "unat g * unat v \<le> t"
        proof -
          have "unat g * unat v \<le> 2 ^ 32 * unat v" using g1 by (intro mult_right_mono) simp_all
          also have "\<dots> \<le> t" using \<open>unat h = unat v\<close> by (simp add: t_def)
          finally show ?thesis .
        qed
        then show ?thesis using RD g1 by (simp add: mult.commute)
      qed
      then show "unat g * unat v \<le> t" "t < (unat g + 1) * unat v \<or> R < (unat g + 1) * le_val dv" by simp_all
    qed
    have B: "(2 :: nat) ^ 32 \<le> 2 * unat v" using vv(1) by simp
    note E = digit_estimate [OF D(1,2) R rP B g]
    have short: "length a = s + length dv \<Longrightarrow> le_val dv * unat g < 2 ^ (32 * length dv)"
    proof -
      assume "length a = s + length dv"
      then have "h = 0" by (simp add: h_def add.commute)
      then have "t < 2 * unat v" using hl(2) B by (simp add: t_def)
      then have "unat g * unat v < 2 * unat v" using g(2) by linarith
      then have "unat g \<le> 1" using vv(1) by simp
      then have "le_val dv * unat g \<le> le_val dv * 1" by (intro mult_left_mono) simp_all
      then show ?thesis using le_val_less [of dv] by linarith
    qed
    have rr: "(q, a') =
      (let (carry0, this) = mp_SubShifted s (length dv + 1) (mp_mul dv [g]) a
       in if carry0 \<noteq> 0 then
            let res = g - 1; (carry1, this) = mp_AddShifted s (length dv + 1) dv this
            in if carry1 = 0 then (res - 1, snd (mp_AddShifted s (length dv + 1) dv this)) else (res, this)
          else (g, this))"
      using body False by (simp only: if_False Let_def g_def [symmetric])
    show ?thesis
      using digit_corrected [OF len refl _ _ short E(3) rr] E(1,2) unfolding QR by simp
  qed
  then show "length a' = length a" and "unat q = le_val a div (le_val dv * 2 ^ (32 * s))"
    and "le_val a' = le_val a mod (le_val dv * 2 ^ (32 * s))" by simp_all
qed

section \<open>Division\<close>

lemma mp_normalized_lower:
  assumes "mp_normalized dv"
  shows "2 ^ (32 * (length dv - 1)) \<le> le_val dv" and "le_val dv < 2 ^ (32 * length dv)"
proof -
  obtain k where w: "length dv = Suc k" using assms by (cases "length dv") (simp_all add: mp_normalized_def)
  have "1 \<le> unat (mp_get dv (Suc k))" using assms w by (simp add: mp_normalized_def)
  then have "1 * 2 ^ (32 * k) \<le> unat (mp_get dv (Suc k)) * 2 ^ (32 * k)" by (intro mult_right_mono) simp_all
  moreover have "le_val dv = mp_low dv k + unat (mp_get dv (Suc k)) * 2 ^ (32 * k)" using mp_low_length [of dv] w by simp
  ultimately have "2 ^ (32 * k) \<le> le_val dv" by linarith
  then show "2 ^ (32 * (length dv - 1)) \<le> le_val dv" using w by simp
  show "le_val dv < 2 ^ (32 * length dv)" by (rule le_val_less)
qed

lemma mp_DivOnceNormalized_spec:
  assumes norm: "mp_normalized dv" and lt: "le_val a < le_val dv * 2 ^ (32 * (s + 1))" and ok: "mp_digit_ok s dv a"
    and e: "mp_DivOnceNormalized s dv a = (q, a')"
  shows "length a' = length a" and "unat q = le_val a div (le_val dv * 2 ^ (32 * s))"
    and "le_val a' = le_val a mod (le_val dv * 2 ^ (32 * s))"
proof -
  define n where "n = length dv + s + 1"
  have "length a' = length a \<and> unat q = le_val a div (le_val dv * 2 ^ (32 * s)) \<and>
    le_val a' = le_val a mod (le_val dv * 2 ^ (32 * s))"
  proof -
    consider "n < length a" | "length a < length dv + s" | "length a = s + length dv \<or> length a = s + length dv + 1"
      unfolding n_def by linarith
    then show ?thesis
    proof cases
      case 1
      have "le_val dv * 2 ^ (32 * (s + 1)) < 2 ^ (32 * length dv) * 2 ^ (32 * (s + 1))"
        using mp_normalized_lower(2) [OF norm] by (intro mult_strict_right_mono) simp_all
      then have "le_val a < 2 ^ (32 * n)" using lt by (simp add: n_def power_add [symmetric] algebra_simps)
      moreover have sp: "le_val a = le_val (take n a) + 2 ^ (32 * n) * le_val (drop n a)"
        using le_val_append [of "take n a" "drop n a"] 1 by simp
      ultimately have hi: "le_val (drop n a) = 0" by (cases "le_val (drop n a)") simp_all
      obtain x low where "mp_DivDigit s dv (take n a) = (x, low)" by fastforce
      moreover from this have "(q, a') = (x, low @ drop n a)" using e 1 by (simp add: mp_DivOnceNormalized_def n_def)
      ultimately have d: "mp_DivDigit s dv (take n a) = (q, low)" "a' = low @ drop n a" by simp_all
      have g: "mp_get (take n a) i = mp_get a i" if "i \<le> n" for i
        using that 1 by (cases i) (simp_all add: mp_get_def)
      have ok': "mp_digit_ok s dv (take n a)" using ok g [of "length dv + s + 1"] g [of "length dv + s"] by (simp add: mp_digit_ok_def n_def)
      have len: "length (take n a) = s + length dv \<or> length (take n a) = s + length dv + 1" using 1 by (simp add: n_def)
      have lt': "le_val (take n a) < le_val dv * 2 ^ (32 * (s + 1))" using lt sp hi by simp
      note D = mp_DivDigit_spec [OF norm len lt' ok' d(1)]
      show ?thesis using D sp hi d(2) 1 by (simp add: le_val_append)
    next
      case 2
      then have "(q, a') = (0, a)" using e by (simp add: mp_DivOnceNormalized_def n_def [symmetric] Let_def)
      moreover have "le_val a < le_val dv * 2 ^ (32 * s)"
      proof -
        have "le_val a < 2 ^ (32 * length a)" by (rule le_val_less)
        also have "\<dots> \<le> 2 ^ (32 * (length dv - 1) + 32 * s)" using 2 by (intro power_increasing) simp_all
        also have "\<dots> \<le> le_val dv * 2 ^ (32 * s)"
          unfolding power_add using mp_normalized_lower(1) [OF norm] by (intro mult_right_mono) simp_all
        finally show ?thesis .
      qed
      ultimately show ?thesis by simp
    next
      case 3
      then have "mp_DivDigit s dv a = (q, a')" using e by (auto simp: mp_DivOnceNormalized_def Let_def)
      from mp_DivDigit_spec [OF norm 3 lt ok this] show ?thesis by simp
    qed
  qed
  then show "length a' = length a" and "unat q = le_val a div (le_val dv * 2 ^ (32 * s))"
    and "le_val a' = le_val a mod (le_val dv * 2 ^ (32 * s))" by simp_all
qed

fun mp_digits_ok :: "nat \<Rightarrow> UInt \<Rightarrow> UInt \<Rightarrow> bool" where
  "mp_digits_ok 0 resid dv = True"
| "mp_digits_ok (Suc n) resid dv =
    (mp_digit_ok n dv resid \<and> mp_digits_ok n (snd (mp_DivOnceNormalized n dv resid)) dv)"

lemma mp_SetDivResidNormalized_spec:
  assumes "mp_normalized dv" and "le_val a < le_val dv * 2 ^ (32 * n)" and "mp_digits_ok n a dv"
    and "mp_SetDivResidNormalized n a dv = (q, a')"
  shows "length q = n \<and> length a' = length a \<and> le_val q = le_val a div le_val dv \<and> le_val a' = le_val a mod le_val dv"
  using assms(2-4)
proof (induction n arbitrary: a q a')
  case 0
  then show ?case by simp
next
  case (Suc n)
  obtain x a1 where e1: "mp_DivOnceNormalized n dv a = (x, a1)" by fastforce
  obtain qs a2 where e2: "mp_SetDivResidNormalized n a1 dv = (qs, a2)" by fastforce
  have r: "q = qs @ [x]" "a' = a2" using Suc.prems(3) e1 e2 by simp_all
  define D S where "D = le_val dv" and "S = (2 :: nat) ^ (32 * n)"
  have D: "0 < D" using mp_normalized_lower(1) [OF assms(1)] by (simp add: D_def) (metis less_le_trans zero_less_numeral zero_less_power)
  have lt: "le_val a < le_val dv * 2 ^ (32 * (n + 1))" using Suc.prems(1) by simp
  note O = mp_DivOnceNormalized_spec [OF assms(1) lt _ e1]
  have ok: "mp_digit_ok n dv a" "mp_digits_ok n a1 dv" using Suc.prems(2) e1 by simp_all
  have a1: "le_val a1 = le_val a mod (D * S)" "unat x = le_val a div (D * S)" "length a1 = length a"
    using O [OF ok(1)] by (simp_all add: D_def S_def)
  have "le_val a1 < le_val dv * 2 ^ (32 * n)" using D by (simp add: a1 D_def [symmetric] S_def)
  note IH = Suc.IH [OF this ok(2) e2]
  have m: "le_val a = D * S * unat x + le_val a1" by (simp add: a1)
  have "le_val q = le_val a1 div D + S * unat x" using IH by (simp add: r le_val_append D_def S_def)
  also have "\<dots> = le_val a div D" using D by (simp add: m mult.assoc)
  finally have "le_val q = le_val a div D" .
  moreover have "le_val a2 = le_val a mod D" using IH by (simp add: m D_def [symmetric] mult.assoc)
  ultimately show ?case using IH a1(3) by (simp add: r D_def)
qed

section \<open>Shifts by less than a word\<close>

lemma mp_get_map_upt: "1 \<le> d \<Longrightarrow> d \<le> n \<Longrightarrow> mp_get (map f [1..<Suc n]) d = f d"
  by (simp add: mp_get_def del: upt_Suc)

lemma unat_push_bit_u32: "unat (push_bit b (x :: u32)) = (unat x * 2 ^ b) mod 2 ^ 32"
  by (simp only: unsigned_push_bit_eq) (simp add: take_bit_eq_mod push_bit_eq_mult)

lemma shl_mod_div:
  fixes x :: nat
  assumes "b < 32"
  shows "(x * 2 ^ b) mod 2 ^ 32 = (x mod 2 ^ (32 - b)) * 2 ^ b" and "(x * 2 ^ b) div 2 ^ 32 = x div 2 ^ (32 - b)"
proof -
  have e: "(2 :: nat) ^ 32 = 2 ^ (32 - b) * 2 ^ b" using assms by (simp add: power_add [symmetric])
  show "(x * 2 ^ b) mod 2 ^ 32 = (x mod 2 ^ (32 - b)) * 2 ^ b" unfolding e by simp
  show "(x * 2 ^ b) div 2 ^ 32 = x div 2 ^ (32 - b)" unfolding e by simp
qed

text \<open>Joining the bits of two neighbouring words is an addition.\<close>

lemma unat_join:
  fixes x y :: u32
  assumes "0 < b" and "b < 32"
  shows "unat (push_bit b x OR drop_bit (32 - b) y) = (unat x * 2 ^ b) mod 2 ^ 32 + unat y div 2 ^ (32 - b)"
proof -
  have y: "unat y div 2 ^ (32 - b) < 2 ^ b"
    using unat_u32_less [of y] assms by (simp add: div_less_iff_less_mult power_add [symmetric])
  then have "push_bit b x OR drop_bit (32 - b) y = push_bit b x + drop_bit (32 - b) y"
    by (intro word_or_disjoint_add) (simp_all add: unat_drop_bit)
  moreover have "(unat x * 2 ^ b) mod 2 ^ 32 + unat y div 2 ^ (32 - b) < 2 ^ 32"
  proof -
    have "(unat x mod 2 ^ (32 - b) + 1) * 2 ^ b \<le> 2 ^ (32 - b) * 2 ^ b" by (intro mult_right_mono) (simp_all add: Suc_leI)
    then show ?thesis using y assms(2) unfolding shl_mod_div(1) [OF assms(2)] by (simp add: power_add [symmetric])
  qed
  ultimately show ?thesis by (simp add: unat_word_ariths unat_push_bit_u32 unat_drop_bit)
qed

lemma mp_Set_LShift_low:
  assumes "0 < b" and "b < 32" and "k \<le> n"
  shows "mp_low (mp_Set_LShift n b a) k + unat (mp_get a k) div 2 ^ (32 - b) * 2 ^ (32 * k) = mp_low a k * 2 ^ b"
  using assms(3)
proof (induction k)
  case 0
  then show ?case by (simp add: mp_get_def)
next
  case (Suc k)
  define x y where "x = unat (mp_get a (Suc k))" and "y = unat (mp_get a k)"
  have w: "unat (mp_get (mp_Set_LShift n b a) (Suc k)) = (x * 2 ^ b) mod 2 ^ 32 + y div 2 ^ (32 - b)"
    unfolding mp_Set_LShift_def using Suc.prems
    by (subst mp_get_map_upt) (simp_all add: unat_join [OF assms(1,2)] x_def y_def)
  define h where "h = (x * 2 ^ b) div 2 ^ 32"
  have h: "x div 2 ^ (32 - b) = h" by (simp only: h_def shl_mod_div(2) [OF assms(2)])
  define m where "m = (x * 2 ^ b) mod 2 ^ 32"
  have mh: "x * 2 ^ b = m + 2 ^ 32 * h" unfolding h_def m_def by (rule mod_mult_div_eq [symmetric])
  have IH: "mp_low (mp_Set_LShift n b a) k + y div 2 ^ (32 - b) * 2 ^ (32 * k) = mp_low a k * 2 ^ b"
    using Suc by (simp add: y_def)
  have "mp_low a (Suc k) * 2 ^ b = mp_low a k * 2 ^ b + (x * 2 ^ b) * 2 ^ (32 * k)" by (simp add: x_def algebra_simps)
  also have "\<dots> = mp_low (mp_Set_LShift n b a) k + (m + y div 2 ^ (32 - b)) * 2 ^ (32 * k) + h * 2 ^ (32 * Suc k)"
    unfolding mh IH [symmetric] by (simp add: algebra_simps power_add)
  finally show ?case using w by (simp add: m_def x_def [symmetric] h)
qed

lemma length_mp_Set_LShift [simp]: "length (mp_Set_LShift n b a) = n"
  and length_mp_Set_RShift [simp]: "length (mp_Set_RShift n b a) = n"
  by (simp_all add: mp_Set_LShift_def mp_Set_RShift_def)

lemma mp_Set_LShift_val:
  assumes "0 < b" and "b < 32" and "le_val a * 2 ^ b < 2 ^ (32 * n)" and "length a \<le> n"
  shows "le_val (mp_Set_LShift n b a) = le_val a * 2 ^ b"
proof -
  let ?L = "mp_Set_LShift n b a" and ?h = "unat (mp_get a n) div 2 ^ (32 - b)"
  have "le_val ?L + ?h * 2 ^ (32 * n) = le_val a * 2 ^ b"
    using mp_Set_LShift_low [OF assms(1,2) order_refl, of n a] mp_low_length [of ?L] assms(4) by (simp add: mp_low_beyond)
  moreover from this have "?h = 0" using assms(3) by (cases ?h) simp_all
  ultimately show ?thesis by simp
qed

lemma mp_Set_RShift_low:
  assumes "0 < b" and "b < 32" and "k \<le> n"
  shows "mp_low (mp_Set_RShift n b a) k * 2 ^ b + unat (mp_get a 1) mod 2 ^ b =
    mp_low a k + unat (mp_get a (Suc k)) mod 2 ^ b * 2 ^ (32 * k)"
  using assms(3)
proof (induction k)
  case 0
  then show ?case by simp
next
  case (Suc k)
  define x y where "x = unat (mp_get a (Suc k))" and "y = unat (mp_get a (Suc (Suc k)))"
  have b: "0 < 32 - b" "32 - b < 32" "32 - (32 - b) = b" using assms by simp_all
  have w: "unat (mp_get (mp_Set_RShift n b a) (Suc k)) = (y mod 2 ^ b) * 2 ^ (32 - b) + x div 2 ^ b"
    unfolding mp_Set_RShift_def using Suc.prems unat_join [OF b(1,2), of "mp_get a (Suc (Suc k))" "mp_get a (Suc k)"]
      shl_mod_div(1) [OF b(2), of y]
    by (subst mp_get_map_upt) (simp_all add: x_def y_def b(3) or.commute)
  have p: "(2 :: nat) ^ (32 - b) * 2 ^ b = 2 ^ 32" using assms by (simp add: power_add [symmetric])
  define m where "m = y mod 2 ^ b"
  have "unat (mp_get (mp_Set_RShift n b a) (Suc k)) * 2 ^ b = m * 2 ^ 32 + x div 2 ^ b * 2 ^ b"
    unfolding w m_def [symmetric] p [symmetric] by (simp add: algebra_simps)
  then have step: "unat (mp_get (mp_Set_RShift n b a) (Suc k)) * 2 ^ b + x mod 2 ^ b = m * 2 ^ 32 + x"
    using div_mult_mod_eq [of x "2 ^ b"] by linarith
  have IH: "mp_low (mp_Set_RShift n b a) k * 2 ^ b + unat (mp_get a 1) mod 2 ^ b = mp_low a k + x mod 2 ^ b * 2 ^ (32 * k)"
    using Suc by (simp add: x_def)
  have "mp_low (mp_Set_RShift n b a) (Suc k) * 2 ^ b + unat (mp_get a 1) mod 2 ^ b =
      mp_low a k + (unat (mp_get (mp_Set_RShift n b a) (Suc k)) * 2 ^ b + x mod 2 ^ b) * 2 ^ (32 * k)"
    using IH by (simp add: algebra_simps)
  also have "\<dots> = mp_low a (Suc k) + m * 2 ^ (32 * Suc k)"
    unfolding step by (simp add: algebra_simps power_add x_def)
  finally show ?case by (simp add: m_def y_def)
qed

lemma mp_Set_RShift_val:
  assumes "0 < b" and "b < 32" and "le_val a < 2 ^ b * 2 ^ (32 * n)" and "length a = n + 1"
  shows "le_val (mp_Set_RShift n b a) = le_val a div 2 ^ b"
proof -
  let ?R = "mp_Set_RShift n b a" and ?h = "unat (mp_get a (Suc n))"
  have v: "le_val a = mp_low a n + ?h * 2 ^ (32 * n)" using mp_low_length [of a] assms(4) by simp
  have "?h < 2 ^ b"
  proof (rule ccontr)
    assume "\<not> ?h < 2 ^ b"
    then have "2 ^ b * 2 ^ (32 * n) \<le> ?h * 2 ^ (32 * n)" by (intro mult_right_mono) simp_all
    then show False using v assms(3) by linarith
  qed
  then have "le_val ?R * 2 ^ b + unat (mp_get a 1) mod 2 ^ b = le_val a"
    using mp_Set_RShift_low [OF assms(1,2) order_refl, of n a] v mp_low_length [of ?R] by simp
  then have "le_val a div 2 ^ b = (le_val ?R * 2 ^ b + unat (mp_get a 1) mod 2 ^ b) div 2 ^ b" by simp
  also have "\<dots> = le_val ?R" by simp
  finally show ?thesis by simp
qed

section \<open>Division by any divisor\<close>

function mp_div_ok :: "nat \<Rightarrow> UInt \<Rightarrow> UInt \<Rightarrow> bool" where
  "mp_div_ok n resid b =
    (if b = [] then True
     else
       let val = mp_get b (length b) in
       if val \<noteq> 0 then
         let nBits = FindHiBit val in
         if 32 = nBits then mp_digits_ok n resid b
         else mp_digits_ok n (mp_Set_LShift (length resid + 1) (32 - nBits) resid) (mp_Set_LShift (length b) (32 - nBits) b)
       else mp_div_ok n resid (butlast b))"
  by pat_completeness auto
termination by (relation "measure (\<lambda>(_, _, b). length b)") auto

declare mp_div_ok.simps [simp del]

lemma le_val_butlast: "b \<noteq> [] \<Longrightarrow> mp_get b (length b) = 0 \<Longrightarrow> le_val (butlast b) = le_val b"
proof -
  assume b: "b \<noteq> []" "mp_get b (length b) = 0"
  then have "last b = 0" by (simp add: mp_get_def last_conv_nth Suc_le_eq)
  then show ?thesis using le_val_append [of "butlast b" "[last b]"] append_butlast_last_id [OF b(1)] by simp
qed

lemma le_val_top:
  assumes "b \<noteq> []"
  shows "le_val b = mp_low b (length b - 1) + unat (mp_get b (length b)) * 2 ^ (32 * (length b - 1))"
    and "mp_low b (length b - 1) < 2 ^ (32 * (length b - 1))"
proof -
  obtain k where "length b = Suc k" using assms by (cases b) simp_all
  then show "le_val b = mp_low b (length b - 1) + unat (mp_get b (length b)) * 2 ^ (32 * (length b - 1))"
    using mp_low_length [of b] by simp
  show "mp_low b (length b - 1) < 2 ^ (32 * (length b - 1))" by (rule mp_low_less)
qed

text \<open>Normalising: the shifted divisor fits its words and has its top bit set.\<close>

lemma normalize_divisor:
  assumes "b \<noteq> []" and "mp_get b (length b) \<noteq> 0" and "k = 32 - FindHiBit (mp_get b (length b))" and "k \<noteq> 0"
  shows "0 < k" and "k < 32" and "le_val (mp_Set_LShift (length b) k b) = le_val b * 2 ^ k"
    and "mp_normalized (mp_Set_LShift (length b) k b)"
proof -
  define v P where "v = mp_get b (length b)" and "P = (2 :: nat) ^ (32 * (length b - 1))"
  define f where "f = FindHiBit v"
  have f: "unat v < 2 ^ f" "0 < f" "2 ^ (f - 1) \<le> unat v" "f \<le> 32" using FindHiBit_u32 [of v] assms(2) by (simp_all add: v_def f_def)
  have k: "k = 32 - f" "f + k = 32" "f - 1 + k = 31" using assms(3,4) f by (simp_all add: v_def f_def)
  show kk: "0 < k" "k < 32" using k f assms(4) by simp_all
  have B: "le_val b = mp_low b (length b - 1) + unat v * P" "mp_low b (length b - 1) < P"
    using le_val_top [OF assms(1)] by (simp_all add: v_def P_def)
  have P32: "P * 2 ^ 32 = 2 ^ (32 * length b)" using assms(1) by (cases b) (simp_all add: P_def power_add)
  have "le_val b < (unat v + 1) * P" using B by simp
  also have "\<dots> \<le> 2 ^ f * P" using f(1) by (intro mult_right_mono) simp_all
  finally have "le_val b * 2 ^ k < 2 ^ f * P * 2 ^ k" by simp
  also have "\<dots> = 2 ^ (32 * length b)" using k(2) P32 by (simp add: power_add [symmetric] mult.commute mult.left_commute)
  finally have fit: "le_val b * 2 ^ k < 2 ^ (32 * length b)" .
  show lv: "le_val (mp_Set_LShift (length b) k b) = le_val b * 2 ^ k" by (rule mp_Set_LShift_val [OF kk fit order_refl])
  let ?b2 = "mp_Set_LShift (length b) k b"
  have ne: "?b2 \<noteq> []" using assms(1) by (metis length_0_conv length_mp_Set_LShift)
  have t2: "le_val ?b2 = mp_low ?b2 (length b - 1) + unat (mp_get ?b2 (length b)) * P" "mp_low ?b2 (length b - 1) < P"
    using le_val_top [OF ne] by (simp_all add: P_def)
  have "2 ^ (f - 1) * P * 2 ^ k \<le> le_val b * 2 ^ k"
    using f(3) B(1) by (intro mult_right_mono) (simp_all add: trans_le_add2)
  moreover have e31: "2 ^ (f - 1) * P * 2 ^ k = 2 ^ 31 * P" unfolding k(3) [symmetric] power_add by simp
  ultimately have "2 ^ 31 * P \<le> le_val ?b2" unfolding lv e31 by blast
  also have "\<dots> < (unat (mp_get ?b2 (length b)) + 1) * P" using t2 by simp
  finally have "2 ^ 31 < unat (mp_get ?b2 (length b)) + 1" by (metis mult_less_cancel2)
  then show "mp_normalized ?b2" using assms(1) by (simp add: mp_normalized_def)
qed

lemma normalized_top:
  assumes "b \<noteq> []" and "FindHiBit (mp_get b (length b)) = 32"
  shows "mp_normalized b"
proof -
  have "mp_get b (length b) \<noteq> 0" using assms(2) by (auto simp: FindHiBit_def get_BitsUsed.simps)
  then show ?thesis using FindHiBit_u32(2) [of "mp_get b (length b)"] assms by (simp add: mp_normalized_def)
qed

lemma mp_SetDivResid_spec:
  "0 < le_val b \<Longrightarrow> le_val a < le_val b * 2 ^ (32 * n) \<Longrightarrow> mp_div_ok n a b \<Longrightarrow> mp_SetDivResid n a b = (q, r) \<Longrightarrow>
    length q = n \<and> length r = length a \<and> le_val q = le_val a div le_val b \<and> le_val r = le_val a mod le_val b"
proof (induction n a b rule: mp_SetDivResid.induct)
  case (1 n a b)
  have ne: "b \<noteq> []" using "1.prems"(1) by auto
  let ?v = "mp_get b (length b)"
  consider "?v = 0" | "?v \<noteq> 0" "FindHiBit ?v = 32" | "?v \<noteq> 0" "FindHiBit ?v \<noteq> 32" by blast
  then show ?case
  proof cases
    case a: 1
    have "mp_SetDivResid n a (butlast b) = (q, r)" "mp_div_ok n a (butlast b)"
      using "1.prems"(3,4) a ne by (simp_all add: mp_SetDivResid.simps [of n a b] mp_div_ok.simps [of n a b])
    with "1.IH" [OF ne refl] a "1.prems" le_val_butlast [OF ne a] show ?thesis by simp
  next
    case 2
    have "mp_SetDivResidNormalized n a b = (q, r)" "mp_digits_ok n a b"
      using "1.prems"(3,4) 2 ne by (simp_all add: mp_SetDivResid.simps [of n a b] mp_div_ok.simps [of n a b])
    with mp_SetDivResidNormalized_spec [OF normalized_top [OF ne 2(2)] "1.prems"(2)] show ?thesis by simp
  next
    case 3
    define k where "k = 32 - FindHiBit ?v"
    have k0: "k \<noteq> 0" using 3(2) FindHiBit_u32(3) [of ?v] by (simp add: k_def)
    note N = normalize_divisor [OF ne 3(1) k_def k0]
    let ?b2 = "mp_Set_LShift (length b) k b" and ?a2 = "mp_Set_LShift (length a + 1) k a"
    have k32: "(2 :: nat) ^ k < 2 ^ 32" using N(2) by (intro power_strict_increasing) simp_all
    have "le_val a * 2 ^ k < 2 ^ (32 * length a) * 2 ^ 32"
      using le_val_less [of a] k32 by (intro mult_strict_mono) simp_all
    then have fit: "le_val a * 2 ^ k < 2 ^ (32 * (length a + 1))" by (simp add: power_add mult.commute)
    have a2: "le_val ?a2 = le_val a * 2 ^ k" by (rule mp_Set_LShift_val [OF N(1,2) fit]) simp
    obtain q' r2 where e: "mp_SetDivResidNormalized n ?a2 ?b2 = (q', r2)" by fastforce
    have qr: "q = q'" "r = mp_Set_RShift (length a) k r2" and ok: "mp_digits_ok n ?a2 ?b2"
      using "1.prems"(3,4) 3 ne e
      by (simp_all add: mp_SetDivResid.simps [of n a b] mp_div_ok.simps [of n a b] k_def [symmetric] Let_def)
    have lt: "le_val ?a2 < le_val ?b2 * 2 ^ (32 * n)" using "1.prems"(2) unfolding a2 N(3) by (simp add: algebra_simps)
    note D = mp_SetDivResidNormalized_spec [OF N(4) lt ok e]
    have q: "le_val q = le_val a div le_val b" using D unfolding a2 N(3) by (simp add: qr)
    have r2: "le_val r2 = (le_val a mod le_val b) * 2 ^ k" using D unfolding a2 N(3) by (simp add: mult_mod_left)
    have l2: "length r2 = length a + 1" using D by simp
    have "le_val a mod le_val b \<le> le_val a" by simp
    then have am: "le_val a mod le_val b < 2 ^ (32 * length a)" using le_val_less [of a] by linarith
    have "le_val r2 < 2 ^ k * 2 ^ (32 * length a)" unfolding r2 using am by simp
    then have "le_val r = le_val r2 div 2 ^ k" unfolding qr by (rule mp_Set_RShift_val [OF N(1,2) _ l2])
    then have "le_val r = le_val a mod le_val b" using r2 by simp
    then show ?thesis using D q by (simp add: qr)
  qed
qed

text \<open>A one-word divisor never meets the overflow of the estimate.\<close>

lemma mp_digits_ok_one_word:
  assumes "mp_normalized dv" and "length dv = 1" and "le_val a < le_val dv * 2 ^ (32 * n)"
  shows "mp_digits_ok n a dv"
  using assms(3)
proof (induction n arbitrary: a)
  case 0
  then show ?case by simp
next
  case (Suc n)
  have D: "le_val dv = unat (mp_get dv 1)" using mp_low_length [of dv] assms(2) by simp
  have "unat (mp_get a (n + 2)) * 2 ^ (32 * (n + 1)) \<le> le_val a"
  proof (cases "n + 2 \<le> length a")
    case True
    then show ?thesis using le_val_split [OF True] by simp
  next
    case False
    then show ?thesis by simp
  qed
  moreover have lt: "le_val a < le_val dv * 2 ^ (32 * (n + 1))" using Suc.prems by simp
  ultimately have "unat (mp_get a (n + 2)) * 2 ^ (32 * (n + 1)) < unat (mp_get dv 1) * 2 ^ (32 * (n + 1))"
    using D by (metis order.strict_trans1)
  then have "unat (mp_get a (n + 2)) < unat (mp_get dv 1)" by (metis mult_less_cancel2)
  then have ok: "mp_digit_ok n dv a" using assms(2) by (auto simp: mp_digit_ok_def)
  obtain x a1 where e: "mp_DivOnceNormalized n dv a = (x, a1)" by fastforce
  have "0 < le_val dv" using assms(1) D by (simp add: mp_normalized_def assms(2))
  then have "le_val a1 < le_val dv * 2 ^ (32 * n)" using mp_DivOnceNormalized_spec(3) [OF assms(1) lt ok e] by simp
  from Suc.IH [OF this] show ?case using ok e by simp
qed

lemma mp_div_ok_small:
  "0 < le_val b \<Longrightarrow> le_val b < 2 ^ 32 \<Longrightarrow> le_val a < le_val b * 2 ^ (32 * n) \<Longrightarrow> mp_div_ok n a b"
proof (induction n a b rule: mp_SetDivResid.induct)
  case (1 n a b)
  have ne: "b \<noteq> []" using "1.prems"(1) by auto
  let ?v = "mp_get b (length b)"
  show ?case
  proof (cases "?v = 0")
    case True
    with "1.IH" [OF ne refl] "1.prems" le_val_butlast [OF ne True] show ?thesis by (simp add: mp_div_ok.simps [of n a b])
  next
    case False
    have l1: "length b = 1"
    proof (rule ccontr)
      assume "length b \<noteq> 1"
      then have l: "2 \<le> length b" using ne by (cases b) (auto simp: Suc_le_eq)
      have "1 \<le> unat ?v" using False unat_eq_zero [of ?v] by linarith
      then have "1 * 2 ^ (32 * (length b - 1)) \<le> unat ?v * 2 ^ (32 * (length b - 1))" by (intro mult_right_mono) simp_all
      then have "2 ^ (32 * (length b - 1)) \<le> le_val b" using le_val_top(1) [OF ne] by linarith
      moreover have "(2 :: nat) ^ 32 \<le> 2 ^ (32 * (length b - 1))" using l by (intro power_increasing) simp_all
      ultimately show False using "1.prems"(2) by linarith
    qed
    show ?thesis
    proof (cases "FindHiBit ?v = 32")
      case T: True
      from mp_digits_ok_one_word [OF normalized_top [OF ne T] l1 "1.prems"(3)] show ?thesis
        using False ne T by (simp add: mp_div_ok.simps [of n a b])
    next
      case F: False
      define k where "k = 32 - FindHiBit ?v"
      have k0: "k \<noteq> 0" using F FindHiBit_u32(3) [of ?v] by (simp add: k_def)
      note N = normalize_divisor [OF ne False k_def k0]
      have k32: "(2 :: nat) ^ k < 2 ^ 32" using N(2) by (intro power_strict_increasing) simp_all
      have "le_val a * 2 ^ k < 2 ^ (32 * length a) * 2 ^ 32"
        using le_val_less [of a] k32 by (intro mult_strict_mono) simp_all
      then have fit: "le_val a * 2 ^ k < 2 ^ (32 * (length a + 1))" by (simp add: power_add mult.commute)
      have a2: "le_val (mp_Set_LShift (length a + 1) k a) = le_val a * 2 ^ k"
        by (rule mp_Set_LShift_val [OF N(1,2) fit]) simp
      have "mp_digits_ok n (mp_Set_LShift (length a + 1) k a) (mp_Set_LShift (length b) k b)"
      proof (rule mp_digits_ok_one_word [OF N(4)])
        show "length (mp_Set_LShift (length b) k b) = 1" by (simp add: l1)
        show "le_val (mp_Set_LShift (length a + 1) k a) < le_val (mp_Set_LShift (length b) k b) * 2 ^ (32 * n)"
          unfolding a2 N(3) using "1.prems"(3) by (simp add: algebra_simps)
      qed
      then show ?thesis using False ne F by (simp add: mp_div_ok.simps [of n a b] k_def [symmetric] Let_def)
    qed
  qed
qed

section \<open>General shifts\<close>

lemma length_mp_Assign [simp]: "length (mp_Assign n q a) = n"
  by (simp add: mp_Assign_def)

lemma mp_get_Assign: "d \<le> n \<Longrightarrow> mp_get (mp_Assign n q a) d = mp_get a (d - q)"
proof (cases "d = 0")
  case True
  then show ?thesis by (simp add: mp_get_def)
next
  case False
  assume "d \<le> n"
  then have "mp_get (mp_Assign n q a) d = (if q \<le> d then mp_get a (d - q) else 0)"
    using False unfolding mp_Assign_def by (subst mp_get_map_upt) simp_all
  then show ?thesis by (simp add: mp_get_def)
qed

lemma mp_low_Assign: "k \<le> n \<Longrightarrow> mp_low (mp_Assign n q a) k = mp_low a (k - q) * 2 ^ (32 * q)"
proof (induction k)
  case 0
  then show ?case by simp
next
  case (Suc k)
  show ?case
  proof (cases "q \<le> k")
    case True
    then have "mp_low a (Suc k - q) = mp_low a (k - q) + unat (mp_get a (Suc k - q)) * 2 ^ (32 * (k - q))"
      by (simp add: Suc_diff_le)
    moreover have "(2 :: nat) ^ (32 * (k - q)) * 2 ^ (32 * q) = 2 ^ (32 * k)"
      using True by (simp add: power_add [symmetric] right_diff_distrib')
    ultimately show ?thesis using Suc by (simp add: mp_get_Assign algebra_simps)
  next
    case False
    then have "mp_get a (Suc k - q) = 0" by (simp add: mp_get_def)
    then show ?thesis using Suc False by (simp add: mp_get_Assign)
  qed
qed

lemma mp_Assign_val: "length a + q \<le> n \<Longrightarrow> le_val (mp_Assign n q a) = le_val a * 2 ^ (32 * q)"
  using mp_low_Assign [of n n q a] mp_low_length [of "mp_Assign n q a"] by (simp add: mp_low_beyond)

text \<open>The index of \<open>SetShifted\<close> starts below zero, which wraps past the end of the source.\<close>

lemma mp_get_Safe_below:
  assumes "length src + q + 1 < 2 ^ 32" and "d < 2 ^ 32"
  shows "mp_get_Safe src (of_nat d - of_nat q - 1) = mp_get src (d - q)"
proof -
  have safe: "mp_get_Safe src i = (if unat i < length src then src ! unat i else 0)" for i
    using assms(1) by (simp add: mp_get_Safe_def word_less_nat_alt unat_of_nat)
  show ?thesis
  proof (cases "q < d")
    case True
    have e: "of_nat d - of_nat q - 1 = (of_nat (d - q - 1) :: u32)"
      using True by (simp add: of_nat_diff)
    have "unat (of_nat (d - q - 1) :: u32) = d - q - 1" using assms(2) by (subst unat_of_nat_u32) simp_all
    then show ?thesis unfolding safe mp_get_def e using True by auto
  next
    case False
    define e where "e = q + 1 - d"
    have e: "of_nat d - of_nat q - 1 = - (of_nat e :: u32)" using False by (simp add: e_def of_nat_diff)
    have "e < 2 ^ 32" "0 < e" using assms(1) False by (simp_all add: e_def)
    then have "unat (- (of_nat e :: u32)) = 2 ^ 32 - e"
      by (subst unat_neg_u32) (simp_all add: unat_of_nat_u32)
    then have "\<not> unat (of_nat d - of_nat q - 1 :: u32) < length src" unfolding e using assms(1) by (simp add: e_def)
    then have "mp_get_Safe src (of_nat d - of_nat q - 1) = 0" unfolding safe by (simp only: if_False)
    moreover have "mp_get src (d - q) = 0" using False by (simp add: mp_get_def)
    ultimately show ?thesis by (simp only:)
  qed
qed

lemma mp_SetShifted_loop_map:
  "mp_SetShifted_loop n src m i (mp_get_Safe src i) =
    map (\<lambda>d. drop_bit (32 - m) (mp_get_Safe src (i + of_nat d)) OR push_bit m (mp_get_Safe src (i + of_nat (Suc d)))) [0..<n]"
proof (induction n arbitrary: i)
  case 0
  then show ?case by simp
next
  case (Suc n)
  have "mp_SetShifted_loop (Suc n) src m i (mp_get_Safe src i) =
      (drop_bit (32 - m) (mp_get_Safe src i) OR push_bit m (mp_get_Safe src (i + 1))) #
      mp_SetShifted_loop n src m (i + 1) (mp_get_Safe src (i + 1))"
    by (simp add: Let_def)
  moreover have "[0..<Suc n] = 0 # map Suc [0..<n]" by (simp add: map_Suc_upt upt_conv_Cons del: upt_Suc)
  moreover have "i + of_nat (Suc d) = (i + 1) + of_nat d" for d :: nat by simp
  ultimately show ?case using Suc.IH [of "i + 1"] by (simp only: list.map map_map o_def) simp
qed

lemma mp_SetShifted_left:
  assumes "length src + k div 32 + 1 < 2 ^ 32" and "n < 2 ^ 32"
  shows "mp_SetShifted n src (int k) =
    (if k mod 32 = 0 then mp_Assign n (k div 32) src else mp_Set_LShift n (k mod 32) (mp_Assign n (k div 32) src))"
proof -
  define q m where "q = k div 32" and "m = k mod 32"
  have i: "of_int (- (sgn (int k) * (\<bar>int k\<bar> div 32))) = - (of_nat q :: u32)"
  proof -
    have "sgn (int k) * (\<bar>int k\<bar> div 32) = int q" by (cases "k = 0") (simp_all add: q_def zdiv_int)
    then show ?thesis by simp
  qed
  have "uint (of_int (int k) :: u32) mod 32 = int k mod 2 ^ 32 mod 32" by (simp only: uint_word_of_int) simp
  also have "\<dots> = int k mod 32" by (rule mod_mod_cancel) simp
  finally have m: "nat (uint (of_int (int k) :: u32) mod 32) = m" by (simp add: m_def nat_mod_as_int)
  have S: "mp_SetShifted n src (int k) =
    (if m \<noteq> 0 then mp_SetShifted_loop n src m (- of_nat q - 1) (mp_get_Safe src (- of_nat q - 1))
     else map (\<lambda>d. mp_get_Safe src (- of_nat q + of_nat d)) [0..<n])"
    unfolding mp_SetShifted_def Let_def i m by simp
  have sf: "mp_get_Safe src (- of_nat q - 1 + of_nat d) = mp_get src (d - q)" if "d \<le> n" for d
  proof -
    have "- of_nat q - 1 + of_nat d = of_nat d - of_nat q - (1 :: u32)" by (simp only: diff_conv_add_uminus ac_simps)
    then show ?thesis using mp_get_Safe_below [of src q d] that assms by (simp only: q_def)
  qed
  have sf': "mp_get_Safe src (- of_nat q + of_nat d) = mp_get src (Suc d - q)" if "d < n" for d
  proof -
    have "- of_nat q - 1 + of_nat (Suc d) = - of_nat q + (of_nat d :: u32)" by simp
    then show ?thesis using sf [of "Suc d"] that by simp
  qed
  show ?thesis
  proof (cases "m = 0")
    case True
    have "mp_SetShifted n src (int k) = map (\<lambda>d. mp_get src (Suc d - q)) [0..<n]"
      using True sf' by (simp add: S)
    also have "\<dots> = mp_Assign n q src"
      by (rule nth_equalityI) (auto simp: mp_Assign_def mp_get_def simp del: upt_Suc)
    finally show ?thesis using True by (simp add: m_def q_def)
  next
    case False
    have "mp_SetShifted n src (int k) =
        map (\<lambda>d. drop_bit (32 - m) (mp_get src (d - q)) OR push_bit m (mp_get src (Suc d - q))) [0..<n]"
      unfolding S mp_SetShifted_loop_map using False sf by (auto simp del: of_nat_Suc)
    also have "\<dots> = mp_Set_LShift n m (mp_Assign n q src)"
      by (rule nth_equalityI) (auto simp: mp_Set_LShift_def mp_get_Assign or.commute simp del: upt_Suc)
    finally show ?thesis using False by (simp add: m_def q_def)
  qed
qed

lemma mp_SetShifted_left_val:
  assumes "length src + k div 32 \<le> n" and "n + 1 < 2 ^ 32" and "le_val src * 2 ^ k < 2 ^ (32 * n)"
  shows "le_val (mp_SetShifted n src (int k)) = le_val src * 2 ^ k" and "length (mp_SetShifted n src (int k)) = n"
proof -
  have k: "(2 :: nat) ^ k = 2 ^ (32 * (k div 32)) * 2 ^ (k mod 32)" unfolding power_add [symmetric] by simp
  have S: "mp_SetShifted n src (int k) =
    (if k mod 32 = 0 then mp_Assign n (k div 32) src else mp_Set_LShift n (k mod 32) (mp_Assign n (k div 32) src))"
    using assms(1,2) by (intro mp_SetShifted_left) simp_all
  have A: "le_val (mp_Assign n (k div 32) src) = le_val src * 2 ^ (32 * (k div 32))" using assms(1) by (rule mp_Assign_val)
  show "length (mp_SetShifted n src (int k)) = n" by (simp add: S)
  show "le_val (mp_SetShifted n src (int k)) = le_val src * 2 ^ k"
  proof (cases "k mod 32 = 0")
    case True
    then show ?thesis by (simp add: S A k)
  next
    case False
    have "le_val (mp_Set_LShift n (k mod 32) (mp_Assign n (k div 32) src)) = le_val (mp_Assign n (k div 32) src) * 2 ^ (k mod 32)"
      using False assms(3) by (intro mp_Set_LShift_val) (simp_all add: A k mult.assoc)
    then show ?thesis using False by (simp add: S A k mult.assoc)
  qed
qed

section \<open>Properties\<close>

text \<open>C29: the arithmetic of \<open>MultiPrecision::UInt\<close> is arithmetic of the denoted numbers: the sum (one word longer than
  the operands) and the product are exact, the difference is taken modulo the size of the result (so it is exact unless
  negative), and \<open>cmp\<close> is the numeric order.\<close>

theorem UInt_arithmetic_exact:
  "le_val (mp_add a b) = le_val a + le_val b \<and> le_val (mp_mul a b) = le_val a * le_val b \<and>
   int (le_val (mp_sub a b)) = (int (le_val a) - int (le_val b)) mod 2 ^ (32 * (1 + max (length a) (length b))) \<and>
   mp_cmp a b = (if le_val a < le_val b then -1 else if le_val a > le_val b then 1 else 0)"
  by (simp add: mp_add_val mp_mul_val mp_sub_val mp_cmp_val del: One_nat_def)

text \<open>C30: \<open>UInt::SetDivResid\<close> yields the quotient and the remainder of a non-zero divisor whenever the quotient fits
  the result and no digit estimate overflows past \<open>2 ^ 32\<close>; the two corrections per digit are always enough.\<close>

theorem SetDivResid_exact:
  assumes "0 < le_val b" and "le_val a < le_val b * 2 ^ (32 * n)" and "mp_div_ok n a b"
    and "mp_SetDivResid n a b = (q, r)"
  shows "le_val q = le_val a div le_val b \<and> le_val r = le_val a mod le_val b \<and> length q = n \<and> length r = length a"
  using mp_SetDivResid_spec [OF assms] by simp

theorem SetDivResid_exact_witness:
  "mp_div_ok 3 [0, 0, 0, 0x12345678] [0xFFFFFFFF, 0x9] \<and>
   le_val (fst (mp_SetDivResid 3 [0, 0, 0, 0x12345678] [0xFFFFFFFF, 0x9])) =
     le_val [0, 0, 0, 0x12345678] div le_val [0xFFFFFFFF, 0x9]"
proof -
  have ok: "mp_div_ok 3 [0, 0, 0, 0x12345678] [0xFFFFFFFF, 0x9]" by code_simp
  obtain q r where e: "mp_SetDivResid 3 [0, 0, 0, 0x12345678] [0xFFFFFFFF, 0x9] = (q, r)" by fastforce
  show ?thesis using SetDivResid_exact [OF _ _ ok e] ok e by simp
qed

text \<open>A divisor below \<open>2 ^ 32\<close> always divides exactly, however long the dividend and whatever leading zero words
  the divisor carries.\<close>

theorem SetDivResid_small_divisor:
  assumes "0 < le_val b" and "le_val b < 2 ^ 32" and "le_val a < le_val b * 2 ^ (32 * n)"
    and "mp_SetDivResid n a b = (q, r)"
  shows "le_val q = le_val a div le_val b \<and> le_val r = le_val a mod le_val b"
  using mp_SetDivResid_spec [OF assms(1,3) mp_div_ok_small [OF assms(1-3)] assms(4)] by simp

theorem SetDivResid_small_divisor_witness:
  "le_val (snd (mp_SetDivResid 2 [5, 1] [7, 0])) = le_val [5, 1] mod le_val [7, 0]"
proof -
  obtain q r where e: "mp_SetDivResid 2 [5, 1] [7, 0] = (q, r)" by fastforce
  show ?thesis using SetDivResid_small_divisor [OF _ _ _ e] e by simp
qed


text \<open>C34: \<open>UInt::Set\<close> with a shift to the left multiplies by the power of two, and with a shift to the right by a number
  of bits below a word it shifts to the left by the complement instead, because \<open>nLShift %= nWordBits\<close> is computed on
  unsigned numbers.\<close>

theorem SetShifted_left_exact_right_not:
  assumes "length src + k div 32 \<le> n" and "n + 1 < 2 ^ 32" and "le_val src * 2 ^ k < 2 ^ (32 * n)" and "0 < j" and "j < 32"
  shows "le_val (mp_SetShifted n src (int k)) = le_val src * 2 ^ k \<and>
    mp_SetShifted n src (- int j) = mp_SetShifted n src (int (32 - j))"
proof
  show "le_val (mp_SetShifted n src (int k)) = le_val src * 2 ^ k" by (rule mp_SetShifted_left_val [OF assms(1-3)])
  have "int (32 - j) = 32 + (- int j)" using assms(5) by simp
  then have "of_int (int (32 - j)) = (32 :: u32) + of_int (- int j)" by (metis of_int_add of_int_numeral)
  then have "uint (of_int (int (32 - j)) :: u32) mod 32 = uint (of_int (- int j) :: u32) mod 32"
    by (simp add: uint_word_ariths mod_mod_cancel)
  moreover have "int j div 32 = 0" "int (32 - j) div 32 = 0" using assms(4,5) by simp_all
  ultimately show "mp_SetShifted n src (- int j) = mp_SetShifted n src (int (32 - j))"
    unfolding mp_SetShifted_def by (simp add: Let_def)
qed

theorem SetShifted_left_exact_right_not_witness:
  "le_val (mp_SetShifted 2 [0x101] (int 8)) = le_val [0x101] * 2 ^ 8 \<and>
   mp_SetShifted 2 [0x101] (- int 8) = mp_SetShifted 2 [0x101] (int (32 - 8)) \<and>
   mp_SetShifted 2 [0x101] (- int 8) = [0x01000000, 1]"
proof -
  have "mp_SetShifted 2 [0x101] (- int 8) = [0x01000000, 1]" by code_simp
  then show ?thesis using SetShifted_left_exact_right_not [of "[0x101]" 8 2 8] by simp
qed

end
