(* ===== verification/Shader_Float.thy ===== *)
theory Shader_Float
  imports Mp_Division Complex_Main
begin

text \<open>
  The floating-point numbers of the contract library, \<open>MultiPrecision::Float\<close> of \<open>src/bvm/Shaders/Math.h\<close>: a 64-bit
  mantissa whose top bit is set unless the number is zero, and a signed 32-bit binary order (a 32-bit word read with
  \<open>sint\<close>).  Also the overflow-checked arithmetic \<open>Strict\<close> and \<open>Utils::AverageUnsigned\<close>.  A halt of the contract is
  \<open>None\<close>.  The lemmas bound the rounding error of every operation, under a bound on the orders that excludes their
  wrap-around.
\<close>

section \<open>Operations\<close>

record Float =
  fl_Num :: u64
  fl_Order :: u32

definition s_HiBit :: u64 where
  "s_HiBit = push_bit 63 1"

definition fl_Normalize :: "Float \<Rightarrow> Float" where
  "fl_Normalize f =
    (let nBits = FindHiBit (fl_Num f) in
     if nBits \<noteq> 64 then
       if nBits \<noteq> 0 then
         let nDelta = 64 - nBits in
         \<lparr>fl_Num = push_bit nDelta (fl_Num f), fl_Order = fl_Order f - of_nat nDelta\<rparr>
       else \<lparr>fl_Num = 0, fl_Order = 0\<rparr>
     else f)"

definition fl_Set :: "u64 \<Rightarrow> Float" where
  "fl_Set val = fl_Normalize \<lparr>fl_Num = val, fl_Order = 0\<rparr>"

definition fl_Get :: "Float \<Rightarrow> u64" where
  "fl_Get f =
    (if sint (fl_Order f) > 0 then - 1
     else let ord = - fl_Order f in if ord \<ge> 64 then 0 else drop_bit (unat ord) (fl_Num f))"

definition fl_IsZero :: "Float \<Rightarrow> bool" where
  "fl_IsZero f = (fl_Num f = 0)"

definition fl_AddMsb :: "Float \<Rightarrow> Float" where
  "fl_AddMsb f = \<lparr>fl_Num = drop_bit 1 (fl_Num f) OR s_HiBit, fl_Order = fl_Order f + 1\<rparr>"

definition fl_AddInternal :: "Float \<Rightarrow> Float \<Rightarrow> Float" where
  "fl_AddInternal a b =
    (let dOrder = fl_Order a - fl_Order b in
     if dOrder \<ge> 64 then a
     else
       let res = \<lparr>fl_Num = fl_Num a + drop_bit (unat dOrder) (fl_Num b), fl_Order = fl_Order a\<rparr> in
       if fl_Num res < fl_Num a then fl_AddMsb res else res)"

definition fl_add :: "Float \<Rightarrow> Float \<Rightarrow> Float" where
  "fl_add a b =
    (if fl_IsZero a then b
     else if fl_IsZero b then a
     else if sint (fl_Order a) \<ge> sint (fl_Order b) then fl_AddInternal a b else fl_AddInternal b a)"

definition fl_sub :: "Float \<Rightarrow> Float \<Rightarrow> Float" where
  "fl_sub a b =
    (if fl_IsZero b then a
     else
       let dOrder = fl_Order a - fl_Order b in
       if dOrder \<ge> 64 then a
       else fl_Normalize \<lparr>fl_Num = fl_Num a - drop_bit (unat dOrder) (fl_Num b), fl_Order = fl_Order a\<rparr>)"

definition fl_mul :: "Float \<Rightarrow> Float \<Rightarrow> Float" where
  "fl_mul a b =
    (if fl_IsZero a then a
     else if fl_IsZero b then b
     else
       let x = mp_mul (mp_From (fl_Num a)) (mp_From (fl_Num b));
           res = \<lparr>fl_Num = mp_get_Ord (length x) 2 x, fl_Order = fl_Order a + fl_Order b + 64\<rparr>
       in if s_HiBit AND fl_Num res = 0
          then \<lparr>fl_Num = push_bit 1 (fl_Num res) OR ucast (drop_bit 31 (mp_get x 2)), fl_Order = fl_Order res - 1\<rparr>
          else res)"

definition fl_DivInternal :: "u64 \<Rightarrow> u64 \<Rightarrow> u64" where
  "fl_DivInternal a b =
    (let nom = mp_FromEx 2 a; (res, resid) = mp_SetDivResidNormalized 2 nom (mp_From b) in mp_get_Ord 2 0 res)"

definition fl_div :: "Float \<Rightarrow> Float \<Rightarrow> Float" where
  "fl_div a b =
    (if fl_IsZero a then a
     else if fl_IsZero b then b
     else
       let order = fl_Order a - fl_Order b - 64 in
       if fl_Num a \<ge> fl_Num b
       then fl_AddMsb \<lparr>fl_Num = fl_DivInternal (fl_Num a - fl_Num b) (fl_Num b), fl_Order = order\<rparr>
       else \<lparr>fl_Num = fl_DivInternal (fl_Num a) (fl_Num b), fl_Order = order\<rparr>)"

definition fl_shl :: "Float \<Rightarrow> u32 \<Rightarrow> Float" where
  "fl_shl a n = (if fl_IsZero a then a else a\<lparr>fl_Order := fl_Order a + n\<rparr>)"

definition fl_shr :: "Float \<Rightarrow> u32 \<Rightarrow> Float" where
  "fl_shr a n = (if fl_IsZero a then a else a\<lparr>fl_Order := fl_Order a - n\<rparr>)"

definition fl_cmp :: "Float \<Rightarrow> Float \<Rightarrow> int" where
  "fl_cmp a x =
    (if fl_IsZero a then (if fl_IsZero x then 0 else - 1)
     else if fl_IsZero x then 1
     else if sint (fl_Order a) < sint (fl_Order x) then - 1
     else if sint (fl_Order a) > sint (fl_Order x) then 1
     else if fl_Num a < fl_Num x then - 1
     else if fl_Num a > fl_Num x then 1
     else 0)"

definition strict_Add :: "u64 \<Rightarrow> u64 \<Rightarrow> u64 option" where
  "strict_Add a b = (let a = a + b in if a < b then None else Some a)"

definition strict_Sub :: "u64 \<Rightarrow> u64 \<Rightarrow> u64 option" where
  "strict_Sub a b = (if a < b then None else Some (a - b))"

definition AverageUnsigned :: "u64 \<Rightarrow> u64 \<Rightarrow> u64" where
  "AverageUnsigned a b =
    (let a = a + b; bHasCarry = a < b; a = a div 2 in if bHasCarry then a OR push_bit 63 1 else a)"

section \<open>Checked arithmetic\<close>

lemma strict_Add_eq: "strict_Add a b = (if unat a + unat b < 2 ^ 64 then Some (a + b) else None)"
proof -
  have "a + b < b \<longleftrightarrow> \<not> unat a + unat b < 2 ^ 64"
  proof (cases "unat a + unat b < 2 ^ 64")
    case True
    then show ?thesis by (simp add: word_less_nat_alt unat_add_u64)
  next
    case False
    have "unat (a + b) = unat a + unat b - 2 ^ 64"
      using False unat_u64_less [of a] unat_u64_less [of b] by (simp add: unat_word_ariths le_mod_geq)
    then show ?thesis using False unat_u64_less [of a] unat_u64_less [of b] by (simp add: word_less_nat_alt)
  qed
  then show ?thesis by (simp add: strict_Add_def Let_def)
qed

lemma strict_AddD:
  "strict_Add a b = Some c \<Longrightarrow> unat c = unat a + unat b"
  by (auto simp: strict_Add_eq unat_add_u64 split: if_splits)

lemma strict_SubD:
  "strict_Sub a b = Some c \<Longrightarrow> unat b \<le> unat a \<and> unat c = unat a - unat b"
  by (auto simp: strict_Sub_def word_less_nat_alt unat_sub_if' split: if_splits)

lemma strict_Sub_SomeI: "unat b \<le> unat a \<Longrightarrow> strict_Sub a b = Some (a - b)"
  by (simp add: strict_Sub_def word_less_nat_alt)

lemma AverageUnsigned_val: "unat (AverageUnsigned a b) = (unat a + unat b) div 2"
proof (cases "unat a + unat b < 2 ^ 64")
  case True
  then have "\<not> a + b < b" using strict_Add_eq [of a b] by (simp add: strict_Add_def Let_def split: if_splits)
  then show ?thesis using True by (simp add: AverageUnsigned_def unat_div unat_add_u64)
next
  case False
  then have c: "a + b < b" using strict_Add_eq [of a b] by (simp add: strict_Add_def Let_def split: if_splits)
  have s: "unat (a + b) = unat a + unat b - 2 ^ 64"
    using False unat_u64_less [of a] unat_u64_less [of b] by (simp add: unat_word_ariths le_mod_geq)
  have h: "unat ((a + b) div 2) = (unat a + unat b - 2 ^ 64) div 2" by (simp add: unat_div s)
  have lt: "unat ((a + b) div 2) < 2 ^ 63"
    using h unat_u64_less [of a] unat_u64_less [of b] by simp
  have "(a + b) div 2 OR push_bit 63 1 = push_bit 63 1 + (a + b) div 2"
    using word_or_disjoint_add [OF lt refl, of 1] by (simp add: or.commute)
  moreover have "unat (push_bit 63 (1 :: u64)) = 2 ^ 63" by simp
  ultimately have "unat (AverageUnsigned a b) = 2 ^ 63 + (unat a + unat b - 2 ^ 64) div 2"
    using c lt h by (simp add: AverageUnsigned_def Let_def unat_add_u64)
  also have "\<dots> = (unat a + unat b) div 2" using False by simp
  finally show ?thesis .
qed

section \<open>Values and orders\<close>

declare of_nat_unat [simp del]

definition fl_val :: "Float \<Rightarrow> real" where
  "fl_val f = real (unat (fl_Num f)) * power_int 2 (sint (fl_Order f))"

definition fl_norm :: "Float \<Rightarrow> bool" where
  "fl_norm f \<longleftrightarrow> 2 ^ 63 \<le> unat (fl_Num f)"

text \<open>A bound on the order that keeps the sums of a few orders inside 32 bits.\<close>

definition fl_small :: "Float \<Rightarrow> bool" where
  "fl_small f \<longleftrightarrow> \<bar>sint (fl_Order f)\<bar> \<le> 2 ^ 28"

text \<open>\<open>w\<close> is \<open>v\<close> truncated to 64 significant bits.\<close>

definition tr64 :: "real \<Rightarrow> real \<Rightarrow> bool" where
  "tr64 v w \<longleftrightarrow> (1 - 1 / 2 ^ 63) * v \<le> w \<and> w \<le> v"

lemma tr64_floor:
  fixes m :: nat and c v :: real
  assumes "2 ^ 63 \<le> m" "0 < c" "real m * c \<le> v" "v \<le> (real m + 1) * c"
  shows "tr64 v (real m * c)"
proof -
  have "real (2 ^ 63) \<le> real m" using assms(1) by (simp only: of_nat_le_iff)
  then have "2 ^ 63 * c \<le> real m * c" using assms(2) by (intro mult_right_mono) simp_all
  then have "c \<le> 1 / 2 ^ 63 * v" using assms(3) by simp
  moreover have "v \<le> real m * c + c" using assms(4) by (simp add: algebra_simps)
  ultimately show ?thesis using assms(3) by (simp add: tr64_def algebra_simps)
qed

lemma tr64_trans2:
  assumes "tr64 u v" and "tr64 v w" and "0 \<le> u"
  shows "(1 - 1 / 2 ^ 62) * u \<le> w" and "w \<le> u"
proof -
  let ?e = "1 / 2 ^ 63 :: real"
  have "(1 - ?e) * ((1 - ?e) * u) \<le> (1 - ?e) * v" using assms(1) by (intro mult_left_mono) (simp_all add: tr64_def)
  also have "\<dots> \<le> w" using assms(2) by (simp add: tr64_def)
  finally have "(1 - ?e) * ((1 - ?e) * u) \<le> w" .
  moreover have "(1 - ?e) * ((1 - ?e) * u) = (1 - 1 / 2 ^ 62) * u + ?e * ?e * u" by (simp add: algebra_simps)
  moreover have "0 \<le> ?e * ?e * u" using assms(3) by simp
  ultimately show "(1 - 1 / 2 ^ 62) * u \<le> w" by linarith
  show "w \<le> u" using assms(1,2) by (simp add: tr64_def)
qed

lemma sint_u32_range: "- (2 ^ 31) \<le> sint (x :: u32)" "sint (x :: u32) < 2 ^ 31"
  using sint_greater_eq [of x] sint_less [of x] by simp_all

lemma sint_add_u32:
  fixes a b :: u32
  assumes "- (2 ^ 31) \<le> sint a + sint b" and "sint a + sint b < 2 ^ 31"
  shows "sint (a + b) = sint a + sint b"
proof -
  have "a + b = of_int (sint a + sint b)" by simp
  then show ?thesis using sint_of_int_u32 [OF assms] by simp
qed

lemma sint_sub_u32:
  fixes a b :: u32
  assumes "- (2 ^ 31) \<le> sint a - sint b" and "sint a - sint b < 2 ^ 31"
  shows "sint (a - b) = sint a - sint b"
proof -
  have "a - b = of_int (sint a - sint b)" by simp
  then show ?thesis using sint_of_int_u32 [OF assms] by simp
qed

lemma unat_nonneg_u32: "0 \<le> sint (x :: u32) \<Longrightarrow> int (unat x) = sint x"
proof -
  assume a: "0 \<le> sint x"
  have "uint (of_int (sint x) :: u32) = sint x mod 2 ^ 32" by (simp only: uint_word_of_int) simp
  then have "uint x = sint x mod 2 ^ 32" by simp
  then show ?thesis using a sint_u32_range(2) [of x] by (simp add: of_nat_unat)
qed

lemma power_int_2_nat: "power_int (2 :: real) (int n) = 2 ^ n"
  by simp

lemma power_int_2_pos [simp]: "0 < power_int (2 :: real) k"
  by (simp add: zero_less_power_int)

lemma power_int_2_add: "power_int (2 :: real) (a + b) = power_int 2 a * power_int 2 b"
  by (simp add: power_int_add)

section \<open>Conversion\<close>

lemma fl_Set_0: "fl_Set 0 = \<lparr>fl_Num = 0, fl_Order = 0\<rparr>"
proof -
  have "FindHiBit (0 :: u64) = 0" using FindHiBit_u64 [of 0] by (simp add: FindHiBit_def) code_simp
  then show ?thesis by (simp add: fl_Set_def fl_Normalize_def)
qed

lemma fl_Normalize_val:
  assumes "fl_Num f \<noteq> 0" and "- (2 ^ 30) \<le> sint (fl_Order f)"
  shows "fl_val (fl_Normalize f) = fl_val f" and "fl_norm (fl_Normalize f)"
    and "sint (fl_Order (fl_Normalize f)) \<le> sint (fl_Order f)" and "sint (fl_Order f) - 63 \<le> sint (fl_Order (fl_Normalize f))"
proof -
  define x k where "x = fl_Num f" and "k = FindHiBit x"
  have k: "unat x < 2 ^ k" "0 < k" "2 ^ (k - 1) \<le> unat x" "k \<le> 64"
    using FindHiBit_u64 [of x] assms by (simp_all add: x_def k_def)
  have o: "sint (fl_Order f - of_nat (64 - k)) = sint (fl_Order f) - int (64 - k)"
  proof -
    have "sint (of_nat (64 - k) :: u32) = int (64 - k)" using sint_of_int_u32 [of "int (64 - k)"] by simp
    then show ?thesis using sint_sub_u32 [of "fl_Order f" "of_nat (64 - k)"] sint_u32_range [of "fl_Order f"] assms(2) k by simp
  qed
  have "unat (push_bit (64 - k) x) = (unat x * 2 ^ (64 - k)) mod 2 ^ 64"
    by (simp only: unsigned_push_bit_eq) (simp add: take_bit_eq_mod push_bit_eq_mult)
  moreover have "unat x * 2 ^ (64 - k) < 2 ^ k * 2 ^ (64 - k)" using k(1) by simp
  ultimately have n: "unat (push_bit (64 - k) x) = unat x * 2 ^ (64 - k)" using k(4) by (simp add: power_add [symmetric])
  have N: "fl_Num (fl_Normalize f) = push_bit (64 - k) x \<and> fl_Order (fl_Normalize f) = fl_Order f - of_nat (64 - k)"
    using k(2) by (cases "k = 64") (simp_all add: fl_Normalize_def x_def [symmetric] k_def [symmetric] Let_def)
  have p: "power_int 2 (sint (fl_Order f)) = 2 ^ (64 - k) * power_int (2 :: real) (sint (fl_Order f) - int (64 - k))"
    using power_int_2_add [of "int (64 - k)" "sint (fl_Order f) - int (64 - k)"] by simp
  show "fl_val (fl_Normalize f) = fl_val f"
    using N unfolding fl_val_def p by (simp add: n o x_def [symmetric])
  have "2 ^ (k - 1) * 2 ^ (64 - k) \<le> unat x * 2 ^ (64 - k)" using k(3) by (intro mult_right_mono) simp_all
  then show "fl_norm (fl_Normalize f)" using N n k(2,4) by (simp add: fl_norm_def power_add [symmetric])
  show "sint (fl_Order (fl_Normalize f)) \<le> sint (fl_Order f)" "sint (fl_Order f) - 63 \<le> sint (fl_Order (fl_Normalize f))"
    using N o k(2,4) by simp_all
qed

lemma fl_Set_val:
  assumes "v \<noteq> 0"
  shows "fl_val (fl_Set v) = real (unat v)" and "fl_norm (fl_Set v)"
    and "sint (fl_Order (fl_Set v)) \<le> 0" and "- 63 \<le> sint (fl_Order (fl_Set v))"
  using fl_Normalize_val [of "\<lparr>fl_Num = v, fl_Order = 0\<rparr>"] assms by (simp_all add: fl_Set_def fl_val_def)

lemma fl_Set_small: "v \<noteq> 0 \<Longrightarrow> fl_small (fl_Set v)"
  using fl_Set_val(3,4) [of v] by (simp add: fl_small_def)

lemma fl_Get_floor:
  assumes "sint (fl_Order f) \<le> 0"
  shows "real (unat (fl_Get f)) \<le> fl_val f" and "fl_val f < real (unat (fl_Get f)) + 1"
proof -
  define n where "n = nat (- sint (fl_Order f))"
  have o: "sint (fl_Order f) = - int n" using assms by (simp add: n_def)
  have "fl_Order f = of_int (- int n)" by (simp add: o [symmetric])
  then have "- fl_Order f = of_nat n" by simp
  moreover have "n < 2 ^ 32" using sint_u32_range(1) [of "fl_Order f"] by (simp add: n_def)
  ultimately have u: "unat (- fl_Order f) = n" by (simp add: unat_of_nat_u32)
  have v: "fl_val f = real (unat (fl_Num f)) / 2 ^ n" by (simp add: fl_val_def o power_int_minus divide_inverse)
  have "real (unat (fl_Get f)) \<le> fl_val f \<and> fl_val f < real (unat (fl_Get f)) + 1"
  proof (cases "64 \<le> n")
    case True
    then have g: "fl_Get f = 0" using assms u by (simp add: fl_Get_def word_le_nat_alt)
    have "(2 :: nat) ^ 64 \<le> 2 ^ n" using True by (intro power_increasing) simp_all
    then have "unat (fl_Num f) < 2 ^ n" using unat_u64_less [of "fl_Num f"] by linarith
    then have "real (unat (fl_Num f)) < real (2 ^ n)" by (simp only: of_nat_less_iff)
    then show ?thesis by (simp add: g v)
  next
    case False
    then have "unat (fl_Get f) = unat (fl_Num f) div 2 ^ n"
      using assms u by (simp add: fl_Get_def Let_def word_le_nat_alt unat_drop_bit)
    moreover have "real (unat (fl_Num f) div 2 ^ n) * 2 ^ n \<le> real (unat (fl_Num f))"
      using of_nat_mono [OF div_times_less_eq_dividend [of "unat (fl_Num f)" "2 ^ n"], where ?'a = real] by simp
    moreover have "real (unat (fl_Num f)) < (real (unat (fl_Num f) div 2 ^ n) + 1) * 2 ^ n"
    proof -
      have "unat (fl_Num f) < (unat (fl_Num f) div 2 ^ n + 1) * 2 ^ n"
        using dividend_less_div_times [of "2 ^ n" "unat (fl_Num f)"] by (simp add: algebra_simps)
      then have "real (unat (fl_Num f)) < real ((unat (fl_Num f) div 2 ^ n + 1) * 2 ^ n)" by (simp only: of_nat_less_iff)
      then show ?thesis by (simp add: algebra_simps)
    qed
    ultimately show ?thesis by (simp add: v le_divide_eq divide_less_eq)
  qed
  then show "real (unat (fl_Get f)) \<le> fl_val f" and "fl_val f < real (unat (fl_Get f)) + 1" by simp_all
qed

section \<open>Accuracy\<close>

lemma s_HiBit_test: "s_HiBit AND x = 0 \<longleftrightarrow> unat x < 2 ^ 63"
proof -
  have "s_HiBit AND x = 0 \<longleftrightarrow> \<not> bit x 63"
    unfolding s_HiBit_def push_bit_eq_mult mult_1 and.commute [of _ x] by (rule and_exp_eq_0_iff_not_bit)
  also have "bit x 63 \<longleftrightarrow> odd (unat x div 2 ^ 63)" 
  proof -
    have "bit x 63 = bit (unat x) 63" by (simp add: bit_unsigned_iff)
    then show ?thesis by (simp only: bit_iff_odd)
  qed
  also have "unat x div 2 ^ 63 = (if unat x < 2 ^ 63 then 0 else 1)"
    using unat_u64_less [of x] by (auto simp: div_nat_eqI)
  finally show ?thesis by simp
qed

lemma unat_two_words:
  fixes l h :: u32
  shows "unat (ucast l OR push_bit 32 (ucast h) :: u64) = unat l + 2 ^ 32 * unat h"
proof -
  have l: "unat (ucast l :: u64) < 2 ^ 32" using unat_u32_less [of l] by (simp add: byte_simps)
  have "ucast l OR push_bit 32 (ucast h :: u64) = push_bit 32 (ucast h) + ucast l"
    using word_or_disjoint_add [OF l refl, of "ucast h"] by (simp add: or.commute)
  moreover have "unat (push_bit 32 (ucast h :: u64)) = 2 ^ 32 * unat h"
    using unat_u32_less [of h]
    by (simp only: unsigned_push_bit_eq) (simp add: take_bit_eq_mod push_bit_eq_mult byte_simps)
  moreover have "unat l + 2 ^ 32 * unat h < 2 ^ 64" using unat_u32_less [of h] unat_u32_less [of l] by simp
  ultimately show ?thesis by (simp add: unat_add_u64 byte_simps)
qed

lemma mp_get_Ord_words:
  "mp_get_Ord 2 0 [a, b] = ucast a OR push_bit 32 (ucast b)"
  "mp_get_Ord 4 2 [a, b, c, d] = ucast c OR push_bit 32 (ucast d)"
proof -
  have n: "4 = Suc (Suc (Suc (Suc 0)))" "2 = Suc (Suc 0)" by simp_all
  show "mp_get_Ord 2 0 [a, b] = ucast a OR push_bit 32 (ucast b)"
    by (simp only: n mp_get_Ord.simps Let_def) (simp add: mp_get_def)
  show "mp_get_Ord 4 2 [a, b, c, d] = ucast c OR push_bit 32 (ucast d)"
    by (simp only: n mp_get_Ord.simps Let_def) (simp add: mp_get_def)
qed

lemma mp_get_Ord_two: "length x = 2 \<Longrightarrow> unat (mp_get_Ord 2 0 x) = le_val x"
proof -
  assume "length x = 2"
  then obtain a b where x: "x = [a, b]" by (auto simp: length_Suc_conv numeral_eq_Suc)
  show ?thesis using unat_two_words [of a b] by (simp add: x mp_get_Ord_words)
qed

lemma mp_get_Ord_high: "length x = 4 \<Longrightarrow> unat (mp_get_Ord 4 2 x) = le_val x div 2 ^ 64"
  and mp_get_Ord_bit: "length x = 4 \<Longrightarrow> 2 * unat (mp_get_Ord 4 2 x) + unat (drop_bit 31 (mp_get x 2)) = le_val x div 2 ^ 63"
proof -
  assume "length x = 4"
  then obtain a b c d where x: "x = [a, b, c, d]" by (auto simp: length_Suc_conv numeral_eq_Suc)
  have e: "unat (mp_get_Ord 4 2 x) = unat c + 2 ^ 32 * unat d"
    using unat_two_words [of c d] by (simp add: x mp_get_Ord_words)
  have v: "le_val x = unat a + 2 ^ 32 * unat b + 2 ^ 64 * (unat c + 2 ^ 32 * unat d)" by (simp add: x)
  have ab: "unat a + 2 ^ 32 * unat b < 2 ^ 64" "unat a < 2 ^ 32" using unat_u32_less [of a] unat_u32_less [of b] by simp_all
  show "unat (mp_get_Ord 4 2 x) = le_val x div 2 ^ 64" unfolding e v using ab(1) by (subst div_mult_self2) simp_all
  have "le_val x div 2 ^ 63 = (unat a + 2 ^ 32 * unat b + 2 ^ 63 * (2 * (unat c + 2 ^ 32 * unat d))) div 2 ^ 63" by (simp add: v)
  also have "\<dots> = 2 * (unat c + 2 ^ 32 * unat d) + (unat a + 2 ^ 32 * unat b) div 2 ^ 63" by (subst div_mult_self2) simp_all
  also have "(unat a + 2 ^ 32 * unat b) div 2 ^ 63 = (unat a + 2 ^ 32 * unat b) div 2 ^ 32 div 2 ^ 31"
    by (simp add: div_mult2_eq [symmetric])
  also have "(unat a + 2 ^ 32 * unat b) div 2 ^ 32 = unat b" using ab(2) by simp
  finally have f: "le_val x div 2 ^ 63 = 2 * (unat c + 2 ^ 32 * unat d) + unat b div 2 ^ 31" .
  have g: "mp_get x 2 = b" by (simp add: x mp_get_def)
  show "2 * unat (mp_get_Ord 4 2 x) + unat (drop_bit 31 (mp_get x 2)) = le_val x div 2 ^ 63"
    unfolding e f g by (simp add: unat_drop_bit)
qed

lemma real_div_le:
  fixes v c :: nat
  assumes "0 < c"
  shows "real (v div c) * real c \<le> real v" and "real v \<le> (real (v div c) + 1) * real c"
proof -
  show "real (v div c) * real c \<le> real v" by (metis of_nat_mult of_nat_le_iff div_times_less_eq_dividend)
  have "v \<le> (v div c + 1) * c" using dividend_less_div_times [OF assms, of v] by (simp add: algebra_simps)
  then have "real v \<le> real ((v div c + 1) * c)" by (simp only: of_nat_le_iff)
  then show "real v \<le> (real (v div c) + 1) * real c" by (simp add: algebra_simps)
qed

lemma fl_mul_accurate:
  assumes "fl_norm a" and "fl_norm b" and "fl_small a" and "fl_small b"
  shows "fl_norm (fl_mul a b)" and "tr64 (fl_val a * fl_val b) (fl_val (fl_mul a b))"
    and "\<bar>sint (fl_Order (fl_mul a b)) - (sint (fl_Order a) + sint (fl_Order b))\<bar> \<le> 64"
proof -
  define x where "x = mp_mul (mp_From (fl_Num a)) (mp_From (fl_Num b))"
  define X where "X = unat (fl_Num a) * unat (fl_Num b)"
  have l: "length x = 4" and v: "le_val x = X" by (simp_all add: x_def X_def length_mp_mul mp_mul_val)
  have nz: "\<not> fl_IsZero a" "\<not> fl_IsZero b" using assms(1,2) by (auto simp: fl_norm_def fl_IsZero_def)
  define oa ob where "oa = sint (fl_Order a)" and "ob = sint (fl_Order b)"
  have ord: "sint (fl_Order a + fl_Order b + 64) = oa + ob + 64" "sint (fl_Order a + fl_Order b + 64 - 1) = oa + ob + 63"
  proof -
    have 1: "sint (fl_Order a + fl_Order b) = oa + ob"
      using assms(3,4) by (subst sint_add_u32) (auto simp: fl_small_def oa_def ob_def)
    have 64: "sint (64 :: u32) = 64" "sint (1 :: u32) = 1" by simp_all
    show 2: "sint (fl_Order a + fl_Order b + 64) = oa + ob + 64"
      using assms(3,4) by (subst sint_add_u32) (auto simp: 1 64 fl_small_def oa_def ob_def)
    show "sint (fl_Order a + fl_Order b + 64 - 1) = oa + ob + 63"
      using assms(3,4) by (subst sint_sub_u32) (auto simp: 2 64 fl_small_def oa_def ob_def)
  qed
  have X: "2 ^ 126 \<le> X" "X < 2 ^ 128"
  proof -
    have "2 ^ 63 * 2 ^ 63 \<le> X" unfolding X_def using assms(1,2) by (intro mult_mono) (simp_all add: fl_norm_def)
    then show "2 ^ 126 \<le> X" by simp
    have "X < 2 ^ 64 * 2 ^ 64" unfolding X_def using unat_u64_less by (intro mult_strict_mono) simp_all
    then show "X < 2 ^ 128" by simp
  qed
  define c where "c = power_int (2 :: real) (oa + ob)"
  have prod: "fl_val a * fl_val b = real X * c" by (simp add: fl_val_def X_def c_def oa_def ob_def power_int_2_add)
  have c: "0 < c" by (simp add: c_def)
  define top where "top = mp_get_Ord 4 2 x"
  have top: "unat top = X div 2 ^ 64" using mp_get_Ord_high [OF l] v by (simp add: top_def)
  have "fl_norm (fl_mul a b) \<and> tr64 (fl_val a * fl_val b) (fl_val (fl_mul a b)) \<and>
    \<bar>sint (fl_Order (fl_mul a b)) - (oa + ob)\<bar> \<le> 64"
  proof (cases "unat top < 2 ^ 63")
    case True
    define bt :: u64 where "bt = ucast (drop_bit 31 (mp_get x 2))"
    define nm r where "nm = push_bit 1 top OR bt" and "r = fl_Order a + fl_Order b + 64 - 1"
    have R: "fl_mul a b = \<lparr>fl_Num = nm, fl_Order = r\<rparr>"
      unfolding nm_def r_def using nz True by (simp add: fl_mul_def Let_def x_def [symmetric] l top_def [symmetric] s_HiBit_test bt_def)
    have btv: "unat bt = unat (drop_bit 31 (mp_get x 2))" by (simp add: bt_def byte_simps)
    have b1: "unat bt < 2 ^ 1" unfolding btv using unat_u32_less [of "mp_get x 2"] by (simp add: unat_drop_bit div_less_iff_less_mult)
    have "push_bit 1 top OR bt = push_bit 1 top + bt" by (rule word_or_disjoint_add [OF b1 refl])
    moreover have "unat (push_bit 1 top) = 2 * unat top"
      using True by (simp only: unsigned_push_bit_eq) (simp add: take_bit_eq_mod push_bit_eq_mult)
    moreover have "2 * unat top + unat bt < 2 ^ 64" using True b1 by simp
    ultimately have "unat nm = 2 * unat top + unat bt" by (simp add: nm_def unat_add_u64)
    then have n: "unat nm = X div 2 ^ 63" using mp_get_Ord_bit [OF l] v by (simp add: btv top_def)
    have r: "sint r = oa + ob + 63" using ord(2) by (simp only: r_def)
    have "2 ^ 63 \<le> X div 2 ^ 63" using X(1) by (simp add: less_eq_div_iff_mult_less_eq)
    moreover have "tr64 (real X * c) (real (X div 2 ^ 63) * (2 ^ 63 * c))"
      using tr64_floor [OF \<open>2 ^ 63 \<le> X div 2 ^ 63\<close>, of "2 ^ 63 * c" "real X * c"] c real_div_le [of "2 ^ 63" X]
      by (simp add: mult.assoc [symmetric])
    moreover have "fl_val (fl_mul a b) = real (X div 2 ^ 63) * (2 ^ 63 * c)"
      unfolding R fl_val_def using power_int_2_add [of 63 "oa + ob"] by (simp add: n r c_def add.commute)
    ultimately show ?thesis by (simp add: R fl_norm_def n r prod)
  next
    case False
    define r where "r = fl_Order a + fl_Order b + 64"
    have r: "sint r = oa + ob + 64" using ord(1) by (simp only: r_def)
    have R: "fl_mul a b = \<lparr>fl_Num = top, fl_Order = r\<rparr>"
      unfolding r_def using nz False by (simp add: fl_mul_def Let_def x_def [symmetric] l top_def [symmetric] s_HiBit_test)
    have t63: "2 ^ 63 \<le> X div 2 ^ 64" using False top by simp
    have "tr64 (real X * c) (real (X div 2 ^ 64) * (2 ^ 64 * c))"
      using tr64_floor [OF t63, of "2 ^ 64 * c" "real X * c"] c real_div_le [of "2 ^ 64" X]
      by (simp add: mult.assoc [symmetric])
    moreover have "fl_val (fl_mul a b) = real (X div 2 ^ 64) * (2 ^ 64 * c)"
      unfolding R fl_val_def using power_int_2_add [of 64 "oa + ob"] by (simp add: top r c_def add.commute)
    ultimately show ?thesis using t63 by (simp add: R fl_norm_def top r prod)
  qed
  then show "fl_norm (fl_mul a b)" and "tr64 (fl_val a * fl_val b) (fl_val (fl_mul a b))"
    and "\<bar>sint (fl_Order (fl_mul a b)) - (sint (fl_Order a) + sint (fl_Order b))\<bar> \<le> 64"
    by (simp_all add: oa_def ob_def)
qed

text \<open>The digit estimates of the mantissa division that fit 32 bits.\<close>

definition fl_div_ok :: "Float \<Rightarrow> Float \<Rightarrow> bool" where
  "fl_div_ok a b =
    mp_digits_ok 2 (mp_FromEx 2 (if fl_Num a \<ge> fl_Num b then fl_Num a - fl_Num b else fl_Num a)) (mp_From (fl_Num b))"

lemma mp_FromEx_words: "mp_FromEx 2 a = [0, 0, ucast a, ucast (drop_bit 32 a)]"
proof -
  have "2 + 2 = Suc (Suc (Suc (Suc 0)))" "2 = Suc (Suc 0)" by simp_all
  then show ?thesis by (simp only: mp_FromEx_def mp_set_Ord.simps) simp
qed

lemma mp_FromEx_val: "le_val (mp_FromEx 2 a) = unat a * 2 ^ 64"
proof -
  have "unat a div 2 ^ 32 < 2 ^ 32" using unat_u64_less [of a] by (simp add: div_less_iff_less_mult)
  then have "le_val [ucast a, ucast (drop_bit 32 a)] = unat a" by (simp add: byte_simps)
  then show ?thesis unfolding mp_FromEx_words by simp
qed

lemma fl_DivInternal_val:
  assumes "2 ^ 63 \<le> unat b" and "unat a < unat b" and "mp_digits_ok 2 (mp_FromEx 2 a) (mp_From b)"
  shows "unat (fl_DivInternal a b) = unat a * 2 ^ 64 div unat b"
proof -
  obtain q r where e: "mp_SetDivResidNormalized 2 (mp_FromEx 2 a) (mp_From b) = (q, r)" by fastforce
  have n: "mp_normalized (mp_From b)"
  proof -
    have "unat b div 2 ^ 32 < 2 ^ 32" using unat_u64_less [of b] by (simp add: div_less_iff_less_mult)
    moreover have "2 ^ 31 \<le> unat b div 2 ^ 32" using assms(1) by (simp add: less_eq_div_iff_mult_less_eq)
    ultimately show ?thesis by (simp add: mp_normalized_def mp_From_words mp_get_def byte_simps)
  qed
  have "le_val (mp_FromEx 2 a) < le_val (mp_From b) * 2 ^ (32 * 2)" using assms(2) by (simp add: mp_FromEx_val)
  from mp_SetDivResidNormalized_spec [OF n this assms(3) e] have "length q = 2" "le_val q = unat a * 2 ^ 64 div unat b"
    by (simp_all add: mp_FromEx_val)
  then show ?thesis using mp_get_Ord_two [of q] by (simp add: fl_DivInternal_def e)
qed

lemma unat_AddMsb: "unat (drop_bit 1 x OR s_HiBit) = unat (x :: u64) div 2 + 2 ^ 63"
proof -
  have l: "unat (drop_bit 1 x) < 2 ^ 63" using unat_u64_less [of x] by (simp add: unat_drop_bit div_less_iff_less_mult)
  have "drop_bit 1 x OR s_HiBit = s_HiBit + drop_bit 1 x"
    using word_or_disjoint_add [OF l s_HiBit_def] by (simp add: or.commute)
  moreover have "unat s_HiBit = 2 ^ 63" by (simp add: s_HiBit_def)
  ultimately show ?thesis using l by (simp add: unat_add_u64 unat_drop_bit)
qed

lemma fl_div_accurate:
  assumes "fl_norm a" and "fl_norm b" and "fl_small a" and "fl_small b" and "fl_div_ok a b"
  shows "fl_norm (fl_div a b)" and "tr64 (fl_val a / fl_val b) (fl_val (fl_div a b))"
    and "\<bar>sint (fl_Order (fl_div a b)) - (sint (fl_Order a) - sint (fl_Order b))\<bar> \<le> 64"
proof -
  have nz: "\<not> fl_IsZero a" "\<not> fl_IsZero b" using assms(1,2) by (auto simp: fl_norm_def fl_IsZero_def)
  define oa ob na nb where "oa = sint (fl_Order a)" and "ob = sint (fl_Order b)" and "na = unat (fl_Num a)" and "nb = unat (fl_Num b)"
  have n: "2 ^ 63 \<le> na" "2 ^ 63 \<le> nb" "na < 2 ^ 64" "nb < 2 ^ 64"
    using assms(1,2) unat_u64_less by (simp_all add: fl_norm_def na_def nb_def)
  define r where "r = fl_Order a - fl_Order b - 64"
  have 1: "sint (fl_Order a - fl_Order b) = oa - ob"
    using assms(3,4) by (subst sint_sub_u32) (auto simp: fl_small_def oa_def ob_def)
  have r: "sint r = oa - ob - 64"
    unfolding r_def using assms(3,4) by (subst sint_sub_u32) (auto simp: 1 fl_small_def oa_def ob_def)
  have r1: "sint (r + 1) = oa - ob - 63"
    using assms(3,4) by (subst sint_add_u32) (auto simp: r fl_small_def oa_def ob_def)
  define c where "c = power_int (2 :: real) (oa - ob)"
  have c: "0 < c" by (simp add: c_def)
  have quot: "fl_val a / fl_val b = real na / real nb * c"
    using n by (simp add: fl_val_def na_def nb_def c_def oa_def ob_def power_int_diff)
  have floor: "tr64 (real na / real nb * c) (real (na * m div (k * nb)) * (real k / real m * c))"
    if "0 < m" "0 < k" "2 ^ 63 \<le> na * m div (k * nb)" for m k
  proof (rule tr64_floor [OF that(3)])
    let ?q = "na * m div (k * nb)"
    have nb0: "0 < k * nb" using that(2) n(2) by simp
    show "0 < real k / real m * c" using that c by simp
    have lo: "real ?q * (real k * real nb) \<le> real na * real m" using real_div_le(1) [OF nb0, of "na * m"] by simp
    have hi: "real na * real m \<le> (real ?q + 1) * (real k * real nb)" using real_div_le(2) [OF nb0, of "na * m"] by simp
    have p: "0 < real nb" "0 < real m" using that(1) n(2) by simp_all
    have "real ?q * (real k / real m) \<le> real na / real nb"
      using lo p by (simp add: field_simps)
    then show "real ?q * (real k / real m * c) \<le> real na / real nb * c"
      using c mult_right_mono [of "real ?q * (real k / real m)" "real na / real nb" c] by (simp add: mult.assoc)
    have "real na / real nb \<le> (real ?q + 1) * (real k / real m)"
      using hi p by (simp add: field_simps)
    then show "real na / real nb * c \<le> (real ?q + 1) * (real k / real m * c)"
      using c mult_right_mono [of "real na / real nb" "(real ?q + 1) * (real k / real m)" c] by (simp add: mult.assoc)
  qed
  have "fl_norm (fl_div a b) \<and> tr64 (fl_val a / fl_val b) (fl_val (fl_div a b)) \<and>
    \<bar>sint (fl_Order (fl_div a b)) - (oa - ob)\<bar> \<le> 64"
  proof (cases "fl_Num b \<le> fl_Num a")
    case True
    define d where "d = fl_DivInternal (fl_Num a - fl_Num b) (fl_Num b)"
    have le: "nb \<le> na" using True by (simp add: word_le_nat_alt na_def nb_def)
    have s: "unat (fl_Num a - fl_Num b) = na - nb" using True by (simp add: unat_sub na_def nb_def)
    have d: "unat d = (na - nb) * 2 ^ 64 div nb"
      unfolding d_def using fl_DivInternal_val [of "fl_Num b" "fl_Num a - fl_Num b"] n le True assms(5)
      by (simp add: s fl_div_ok_def nb_def [symmetric])
    have sum: "unat d + 2 ^ 64 = na * 2 ^ 64 div nb"
    proof -
      have "na * 2 ^ 64 = (na - nb) * 2 ^ 64 + 2 ^ 64 * nb" using le by (simp add: diff_mult_distrib)
      then have "na * 2 ^ 64 div nb = (na - nb) * 2 ^ 64 div nb + 2 ^ 64" using n(2) by simp
      then show ?thesis by (simp add: d)
    qed
    have "unat d div 2 + 2 ^ 63 = (unat d + 2 ^ 64) div 2" by simp
    also have "\<dots> = na * 2 ^ 64 div (2 * nb)" unfolding sum by (simp add: div_mult2_eq [symmetric] mult.commute)
    finally have num: "unat d div 2 + 2 ^ 63 = na * 2 ^ 64 div (2 * nb)" .
    define x where "x = drop_bit 1 d OR s_HiBit"
    have x: "unat x = na * 2 ^ 64 div (2 * nb)" unfolding x_def unat_AddMsb by (rule num)
    have R: "fl_div a b = \<lparr>fl_Num = x, fl_Order = r + 1\<rparr>"
      unfolding x_def using nz True by (simp add: fl_div_def fl_AddMsb_def d_def r_def Let_def)
    have b63: "2 ^ 63 \<le> na * 2 ^ 64 div (2 * nb)" using num by linarith
    have "power_int (2 :: real) (oa - ob - 63) = 2 / 2 ^ 64 * c"
      using power_int_2_add [of "oa - ob - 63" 63] by (simp add: c_def)
    then have v: "fl_val (fl_div a b) = real (na * 2 ^ 64 div (2 * nb)) * (real 2 / real (2 ^ 64) * c)"
      unfolding R fl_val_def by (simp add: x r1)
    have "tr64 (fl_val a / fl_val b) (fl_val (fl_div a b))" unfolding quot v by (rule floor) (use b63 in simp_all)
    then show ?thesis using b63 r1 x by (simp add: R fl_norm_def)
  next
    case False
    define d where "d = fl_DivInternal (fl_Num a) (fl_Num b)"
    have lt: "na < nb" using False by (simp add: word_le_nat_alt na_def nb_def)
    have d: "unat d = na * 2 ^ 64 div nb"
      unfolding d_def using fl_DivInternal_val [of "fl_Num b" "fl_Num a"] n lt False assms(5)
      by (simp add: fl_div_ok_def nb_def [symmetric] na_def [symmetric])
    have R: "fl_div a b = \<lparr>fl_Num = d, fl_Order = r\<rparr>"
      using nz False by (simp add: fl_div_def d_def r_def Let_def)
    have b63: "2 ^ 63 \<le> na * 2 ^ 64 div nb"
    proof -
      have "2 ^ 63 * nb \<le> na * 2 ^ 64" using n(1,4) by (intro mult_mono) simp_all
      then show ?thesis using n(2) by (simp add: less_eq_div_iff_mult_less_eq)
    qed
    have "power_int (2 :: real) (oa - ob - 64) = 1 / 2 ^ 64 * c"
      using power_int_2_add [of "oa - ob - 64" 64] by (simp add: c_def)
    then have v: "fl_val (fl_div a b) = real (na * 2 ^ 64 div (1 * nb)) * (real 1 / real (2 ^ 64) * c)"
      unfolding R fl_val_def by (simp add: d r)
    have "tr64 (fl_val a / fl_val b) (fl_val (fl_div a b))" unfolding quot v by (rule floor) (use b63 in simp_all)
    then show ?thesis using b63 r d by (simp add: R fl_norm_def)
  qed
  then show "fl_norm (fl_div a b)" and "tr64 (fl_val a / fl_val b) (fl_val (fl_div a b))"
    and "\<bar>sint (fl_Order (fl_div a b)) - (sint (fl_Order a) - sint (fl_Order b))\<bar> \<le> 64"
    by (simp_all add: oa_def ob_def)
qed

lemma fl_AddInternal_accurate:
  assumes "fl_norm a" and "fl_small a" and "fl_small b" and "sint (fl_Order b) \<le> sint (fl_Order a)"
  shows "fl_norm (fl_AddInternal a b)" and "tr64 (fl_val a + fl_val b) (fl_val (fl_AddInternal a b))"
    and "sint (fl_Order a) \<le> sint (fl_Order (fl_AddInternal a b))"
    and "sint (fl_Order (fl_AddInternal a b)) \<le> sint (fl_Order a) + 1"
proof -
  define oa ob na nb where "oa = sint (fl_Order a)" and "ob = sint (fl_Order b)" and "na = unat (fl_Num a)" and "nb = unat (fl_Num b)"
  define dw where "dw = fl_Order a - fl_Order b"
  define d where "d = nat (oa - ob)"
  have sd: "sint dw = oa - ob"
    unfolding dw_def using assms(2,3) by (subst sint_sub_u32) (auto simp: fl_small_def oa_def ob_def)
  have d: "unat dw = d" using unat_nonneg_u32 [of dw] sd assms(4) by (simp add: d_def oa_def ob_def)
  have n: "2 ^ 63 \<le> na" "na < 2 ^ 64" "nb < 2 ^ 64"
    using assms(1) unat_u64_less by (simp_all add: fl_norm_def na_def nb_def)
  define c where "c = power_int (2 :: real) oa"
  have c: "0 < c" by (simp add: c_def)
  have cb: "power_int (2 :: real) ob = c / 2 ^ d"
  proof -
    have "ob + int d = oa" using assms(4) by (simp add: d_def oa_def ob_def)
    then show ?thesis using power_int_2_add [of ob "int d"] by (simp add: c_def)
  qed
  have va: "fl_val a = real na * c" "fl_val b = real nb / 2 ^ d * c"
    by (simp_all add: fl_val_def na_def nb_def c_def oa_def cb [unfolded ob_def c_def oa_def])
  define k where "k = nb div 2 ^ d"
  have kb: "real k \<le> real nb / 2 ^ d" "real nb / 2 ^ d \<le> real k + 1"
    using real_div_le [of "2 ^ d" nb] by (simp_all add: k_def field_simps)
  have ex: "real (na + k) * c \<le> fl_val a + fl_val b" "fl_val a + fl_val b \<le> (real (na + k) + 1) * c"
  proof -
    have "real k * c \<le> real nb / 2 ^ d * c" by (rule mult_right_mono [OF kb(1)]) (use c in simp)
    moreover have "real nb / 2 ^ d * c \<le> (real k + 1) * c" by (rule mult_right_mono [OF kb(2)]) (use c in simp)
    ultimately show "real (na + k) * c \<le> fl_val a + fl_val b" "fl_val a + fl_val b \<le> (real (na + k) + 1) * c"
      unfolding va by (simp_all add: algebra_simps)
  qed
  have res: "fl_norm (fl_AddInternal a b) \<and> tr64 (fl_val a + fl_val b) (fl_val (fl_AddInternal a b)) \<and>
    (sint (fl_Order (fl_AddInternal a b)) = oa \<or> sint (fl_Order (fl_AddInternal a b)) = oa + 1)"
  proof (cases "64 \<le> d")
    case True
    have R: "fl_AddInternal a b = a"
      using True d by (simp add: fl_AddInternal_def dw_def [symmetric] Let_def word_le_nat_alt)
    have "(2 :: nat) ^ 64 \<le> 2 ^ d" using True by (intro power_increasing) simp_all
    then have "k = 0" using n(3) by (simp add: k_def div_eq_0_iff)
    then show ?thesis using tr64_floor [OF n(1) c, of "fl_val a + fl_val b"] ex by (simp add: R va(1) assms(1) oa_def)
  next
    case False
    define m where "m = fl_Num a + drop_bit (unat dw) (fl_Num b)"
    have mu: "unat m = (na + k) mod 2 ^ 64" by (simp add: m_def unat_word_ariths unat_drop_bit d na_def nb_def k_def)
    have k64: "k < 2 ^ 64" using n(3) div_le_dividend [of nb "2 ^ d"] unfolding k_def by linarith
    have dl: "\<not> 64 \<le> dw" using False d by (simp add: word_le_nat_alt)
    show ?thesis
    proof (cases "na + k < 2 ^ 64")
      case True
      then have "\<not> m < fl_Num a" using mu by (simp add: word_less_nat_alt na_def)
      then have R: "fl_AddInternal a b = \<lparr>fl_Num = m, fl_Order = fl_Order a\<rparr>"
        using dl by (simp add: fl_AddInternal_def dw_def [symmetric] m_def [symmetric] Let_def)
      have "2 ^ 63 \<le> na + k" using n(1) by simp
      from tr64_floor [OF this c ex] show ?thesis using True mu n(1) by (simp add: R fl_norm_def fl_val_def c_def oa_def)
    next
      case F: False
      have mv: "unat m = na + k - 2 ^ 64" using F n(2) k64 by (simp add: mu le_mod_geq)
      then have "m < fl_Num a" using k64 F by (simp add: word_less_nat_alt na_def [symmetric])
      then have R: "fl_AddInternal a b = \<lparr>fl_Num = drop_bit 1 m OR s_HiBit, fl_Order = fl_Order a + 1\<rparr>"
        using dl by (simp add: fl_AddInternal_def fl_AddMsb_def dw_def [symmetric] m_def [symmetric] Let_def)
      define x where "x = drop_bit 1 m OR s_HiBit"
      define h where "h = (na + k) div 2"
      have x: "unat x = h"
      proof -
        have "unat x = (na + k - 2 ^ 64) div 2 + 2 ^ 63" unfolding x_def unat_AddMsb mv by simp
        also have "\<dots> = (na + k - 2 ^ 64 + 2 ^ 64) div 2" by simp
        finally show ?thesis using F by (simp add: h_def)
      qed
      have o1: "sint (fl_Order a + 1) = oa + 1"
        using assms(2) by (subst sint_add_u32) (auto simp: fl_small_def oa_def)
      have h63: "2 ^ 63 \<le> h" using F by (simp add: h_def)
      have "2 * h \<le> na + k" "na + k + 1 \<le> 2 * h + 2" by (simp_all add: h_def)
      then have hr: "real h * 2 \<le> real (na + k)" "real (na + k) + 1 \<le> (real h + 1) * 2"
        using of_nat_mono [of "2 * h" "na + k", where ?'a = real] of_nat_mono [of "na + k + 1" "2 * h + 2", where ?'a = real] by simp_all
      have "real h * 2 * c \<le> real (na + k) * c" by (rule mult_right_mono [OF hr(1)]) (use c in simp)
      moreover have "(real (na + k) + 1) * c \<le> (real h + 1) * 2 * c" by (rule mult_right_mono [OF hr(2)]) (use c in simp)
      ultimately have "real h * (2 * c) \<le> fl_val a + fl_val b" "fl_val a + fl_val b \<le> (real h + 1) * (2 * c)"
        using ex unfolding mult.assoc [symmetric] by linarith+
      from tr64_floor [OF h63 _ this] have "tr64 (fl_val a + fl_val b) (real h * (2 * c))" using c by simp
      moreover have "fl_val (fl_AddInternal a b) = real h * (2 * c)"
        unfolding R x_def [symmetric] fl_val_def using power_int_2_add [of oa 1] by (simp add: x o1 c_def)
      ultimately show ?thesis using h63 o1 x unfolding R x_def [symmetric] by (simp add: fl_norm_def)
    qed
  qed
  then show "fl_norm (fl_AddInternal a b)" and "tr64 (fl_val a + fl_val b) (fl_val (fl_AddInternal a b))"
    and "sint (fl_Order a) \<le> sint (fl_Order (fl_AddInternal a b))"
    and "sint (fl_Order (fl_AddInternal a b)) \<le> sint (fl_Order a) + 1"
    by (auto simp: oa_def)
qed

lemma fl_add_accurate:
  assumes "fl_norm a" and "fl_norm b" and "fl_small a" and "fl_small b"
  shows "fl_norm (fl_add a b)" and "tr64 (fl_val a + fl_val b) (fl_val (fl_add a b))"
proof -
  have nz: "\<not> fl_IsZero a" "\<not> fl_IsZero b" using assms(1,2) by (auto simp: fl_norm_def fl_IsZero_def)
  show "fl_norm (fl_add a b)" and "tr64 (fl_val a + fl_val b) (fl_val (fl_add a b))"
    using nz fl_AddInternal_accurate(1,2) [of a b] fl_AddInternal_accurate(1,2) [of b a] assms
    by (auto simp: fl_add_def add.commute)
qed

text \<open>The order of normalised numbers is lexicographic.\<close>

lemma fl_less_order:
  assumes "fl_norm b" and "sint (fl_Order a) < sint (fl_Order b)"
  shows "fl_val a < fl_val b"
proof -
  let ?oa = "sint (fl_Order a)" and ?ob = "sint (fl_Order b)"
  have "real (unat (fl_Num a)) < real (2 ^ 64)" using unat_u64_less [of "fl_Num a"] by (simp only: of_nat_less_iff)
  then have "fl_val a < 2 ^ 64 * power_int 2 ?oa" by (simp add: fl_val_def)
  also have "\<dots> = 2 ^ 63 * power_int 2 (?oa + 1)" by (simp add: power_int_2_add)
  also have "\<dots> \<le> 2 ^ 63 * power_int 2 ?ob" using assms(2) by (intro mult_left_mono power_int_increasing) simp_all
  also have "\<dots> \<le> fl_val b"
  proof -
    have "real (2 ^ 63) \<le> real (unat (fl_Num b))" using assms(1) by (simp only: fl_norm_def of_nat_le_iff)
    then show ?thesis unfolding fl_val_def by (intro mult_right_mono) simp_all
  qed
  finally show ?thesis .
qed

lemma fl_cmp_val:
  assumes "fl_norm a" and "fl_norm b"
  shows "fl_cmp a b = (if fl_val a < fl_val b then - 1 else if fl_val a > fl_val b then 1 else 0)"
proof -
  have nz: "\<not> fl_IsZero a" "\<not> fl_IsZero b" using assms by (auto simp: fl_norm_def fl_IsZero_def)
  consider "sint (fl_Order a) < sint (fl_Order b)" | "sint (fl_Order b) < sint (fl_Order a)"
    | "sint (fl_Order a) = sint (fl_Order b)" by linarith
  then show ?thesis
  proof cases
    case 1
    then show ?thesis using nz fl_less_order [OF assms(2) 1] by (simp add: fl_cmp_def)
  next
    case 2
    then show ?thesis using nz fl_less_order [OF assms(1) 2] by (simp add: fl_cmp_def)
  next
    case 3
    have "fl_val a < fl_val b \<longleftrightarrow> unat (fl_Num a) < unat (fl_Num b)" "fl_val b < fl_val a \<longleftrightarrow> unat (fl_Num b) < unat (fl_Num a)"
      by (simp_all add: fl_val_def 3)
    then show ?thesis using nz 3 by (simp add: fl_cmp_def word_less_nat_alt)
  qed
qed

section \<open>Properties\<close>



text \<open>Converting an amount to a \<open>Float\<close> and back is the identity.\<close>

theorem Float_Get_Set: "fl_Get (fl_Set v) = v"
proof (cases "v = 0")
  case True
  then show ?thesis by (simp add: fl_Set_0 fl_Get_def)
next
  case False
  have "real (unat (fl_Get (fl_Set v))) \<le> real (unat v)" "real (unat v) < real (unat (fl_Get (fl_Set v))) + 1"
    using fl_Get_floor [OF fl_Set_val(3) [OF False]] fl_Set_val(1) [OF False] by simp_all
  then have "unat (fl_Get (fl_Set v)) = unat v" by linarith
  then show ?thesis by (simp add: word_unat_eq_iff)
qed

text \<open>The truncated digit estimate makes \<open>Float\<close> division wrong by a factor of more than \<open>2 ^ 30\<close> for two amounts
  whose quotient is almost one, and the result is not normalised.\<close>

theorem Float_division_wrong:
  "fl_div (fl_Set 0x80000000F0000000) (fl_Set 0x80000000FFFFFFFF) = \<lparr>fl_Num = 0x1DFFFFFFC, fl_Order = - 64\<rparr> \<and>
   \<not> fl_norm (fl_div (fl_Set 0x80000000F0000000) (fl_Set 0x80000000FFFFFFFF)) \<and>
   fl_val (fl_div (fl_Set 0x80000000F0000000) (fl_Set 0x80000000FFFFFFFF)) * 2 ^ 30 <
     fl_val (fl_Set 0x80000000F0000000) / fl_val (fl_Set 0x80000000FFFFFFFF)"
proof -
  have r: "fl_div (fl_Set 0x80000000F0000000) (fl_Set 0x80000000FFFFFFFF) = \<lparr>fl_Num = 0x1DFFFFFFC, fl_Order = - 64\<rparr>"
    by code_simp
  have p: "power_int (2 :: real) (- 64) = 1 / 2 ^ 64" using power_int_minus [of "2 :: real" 64] by simp
  have o: "sint (- 64 :: u32) = - 64" by simp
  have u: "unat (0x1DFFFFFFC :: u64) = 0x1DFFFFFFC" by simp
  have q: "fl_val \<lparr>fl_Num = 0x1DFFFFFFC, fl_Order = - 64\<rparr> = 0x1DFFFFFFC / 2 ^ 64"
    unfolding fl_val_def Float.simps o p u by simp
  have a: "fl_val (fl_Set 0x80000000F0000000) = 0x80000000F0000000"
    by (subst fl_Set_val(1)) simp_all
  have b: "fl_val (fl_Set 0x80000000FFFFFFFF) = 0x80000000FFFFFFFF"
    by (subst fl_Set_val(1)) simp_all
  show ?thesis unfolding r q a b fl_norm_def Float.simps u by simp
qed

end
