(* ===== verification/Shader_Difficulty.thy ===== *)
theory Shader_Difficulty
  imports Difficulty Mp_Division
begin

text \<open>
  The contract-side check of block headers, \<open>BeamDifficulty\<close> of \<open>src/bvm/Shaders/BeamDifficulty.h\<close>: a contract that
  verifies the headers of another chain must decide the proof-of-work target, and accumulate work, as the node does in
  \<open>src/core/difficulty.cpp\<close>.  The theory proves the two implementations equal, the one on 32-bit words with a
  shifted 64-bit mantissa, the other on big-endian byte buffers, and shows where they differ.
\<close>

section \<open>Operations\<close>

definition bd_Data :: "u32 \<Rightarrow> u32 \<times> u32" where
  "bd_Data nPacked =
    (let m_Order = drop_bit 24 nPacked; nLeadingBit = push_bit 24 1
     in (m_Order, nLeadingBit OR (nPacked AND (nLeadingBit - 1))))"

definition bd_UnpackRaw :: "u32 \<Rightarrow> UInt" where
  "bd_UnpackRaw nPacked =
    (let nMaxOrder = 8 * 32 - 24 - 1; nInf = push_bit 24 (nMaxOrder + 1) in
     if nPacked < nInf then let (m_Order, m_Mantissa) = bd_Data nPacked in mp_SetShifted 8 [m_Mantissa] (sint m_Order)
     else mp_Fill 8 (- 1))"

definition bd_Add :: "UInt \<Rightarrow> u32 \<Rightarrow> UInt" where
  "bd_Add res nPacked = snd (mp_SetAdd (length res) res (bd_UnpackRaw nPacked))"

definition bd_UnpackShort :: "u32 \<Rightarrow> UInt \<times> nat" where
  "bd_UnpackShort nPacked =
    (let (m_Order, m_Mantissa) = bd_Data nPacked;
         nWords = m_Order div 32;
         m_Order = m_Order mod 32
     in (mp_From (push_bit (unat m_Order + 32 - 24) (ucast m_Mantissa)), unat nWords + 1))"

definition bd_IsTargetReached :: "bytes \<Rightarrow> u32 \<Rightarrow> bool" where
  "bd_IsTargetReached val nPacked =
    (let src = mp_FromBE (length val div 4) val;
         (diffShort, nZeroWords) = bd_UnpackShort nPacked;
         a = mp_mul src diffShort;
         nZeroWords = (if nZeroWords > length a then length a else nZeroWords)
     in list_all (\<lambda>w. w = 0) (drop (length a - nZeroWords) a))"

section \<open>Values\<close>

lemma mp_FromBE_val: "length p = 4 * n \<Longrightarrow> le_val (mp_FromBE n p) = be_val p"
  and length_mp_FromBE [simp]: "length (mp_FromBE n p) = n"
proof -
  show "length (mp_FromBE n p) = n" by (induction n arbitrary: p) simp_all
  have l: "length (mp_FromBE n p) = n" for n p by (induction n arbitrary: p) simp_all
  show "length p = 4 * n \<Longrightarrow> le_val (mp_FromBE n p) = be_val p"
  proof (induction n arbitrary: p)
    case 0
    then show ?case by simp
  next
    case (Suc n)
    have "be_val (take 4 p) < 256 ^ length (take 4 p)" by (rule be_val_less)
    also have "\<dots> = 2 ^ 32" using Suc.prems by simp
    finally have "unat (of_nat (be_val (take 4 p)) :: u32) = be_val (take 4 p)" by (rule unat_of_nat_u32)
    moreover have "be_val p = be_val (take 4 p) * 256 ^ (4 * n) + be_val (drop 4 p)"
      using be_val_append [of "take 4 p" "drop 4 p"] Suc.prems by simp
    ultimately show ?case using Suc by (simp add: le_val_append l pow256 mult.commute)
  qed
qed

lemma bd_Data_eq: "bd_Data p = dUnpack p"
  by (simp add: bd_Data_def dUnpack_def s_MantissaBits_def Let_def)

lemma nInf_eq: "push_bit 24 (8 * 32 - 24 - 1 + 1) = s_Inf"
  by (simp add: s_Inf_def s_MaxOrder_def s_MantissaBits_def)

lemma bd_UnpackRaw_val: "le_val (bd_UnpackRaw p) = be_val (dUnpackRaw p) \<and> length (bd_UnpackRaw p) = 8"
proof (cases "p < s_Inf")
  case True
  define k m where "k = unat (fst (dUnpack p))" and "m = snd (dUnpack p)"
  have k: "k = unat p div 2 ^ 24" and m: "unat m = 2 ^ 24 + unat p mod 2 ^ 24"
    by (simp_all add: k_def m_def unat_dUnpack)
  have k231: "k \<le> 231" using True by (simp add: k less_s_Inf)
  have s: "sint (fst (dUnpack p)) = int k"
  proof -
    have "fst (dUnpack p) = of_nat k" by (simp add: k_def)
    then show ?thesis using sint_of_int_u32 [of "int k"] k231 by simp
  qed
  have r: "bd_UnpackRaw p = mp_SetShifted 8 [m] (int k)"
    using True by (simp add: bd_UnpackRaw_def nInf_eq [simplified] bd_Data_eq case_prod_beta m_def s Let_def)
  have "raw_nat (unat p) < 2 ^ 256" using True by (intro raw_nat_less) (simp add: less_s_Inf)
  then have lt: "le_val [m] * 2 ^ k < 2 ^ (32 * 8)" by (simp add: raw_nat_def m k)
  have "length [m] + k div 32 \<le> 8" using k231 by simp
  from mp_SetShifted_left_val [OF this _ lt] show ?thesis
    using True by (simp add: r be_val_dUnpackRaw raw_nat_def m k)
next
  case False
  have f: "unat (- 1 :: u32) = 2 ^ 32 - 1" by (simp add: unsigned_minus_1_eq_mask mask_eq_exp_minus_1)
  have "le_val (replicate n (- 1)) = 2 ^ (32 * n) - 1" for n
  proof (induction n)
    case 0
    then show ?case by simp
  next
    case (Suc n)
    have "(1 :: nat) \<le> 2 ^ (32 * n)" by simp
    then show ?case using Suc f by (simp add: power_add right_diff_distrib')
  qed
  then show ?thesis using False by (simp add: bd_UnpackRaw_def nInf_eq [simplified] Let_def mp_Fill_def be_val_dUnpackRaw)
qed

lemma bd_Add_val:
  assumes "length w = 8"
  shows "le_val (bd_Add w p) = (le_val w + be_val (dUnpackRaw p)) mod 2 ^ 256"
proof -
  obtain c r where e: "mp_SetAdd 8 w (bd_UnpackRaw p) = (c, r)" by fastforce
  have s: "length r = 8" "le_val r + unat c * 2 ^ 256 = le_val w + be_val (dUnpackRaw p)"
    using mp_SetAdd_spec [OF e] bd_UnpackRaw_val [of p] assms by (simp_all add: mp_low_beyond)
  have "le_val r < 2 ^ 256" using le_val_less [of r] s(1) by simp
  then have "(le_val r + unat c * 2 ^ 256) mod 2 ^ 256 = le_val r" by simp
  then have "(le_val w + be_val (dUnpackRaw p)) mod 2 ^ 256 = le_val r" unfolding s(2) .
  then show ?thesis using e assms by (simp add: bd_Add_def)
qed

text \<open>The top words of a number are zero exactly when the number is small.\<close>

lemma drop_zero_iff: "k \<le> length a \<Longrightarrow> list_all (\<lambda>w. w = 0) (drop k a) \<longleftrightarrow> le_val a < 2 ^ (32 * k)"
proof -
  assume k: "k \<le> length a"
  have z: "list_all (\<lambda>w. w = 0) xs \<longleftrightarrow> le_val xs = 0" for xs by (induction xs) (auto simp: unat_eq_zero)
  have v: "le_val a = le_val (take k a) + 2 ^ (32 * k) * le_val (drop k a)"
    using le_val_append [of "take k a" "drop k a"] k by simp
  have "le_val (take k a) < 2 ^ (32 * k)" using le_val_less [of "take k a"] k by simp
  then show ?thesis unfolding z using v by (cases "le_val (drop k a)") simp_all
qed

lemma bd_IsTargetReached_iff:
  assumes "length hv = 32"
  shows "bd_IsTargetReached hv p \<longleftrightarrow> be_val hv * raw_nat (unat p) < 2 ^ 280"
proof -
  define k m where "k = unat p div 2 ^ 24" and "m = snd (dUnpack p)"
  have fk: "unat (fst (dUnpack p)) = k" and m: "unat m = 2 ^ 24 + unat p mod 2 ^ 24"
    by (simp_all add: k_def m_def unat_dUnpack)
  have k: "k < 256" using unat_u32_less [of p] by (simp add: k_def div_less_iff_less_mult)
  define q j where "q = k div 32" and "j = k mod 32"
  have q: "q \<le> 7" and kq: "k = 32 * q + j" and j: "j < 32" using k by (simp_all add: q_def j_def)
  have uj: "unat (fst (dUnpack p) mod 32) = j" "unat (fst (dUnpack p) div 32) = q"
    by (simp_all add: unat_mod unat_div fk j_def q_def)
  define s where "s = (push_bit (j + 32 - 24) (ucast m) :: u64)"
  have mb: "unat m < 2 ^ 25" using m by simp
  have s: "unat s = unat m * 2 ^ (j + 8)"
  proof -
    have "unat m * 2 ^ (j + 8) < 2 ^ 25 * 2 ^ 39"
    proof (rule mult_less_le_imp_less)
      show "(2 :: nat) ^ (j + 8) \<le> 2 ^ 39" using j by (intro power_increasing) simp_all
    qed (use mb in simp_all)
    then have lt: "unat m * 2 ^ (j + 8) < 2 ^ 64" by simp
    have "j + 32 - 24 = j + 8" by simp
    then have "s = push_bit (j + 8) (ucast m)" by (simp only: s_def)
    then have "unat s = (unat m * 2 ^ (j + 8)) mod 2 ^ 64"
      by (simp only: unsigned_push_bit_eq) (simp add: take_bit_eq_mod push_bit_eq_mult byte_simps)
    then show ?thesis using lt by simp
  qed
  define a where "a = mp_mul (mp_FromBE 8 hv) (mp_From s)"
  have la: "length a = 10" and va: "le_val a = be_val hv * unat s"
    using assms by (simp_all add: a_def length_mp_mul mp_mul_val mp_FromBE_val)
  have u: "bd_UnpackShort p = (mp_From s, q + 1)"
    by (simp add: bd_UnpackShort_def bd_Data_eq case_prod_beta Let_def s_def m_def uj)
  have "bd_IsTargetReached hv p \<longleftrightarrow> list_all (\<lambda>w. w = 0) (drop (10 - (q + 1)) a)"
    using assms q by (simp add: bd_IsTargetReached_def u Let_def a_def [symmetric] la)
  also have "\<dots> \<longleftrightarrow> be_val hv * unat s < 2 ^ (32 * (9 - q))"
    using drop_zero_iff [of "10 - (q + 1)" a] la va by simp
  also have "\<dots> \<longleftrightarrow> be_val hv * unat s * 2 ^ (32 * q) < 2 ^ (32 * (9 - q)) * 2 ^ (32 * q)" by simp
  also have "(2 :: nat) ^ (32 * (9 - q)) * 2 ^ (32 * q) = 2 ^ 8 * 2 ^ 280"
  proof -
    have "32 * (9 - q) + 32 * q = 8 + 280" using q by simp
    then show ?thesis by (simp only: power_add [symmetric])
  qed
  also have "be_val hv * unat s * 2 ^ (32 * q) = 2 ^ 8 * (be_val hv * raw_nat (unat p))"
  proof -
    have "raw_nat (unat p) = unat m * 2 ^ (32 * q + j)" by (simp only: raw_nat_def m k_def [symmetric] kq)
    then show ?thesis by (simp only: s power_add ac_simps)
  qed
  finally show ?thesis by (simp only: mult_less_cancel1) simp
qed

section \<open>Properties\<close>

text \<open>C32: for every valid finite difficulty the header check of the contract library accepts exactly the hashes that
  \<open>Difficulty::IsTargetReached\<close> of the node accepts, and the chain work it accumulates is the node's.\<close>

theorem contract_difficulty_agrees_with_node:
  assumes "length hv = 32" and "length w = 32" and "p < s_Inf"
  shows "(bd_IsTargetReached hv p \<longleftrightarrow> dIsTargetReached p hv) \<and>
    le_val (bd_Add (mp_FromBE 8 w) p) = be_val (dAddTo w p)"
proof
  show "bd_IsTargetReached hv p \<longleftrightarrow> dIsTargetReached p hv"
    using assms by (simp add: bd_IsTargetReached_iff dIsTargetReached_iff be_val_dUnpackRaw order.strict_implies_order)
  show "le_val (bd_Add (mp_FromBE 8 w) p) = be_val (dAddTo w p)"
    using assms(2) by (simp add: bd_Add_val mp_FromBE_val be_val_dAdd)
qed

theorem contract_difficulty_agrees_with_node_witness:
  "(0x5800000 :: u32) < s_Inf \<and>
   (bd_IsTargetReached (replicate 32 1) 0x5800000 \<longleftrightarrow> dIsTargetReached 0x5800000 (replicate 32 1)) \<and>
   le_val (bd_Add (mp_FromBE 8 (replicate 32 2)) 0x5800000) = be_val (dAddTo (replicate 32 2) 0x5800000)"
proof -
  have p: "(0x5800000 :: u32) < s_Inf" by code_simp
  from contract_difficulty_agrees_with_node [OF length_replicate length_replicate p] show ?thesis using p by blast
qed


end
