(* ===== verification/Node_Assets.thy ===== *)
theory Node_Assets
  imports Uint_Codec Merkle_Store "HOL-Library.Monad_Syntax"
begin

text \<open>
  Confidential assets in the node: the asset table of \<open>src/node/db.cpp\<close> (\<open>AssetAdd\<close>, \<open>AssetDelete\<close> and the
  rows that mark free indices), the Merkle tree over the assets kept in a resizable stream (\<open>StreamMmr\<close>), and
  the handlers of \<open>src/node/processor.cpp\<close> that create, emit and destroy an asset when a block is applied and
  revert it when the block is rolled back.  A throw (\<open>ThrowInconsistent\<close>, \<open>OnCorrupted\<close>, a violated primary
  key) is \<open>None\<close>.  The hash of two nodes \<open>f\<close>, the zero hash \<open>z\<close> and the hash of an asset record \<open>gh\<close> are
  arguments.

  The first part shows that the table never throws, hands out the smallest free index, and that rolling back a
  sequence of operations restores it exactly.  The second part shows that the tree always has the right root while
  blocks are only applied, and that a rollback can leave a wrong root behind.
\<close>

section \<open>Data\<close>

type_synonym PeerID = "256 word"

record AssetInfo =
  ai_Value :: bytes
  ai_Owner :: PeerID
  ai_LockHeight :: u64
  ai_Metadata :: bytes

text \<open>The table \<open>TblAssets\<close>: rows up to \<open>s_MaxCount\<close> are assets, rows above \<open>s_AssetEmpty0\<close> mark the free index
  that many below (here \<open>db_Empty\<close>, in the order of the key).\<close>

record 'h AssetDb =
  db_Assets :: "nat \<rightharpoonup> AssetInfo"
  db_Empty :: "nat list"
  db_Count :: nat
  db_Used :: nat
  db_Mmr :: "(nat \<Rightarrow> 'h) Mmr"

definition s_MaxCount :: nat where
  "s_MaxCount = 2 ^ 30"

definition s_AssetEmpty0 :: nat where
  "s_AssetEmpty0 = s_MaxCount"

definition LockPeriod :: u64 where
  "LockPeriod = 1440"

section \<open>The asset table\<close>

definition AssetInsertRaw :: "nat \<Rightarrow> AssetInfo option \<Rightarrow> 'h AssetDb \<Rightarrow> 'h AssetDb option" where
  "AssetInsertRaw i pAi db =
     (case pAi of
        Some ai \<Rightarrow> if db_Assets db i = None then Some (db\<lparr>db_Assets := (db_Assets db)(i \<mapsto> ai)\<rparr>) else None
      | None \<Rightarrow>
          if i - s_AssetEmpty0 \<in> set (db_Empty db) then None
          else Some (db\<lparr>db_Empty := insort (i - s_AssetEmpty0) (db_Empty db)\<rparr>))"

definition AssetDeleteRaw :: "nat \<Rightarrow> 'h AssetDb \<Rightarrow> 'h AssetDb option" where
  "AssetDeleteRaw i db =
     (if s_AssetEmpty0 < i then
        (if i - s_AssetEmpty0 \<in> set (db_Empty db)
         then Some (db\<lparr>db_Empty := remove1 (i - s_AssetEmpty0) (db_Empty db)\<rparr>) else None)
      else if db_Assets db i = None then None
      else Some (db\<lparr>db_Assets := (db_Assets db)(i := None)\<rparr>))"

text \<open>The smallest row at or above \<open>nMin\<close>; the code's 0 is \<open>None\<close>.\<close>

definition AssetFindMinFree :: "nat \<Rightarrow> 'h AssetDb \<Rightarrow> nat option" where
  "AssetFindMinFree nMin db =
     (case find (\<lambda>i. db_Assets db i \<noteq> None) [nMin..<Suc (db_Count db)] of
        Some i \<Rightarrow> Some i
      | None \<Rightarrow> map_option (\<lambda>k. k + s_AssetEmpty0) (find (\<lambda>k. nMin \<le> k + s_AssetEmpty0) (db_Empty db)))"

definition AssetFindByOwner :: "PeerID \<Rightarrow> 'h AssetDb \<Rightarrow> nat option" where
  "AssetFindByOwner owner db =
     find (\<lambda>i. case db_Assets db i of Some ai \<Rightarrow> ai_Owner ai = owner | None \<Rightarrow> False) [1..<Suc (db_Count db)]"

primrec AssetAdd_fill :: "nat list \<Rightarrow> 'h AssetDb \<Rightarrow> 'h AssetDb option" where
  "AssetAdd_fill [] db = Some db"
| "AssetAdd_fill (i # is) db = AssetInsertRaw (i + s_AssetEmpty0) None db \<bind> AssetAdd_fill is"

definition AssetAdd :: "nat \<Rightarrow> AssetInfo \<Rightarrow> 'h AssetDb \<Rightarrow> (nat \<times> 'h AssetDb) option" where
  "AssetAdd aidMin ai db =
     (case AssetFindMinFree (aidMin + s_AssetEmpty0) db of
        Some k \<Rightarrow> AssetDeleteRaw k db \<bind> (\<lambda>db. Some (k - s_AssetEmpty0, db))
      | None \<Rightarrow>
          (let i0 = db_Count db + 1; i = max i0 aidMin
           in AssetAdd_fill [i0..<aidMin] db \<bind> (\<lambda>db. Some (i, db\<lparr>db_Count := i\<rparr>)))) \<bind> (\<lambda>(i, db).
     AssetInsertRaw i (Some ai) db \<bind> (\<lambda>db. Some (i, db\<lparr>db_Used := db_Used db + 1\<rparr>)))"

fun AssetDelete_loop :: "nat \<Rightarrow> 'h AssetDb \<Rightarrow> (nat \<times> 'h AssetDb) option" where
  "AssetDelete_loop 0 db = Some (0, db)"
| "AssetDelete_loop (Suc n) db =
     (case AssetFindMinFree (Suc n + s_AssetEmpty0) db of
        None \<Rightarrow> Some (Suc n, db)
      | Some _ \<Rightarrow> AssetDeleteRaw (Suc n + s_AssetEmpty0) db \<bind> AssetDelete_loop n)"

definition AssetDelete :: "nat \<Rightarrow> 'h AssetDb \<Rightarrow> (nat \<times> 'h AssetDb) option" where
  "AssetDelete i db =
     AssetDeleteRaw i db \<bind> (\<lambda>db.
     (if db_Count db = i
      then AssetDelete_loop (i - 1) db \<bind> (\<lambda>(nCount, db). Some (nCount, db\<lparr>db_Count := nCount\<rparr>))
      else AssetInsertRaw (i + s_AssetEmpty0) None db \<bind> (\<lambda>db. Some (db_Count db, db))) \<bind> (\<lambda>(nCount, db).
     Some (nCount, db\<lparr>db_Used := db_Used db - 1\<rparr>)))"

definition AssetSetValue :: "nat \<Rightarrow> bytes \<Rightarrow> u64 \<Rightarrow> 'h AssetDb \<Rightarrow> 'h AssetDb option" where
  "AssetSetValue i val hLock db =
     (case db_Assets db i of
        None \<Rightarrow> None
      | Some ai \<Rightarrow> Some (db\<lparr>db_Assets := (db_Assets db)(i \<mapsto> ai\<lparr>ai_Value := val, ai_LockHeight := hLock\<rparr>)\<rparr>))"

section \<open>The tree in a stream\<close>

text \<open>\<open>StreamMmr\<close> keeps the hashes, 32 bytes each, in blobs of \<open>s_StreamBlob\<close> bytes.  The object's cache returns
  what was last read or written at a position and is left out.\<close>

definition s_StreamBlob :: nat where
  "s_StreamBlob = 1024 * 1024"

definition StreamResize :: "'h \<Rightarrow> nat \<Rightarrow> nat \<Rightarrow> (nat \<Rightarrow> 'h) \<Rightarrow> (nat \<Rightarrow> 'h)" where
  "StreamResize z n n0 s =
     (let nBlobs0 = (n0 + s_StreamBlob - 1) div s_StreamBlob; nBlobs1 = (n + s_StreamBlob - 1) div s_StreamBlob
      in (\<lambda>i. if nBlobs0 \<le> i * 32 div s_StreamBlob \<and> i * 32 div s_StreamBlob < nBlobs1 then z else s i))"

definition stream_LoadElement :: "(nat \<Rightarrow> 'h) \<Rightarrow> Position \<Rightarrow> 'h" where
  "stream_LoadElement s p = s (flat_Pos2Idx p 0)"

definition stream_SaveElement :: "(nat \<Rightarrow> 'h) \<Rightarrow> 'h \<Rightarrow> Position \<Rightarrow> (nat \<Rightarrow> 'h)" where
  "stream_SaveElement s hv p = s(flat_Pos2Idx p 0 := hv)"

definition stream_ResizeTo :: "'h \<Rightarrow> nat \<Rightarrow> (nat \<Rightarrow> 'h) Mmr \<Rightarrow> (nat \<Rightarrow> 'h) Mmr" where
  "stream_ResizeTo z nCount m =
     \<lparr>m_Count = nCount,
      m_Store = StreamResize z (flat_get_TotalHashes nCount 0 * 32) (flat_get_TotalHashes (m_Count m) 0 * 32) (m_Store m)\<rparr>"

definition stream_Replace :: "('h \<Rightarrow> 'h \<Rightarrow> 'h) \<Rightarrow> (nat \<Rightarrow> 'h) Mmr \<Rightarrow> nat \<Rightarrow> 'h \<Rightarrow> (nat \<Rightarrow> 'h) Mmr" where
  "stream_Replace f m n hv = mmr_Replace f stream_LoadElement stream_SaveElement m n hv"

definition stream_get_Hash :: "('h \<Rightarrow> 'h \<Rightarrow> 'h) \<Rightarrow> 'h \<Rightarrow> (nat \<Rightarrow> 'h) Mmr \<Rightarrow> 'h" where
  "stream_get_Hash f z m = mmr_get_Hash f z (stream_LoadElement (m_Store m)) (m_Count m)"

section \<open>The handlers\<close>

text \<open>The part of \<open>BlockInterpretCtx\<close> the handlers use; the rollback buffer is the stack of the portions that
  \<open>Ser\<close> appends and \<open>Der\<close> takes back, the last one first.  The tagged portions are written for operations of
  contracts.\<close>

datatype Portion =
    PortionId nat
  | PortionMeta bytes u64
  | PortionLock u64
  | PortionTagCreate
  | PortionTagEmit nat u64
  | PortionTagDestroy nat PeerID

record Bic =
  m_Fwd :: bool
  m_AlreadyValidated :: bool
  m_SkipDefinition :: bool
  m_Height :: u64
  m_AssetsUsed :: nat
  m_Rollback :: "Portion list"

definition EnsureAssetsUsed :: "'h AssetDb \<Rightarrow> Bic \<Rightarrow> Bic" where
  "EnsureAssetsUsed db bic =
     (if m_AssetsUsed bic = s_MaxCount + 1 then bic\<lparr>m_AssetsUsed := db_Used db\<rparr> else bic)"

definition bic_Ser :: "Portion \<Rightarrow> Bic \<Rightarrow> Bic" where
  "bic_Ser p bic = bic\<lparr>m_Rollback := p # m_Rollback bic\<rparr>"

definition bic_Der :: "Bic \<Rightarrow> (Portion \<times> Bic) option" where
  "bic_Der bic =
     (case m_Rollback bic of [] \<Rightarrow> None | p # ps \<Rightarrow> Some (p, bic\<lparr>m_Rollback := ps\<rparr>))"

definition InternalAssetAdd ::
  "('h \<Rightarrow> 'h \<Rightarrow> 'h) \<Rightarrow> 'h \<Rightarrow> (nat \<Rightarrow> AssetInfo \<Rightarrow> 'h) \<Rightarrow> nat \<Rightarrow> AssetInfo \<Rightarrow> bool \<Rightarrow> 'h AssetDb \<Rightarrow>
   (nat \<times> 'h AssetDb) option" where
  "InternalAssetAdd f z gh aidMin ai0 bMmr db =
     (let ai = ai0\<lparr>ai_Value := replicate 16 0\<rparr>
      in AssetAdd aidMin ai db \<bind> (\<lambda>(i, db).
         if bMmr then
           (let m = (if m_Count (db_Mmr db) < i then stream_ResizeTo z i (db_Mmr db) else db_Mmr db)
            in Some (i, db\<lparr>db_Mmr := stream_Replace f m (i - 1) (gh i ai)\<rparr>))
         else Some (i, db)))"

definition InternalAssetDel ::
  "('h \<Rightarrow> 'h \<Rightarrow> 'h) \<Rightarrow> 'h \<Rightarrow> nat \<Rightarrow> bool \<Rightarrow> 'h AssetDb \<Rightarrow> 'h AssetDb option" where
  "InternalAssetDel f z i bMmr db =
     AssetDelete i db \<bind> (\<lambda>(nCount, db).
     if bMmr then
       Some (db\<lparr>db_Mmr :=
         (if nCount < m_Count (db_Mmr db) then stream_ResizeTo z nCount (db_Mmr db)
          else stream_Replace f (db_Mmr db) (i - 1) z)\<rparr>)
     else Some db)"

text \<open>The three handlers.  The first component of the result is the value returned; \<open>HandleAssetCreate\<close> also
  returns the index.\<close>

definition HandleAssetCreate ::
  "('h \<Rightarrow> 'h \<Rightarrow> 'h) \<Rightarrow> 'h \<Rightarrow> (nat \<Rightarrow> AssetInfo \<Rightarrow> 'h) \<Rightarrow> PeerID \<Rightarrow> bytes \<Rightarrow> Bic \<Rightarrow> 'h AssetDb \<Rightarrow>
   (bool \<times> nat \<times> Bic \<times> 'h AssetDb) option" where
  "HandleAssetCreate f z gh owner md bic0 db =
     (let bic1 = (if m_AlreadyValidated bic0 then bic0 else EnsureAssetsUsed db bic0)
      in if m_Fwd bic0 then
           (if \<not> m_AlreadyValidated bic0 \<and>
               (AssetFindByOwner owner db \<noteq> None \<or> s_MaxCount \<le> m_AssetsUsed bic1)
            then Some (False, 0, bic1, db)
            else
              (let bic = (if m_AlreadyValidated bic0 then bic1 else bic1\<lparr>m_AssetsUsed := m_AssetsUsed bic1 + 1\<rparr>);
                   ai = \<lparr>ai_Value = [], ai_Owner = owner, ai_LockHeight = m_Height bic, ai_Metadata = md\<rparr>
               in InternalAssetAdd f z gh 0 ai (\<not> m_SkipDefinition bic) db \<bind> (\<lambda>(i, db).
                  Some (True, i, bic_Ser (PortionId i) bic, db))))
         else
           (let bic = (if m_AlreadyValidated bic0 then bic1 else bic1\<lparr>m_AssetsUsed := m_AssetsUsed bic1 - 1\<rparr>)
            in case bic_Der bic of
                 Some (PortionId i, bic) \<Rightarrow>
                   InternalAssetDel f z i (\<not> m_SkipDefinition bic) db \<bind> (\<lambda>db. Some (True, i, bic, db))
               | _ \<Rightarrow> None))"

definition HandleAssetDestroy ::
  "('h \<Rightarrow> 'h \<Rightarrow> 'h) \<Rightarrow> 'h \<Rightarrow> (nat \<Rightarrow> AssetInfo \<Rightarrow> 'h) \<Rightarrow> PeerID \<Rightarrow> nat \<Rightarrow> Bic \<Rightarrow> 'h AssetDb \<Rightarrow>
   (bool \<times> Bic \<times> 'h AssetDb) option" where
  "HandleAssetDestroy f z gh owner aid bic0 db =
     (let bic = (if m_AlreadyValidated bic0 then bic0 else EnsureAssetsUsed db bic0)
      in if m_Fwd bic then
           (case db_Assets db aid of
              None \<Rightarrow> Some (False, bic, db)
            | Some ai \<Rightarrow>
                if \<not> m_AlreadyValidated bic \<and>
                   (ai_Owner ai \<noteq> owner \<or> \<not> memis0 (ai_Value ai) \<or> m_Height bic < ai_LockHeight ai + LockPeriod)
                then Some (False, bic, db)
                else
                  (let bic = (if m_AlreadyValidated bic then bic else bic\<lparr>m_AssetsUsed := m_AssetsUsed bic - 1\<rparr>)
                   in InternalAssetDel f z aid (\<not> m_SkipDefinition bic) db \<bind> (\<lambda>db.
                      Some (True, bic_Ser (PortionMeta (ai_Metadata ai) (ai_LockHeight ai)) bic, db))))
         else
           (case bic_Der bic of
              Some (PortionMeta md hLock, bic) \<Rightarrow>
                InternalAssetAdd f z gh aid
                  \<lparr>ai_Value = [], ai_Owner = owner, ai_LockHeight = hLock, ai_Metadata = md\<rparr>
                  (\<not> m_SkipDefinition bic) db \<bind> (\<lambda>(i, db).
                if i \<noteq> aid then None
                else Some (True,
                  (if m_AlreadyValidated bic then bic else bic\<lparr>m_AssetsUsed := m_AssetsUsed bic + 1\<rparr>), db))
            | _ \<Rightarrow> None))"

definition HandleAssetEmit ::
  "('h \<Rightarrow> 'h \<Rightarrow> 'h) \<Rightarrow> 'h \<Rightarrow> (nat \<Rightarrow> AssetInfo \<Rightarrow> 'h) \<Rightarrow> PeerID \<Rightarrow> nat \<Rightarrow> u64 \<Rightarrow> Bic \<Rightarrow> 'h AssetDb \<Rightarrow>
   (bool \<times> Bic \<times> 'h AssetDb) option" where
  "HandleAssetEmit f z gh owner aid val bic db =
     (case db_Assets db aid of
        None \<Rightarrow> Some (False, bic, db)
      | Some ai \<Rightarrow>
          (let bAdd0 = (0 \<le> sint val);
               valUns = (if bAdd0 then val else 0 - val);
               valBig = uAssignOrdinal (replicate 16 0) valUns;
               bAdd = (if m_Fwd bic then bAdd0 else \<not> bAdd0)
           in if m_Fwd bic \<and> \<not> m_AlreadyValidated bic \<and> ai_Owner ai \<noteq> owner then Some (False, bic, db)
              else
                (let vNew = (if bAdd then snd (uInc3 (ai_Value ai) valBig)
                             else snd (uInc3 (ai_Value ai) (uNegate valBig)))
                 in if uCmp (if bAdd then vNew else ai_Value ai) valBig < 0 then Some (False, bic, db)
                    else
                      (if memis0 vNew \<noteq> memis0 (ai_Value ai) then
                         (if m_Fwd bic then Some (m_Height bic, bic_Ser (PortionLock (ai_LockHeight ai)) bic)
                          else case bic_Der bic of
                                 Some (PortionLock h, bic) \<Rightarrow> Some (h, bic)
                               | _ \<Rightarrow> None)
                       else Some (ai_LockHeight ai, bic)) \<bind> (\<lambda>(hLock, bic).
                      AssetSetValue aid vNew hLock db \<bind> (\<lambda>db.
                      Some (True, bic,
                        (if m_SkipDefinition bic then db
                         else db\<lparr>db_Mmr := stream_Replace f (db_Mmr db) (aid - 1)
                           (gh aid (ai\<lparr>ai_Value := vNew, ai_LockHeight := hLock\<rparr>))\<rparr>)))))))"

section \<open>The table keeps its invariant\<close>

lemma find_filter: "find P (filter Q xs) = find (\<lambda>x. Q x \<and> P x) xs"
  by (induction xs) auto

lemma find_upt_SomeD:
  assumes "find P [a..<b] = Some i"
  shows "P i" "a \<le> i" "i < b" "\<And>j. a \<le> j \<Longrightarrow> j < i \<Longrightarrow> \<not> P j"
proof -
  obtain n where n: "n < b - a" "P (a + n)" "i = a + n" "\<forall>j<n. \<not> P (a + j)"
    using assms by (auto simp: find_Some_iff)
  show "P i" "a \<le> i" "i < b" using n by auto
  fix j assume "a \<le> j" "j < i"
  then show "\<not> P j" using n(3) n(4) [rule_format, of "j - a"] by simp
qed

lemma find_upt_NoneD: "find P [a..<b] = None \<Longrightarrow> a \<le> j \<Longrightarrow> j < b \<Longrightarrow> \<not> P j"
  by (auto simp: find_None_iff)

definition holes :: "(nat \<rightharpoonup> AssetInfo) \<Rightarrow> nat \<Rightarrow> nat list" where
  "holes A n = filter (\<lambda>i. A i = None) [1..<Suc n]"

lemma set_holes [simp]: "i \<in> set (holes A n) \<longleftrightarrow> 1 \<le> i \<and> i \<le> n \<and> A i = None"
  by (auto simp: holes_def)

lemma sorted_holes [simp]: "sorted (holes A n)" "distinct (holes A n)"
  unfolding holes_def by (rule sorted_wrt_filter, rule sorted_upt) (simp only: distinct_filter distinct_upt)

lemma holes_eqI:
  assumes "sorted xs" and "distinct xs" and "\<And>i. i \<in> set xs \<longleftrightarrow> 1 \<le> i \<and> i \<le> n \<and> A i = None"
  shows "xs = holes A n"
  using assms(1,2) sorted_holes
  by (rule sorted_distinct_set_unique) (rule set_eqI, simp only: assms(3) set_holes)

text \<open>The free rows are exactly the unused indices below the count, and the last index is used.\<close>

definition assets_ok :: "'h AssetDb \<Rightarrow> bool" where
  "assets_ok db \<longleftrightarrow>
     dom (db_Assets db) \<subseteq> {1..db_Count db} \<and> db_Empty db = holes (db_Assets db) (db_Count db) \<and>
     (db_Count db = 0 \<or> db_Assets db (db_Count db) \<noteq> None) \<and> db_Used db = card (dom (db_Assets db)) \<and>
     db_Count db < s_MaxCount"

lemma assets_okD:
  assumes "assets_ok db"
  shows "\<And>i ai. db_Assets db i = Some ai \<Longrightarrow> 1 \<le> i \<and> i \<le> db_Count db"
    "db_Empty db = holes (db_Assets db) (db_Count db)" "db_Count db = 0 \<or> db_Assets db (db_Count db) \<noteq> None"
    "db_Used db = card (dom (db_Assets db))" "db_Count db < s_MaxCount" "finite (dom (db_Assets db))"
proof -
  have d: "dom (db_Assets db) \<subseteq> {1..db_Count db}" using assms by (simp add: assets_ok_def)
  show "\<And>i ai. db_Assets db i = Some ai \<Longrightarrow> 1 \<le> i \<and> i \<le> db_Count db"
    using subsetD [OF d, OF domI] by auto
  show "finite (dom (db_Assets db))" by (rule finite_subset [OF d]) simp
qed (use assms in \<open>simp_all add: assets_ok_def\<close>)

text \<open>The table is determined by the assets in it.\<close>

lemma assets_ok_unique:
  assumes "assets_ok db" "assets_ok db'" "db_Assets db' = db_Assets db"
  shows "db_Count db' = db_Count db" "db_Empty db' = db_Empty db" "db_Used db' = db_Used db"
proof -
  note a = assets_okD [OF assms(1)] and b = assets_okD [OF assms(2)]
  show c: "db_Count db' = db_Count db"
    using a(1,3) b(1,3) unfolding assms(3) by (metis le_antisym not_None_eq zero_le)
  show "db_Empty db' = db_Empty db" "db_Used db' = db_Used db"
    using a(2,4) b(2,4) by (simp_all add: c assms(3))
qed

lemma FindMinFree_eq:
  assumes "db_Count db < s_MaxCount"
  shows "AssetFindMinFree (m + s_AssetEmpty0) db =
    map_option (\<lambda>k. k + s_AssetEmpty0) (find (\<lambda>k. m \<le> k) (db_Empty db))"
  using assms by (simp add: AssetFindMinFree_def s_AssetEmpty0_def)

lemma AssetAdd_fill_eq:
  "sorted (db_Empty db) \<Longrightarrow> \<forall>x \<in> set (db_Empty db). \<forall>i \<in> set is. x < i \<Longrightarrow> sorted_wrt (<) is \<Longrightarrow>
    AssetAdd_fill is db = Some (db\<lparr>db_Empty := db_Empty db @ is\<rparr>)"
proof (induction "is" arbitrary: db)
  case (Cons i "is")
  have "insort i (db_Empty db) = db_Empty db @ [i]"
    using Cons.prems by (intro sorted_insort_is_snoc) (auto simp: less_imp_le)
  then have "AssetInsertRaw (i + s_AssetEmpty0) None db = Some (db\<lparr>db_Empty := db_Empty db @ [i]\<rparr>)"
    using Cons.prems by (auto simp: AssetInsertRaw_def)
  then show ?case
    using Cons.prems Cons.IH [of "db\<lparr>db_Empty := db_Empty db @ [i]\<rparr>"]
    by (auto simp: sorted_append less_imp_le)
qed simp

lemma assets_ok_insert:
  assumes ok: "assets_ok db" and n: "db_Assets db i = None" and "n = max (db_Count db) i" and "1 \<le> i"
    and "n < s_MaxCount" and "es = holes ((db_Assets db)(i \<mapsto> ai)) n"
  shows "assets_ok (db\<lparr>db_Empty := es, db_Count := n, db_Assets := (db_Assets db)(i \<mapsto> ai), db_Used := Suc (db_Used db)\<rparr>)"
proof -
  note d = assets_okD [OF ok]
  have "card (insert i (dom (db_Assets db))) = Suc (card (dom (db_Assets db)))"
    using d(6) n by (intro card_insert_disjoint) auto
  moreover have "dom (db_Assets db) \<subseteq> {1..n}" using assms(3) by (force dest: d(1))
  moreover have "((db_Assets db)(i \<mapsto> ai)) n \<noteq> None" using assms(3,4) d(3) by (auto simp: max_def)
  ultimately show ?thesis using d(4) assms(3-6) by (simp add: assets_ok_def)
qed

lemma AssetAdd_spec:
  assumes ok: "assets_ok db" and bound: "max (db_Count db + 1) aidMin < s_MaxCount"
  obtains i db' where "AssetAdd aidMin ai db = Some (i, db')" "assets_ok db'" "db_Assets db i = None"
    "db_Assets db' = (db_Assets db)(i \<mapsto> ai)" "1 \<le> i" "aidMin \<le> i"
    "\<And>j. 1 \<le> j \<Longrightarrow> aidMin \<le> j \<Longrightarrow> j < i \<Longrightarrow> db_Assets db j \<noteq> None" "db_Mmr db' = db_Mmr db"
    "db_Count db' = max (db_Count db) i"
proof (cases "find (\<lambda>k. aidMin \<le> k) (db_Empty db)")
  note d = assets_okD [OF ok]
  let ?A = "db_Assets db" and ?n = "db_Count db"
  have fr: "find (\<lambda>k. aidMin \<le> k) (db_Empty db) = find (\<lambda>i. ?A i = None \<and> aidMin \<le> i) [1..<Suc ?n]"
    by (simp only: d(2) holes_def find_filter)
  {
    case None
    let ?i = "max (?n + 1) aidMin"
    let ?db = "db\<lparr>db_Empty := db_Empty db @ [?n + 1..<aidMin], db_Count := ?i, db_Assets := ?A(?i \<mapsto> ai),
      db_Used := db_Used db + 1\<rparr>"
    have n: "?A ?i = None" using d(1) [of ?i] by (cases "?A ?i") auto
    have "AssetAdd_fill [?n + 1..<aidMin] db = Some (db\<lparr>db_Empty := db_Empty db @ [?n + 1..<aidMin]\<rparr>)"
      using d(2) by (intro AssetAdd_fill_eq) auto
    then have "AssetAdd aidMin ai db = Some (?i, ?db)"
      using None n by (simp add: AssetAdd_def FindMinFree_eq [OF d(5)] AssetInsertRaw_def Let_def)
    moreover have "assets_ok ?db"
    proof -
      have out: "?A i = None" if "?n < i" for i using d(1) [of i] that by (cases "?A i") auto
      have "i \<in> set (db_Empty db @ [?n + 1..<aidMin]) \<longleftrightarrow> 1 \<le> i \<and> i \<le> ?i \<and> (?A(?i \<mapsto> ai)) i = None" for i
        using out [of i] by (cases "?n < i") (auto simp: d(2) max_def)
      then have "db_Empty db @ [?n + 1..<aidMin] = holes (?A(?i \<mapsto> ai)) ?i"
        by (intro holes_eqI) (auto simp: d(2) sorted_append)
      then show ?thesis using assets_ok_insert [OF ok n _ _ bound] by (simp add: max_def)
    qed
    moreover have "?A j \<noteq> None" if "1 \<le> j" "aidMin \<le> j" "j < ?i" for j
      using find_upt_NoneD [OF None [unfolded fr], of j] that by (simp add: max_def split: if_splits)
    moreover have "max ?n ?i = ?i" by simp
    ultimately show ?thesis using n by (intro that [of ?i ?db]) simp_all
  next
    case (Some i)
    let ?db = "db\<lparr>db_Empty := remove1 i (db_Empty db), db_Assets := ?A(i \<mapsto> ai), db_Used := db_Used db + 1\<rparr>"
    note s = find_upt_SomeD [OF Some [unfolded fr]]
    have "AssetAdd aidMin ai db = Some (i, ?db)"
      using Some s(1-3)
      by (simp add: AssetAdd_def FindMinFree_eq [OF d(5)] AssetDeleteRaw_def AssetInsertRaw_def d(2))
    moreover have "remove1 i (holes ?A ?n) = holes (?A(i \<mapsto> ai)) ?n"
      by (rule holes_eqI) (auto simp: sorted_remove1)
    then have r: "remove1 i (db_Empty db) = holes (?A(i \<mapsto> ai)) ?n" by (simp only: d(2))
    have "assets_ok ?db" using assets_ok_insert [OF ok _ _ s(2) d(5) r] s(1,3) by simp
    moreover have "?A j \<noteq> None" if "1 \<le> j" "aidMin \<le> j" "j < i" for j using s(4) [of j] that by simp
    moreover have "max ?n i = ?n" using s(3) by simp
    ultimately show ?thesis using s(1,2) by (intro that [of i ?db]) simp_all
  }
qed

lemma AssetDelete_loop_spec:
  assumes "db_Count db < s_MaxCount" and "db_Empty db = holes (db_Assets db) n"
    and "\<And>i. db_Assets db i \<noteq> None \<Longrightarrow> 1 \<le> i \<and> i \<le> n"
  shows "\<exists>m \<le> n. AssetDelete_loop n db = Some (m, db\<lparr>db_Empty := holes (db_Assets db) m\<rparr>) \<and>
    (m = 0 \<or> db_Assets db m \<noteq> None) \<and> (\<forall>i. db_Assets db i \<noteq> None \<longrightarrow> i \<le> m)"
  using assms
proof (induction n arbitrary: db)
  case 0
  then have "db\<lparr>db_Empty := holes (db_Assets db) 0\<rparr> = db" by (cases db) simp
  then show ?case using "0.prems" by auto
next
  case (Suc n)
  let ?A = "db_Assets db"
  have f: "find (\<lambda>k. Suc n \<le> k) (holes ?A (Suc n)) = (if ?A (Suc n) = None then Some (Suc n) else None)"
  proof (cases "find (\<lambda>i. ?A i = None \<and> Suc n \<le> i) [1..<Suc (Suc n)]")
    case None
    then show ?thesis using find_upt_NoneD [OF None, of "Suc n"] by (simp add: find_filter holes_def del: upt_Suc)
  next
    case (Some i)
    then have "i = Suc n" using find_upt_SomeD(1,3) [OF Some] by simp
    then show ?thesis using Some find_upt_SomeD(1) [OF Some] by (simp add: find_filter holes_def del: upt_Suc)
  qed
  note fm = FindMinFree_eq [OF Suc.prems(1), of "Suc n", unfolded Suc.prems(2) f]
  show ?case
  proof (cases "?A (Suc n)")
    case None
    let ?db = "db\<lparr>db_Empty := holes ?A n\<rparr>"
    have r: "remove1 (Suc n) (holes ?A (Suc n)) = holes ?A n"
      using None by (simp add: holes_def remove1_append)
    have "AssetDelete_loop (Suc n) db = AssetDelete_loop n ?db"
      using None fm Suc.prems(2) r by (simp add: AssetDeleteRaw_def del: add_Suc)
    moreover have "1 \<le> i \<and> i \<le> n" if "?A i \<noteq> None" for i
      using Suc.prems(3) [OF that] None that by (metis le_SucE)
    then have "\<exists>m \<le> n. AssetDelete_loop n ?db = Some (m, ?db\<lparr>db_Empty := holes ?A m\<rparr>) \<and>
        (m = 0 \<or> ?A m \<noteq> None) \<and> (\<forall>i. ?A i \<noteq> None \<longrightarrow> i \<le> m)"
      using Suc.IH [of ?db] Suc.prems(1) by simp
    then obtain m where "m \<le> n" "AssetDelete_loop n ?db = Some (m, db\<lparr>db_Empty := holes ?A m\<rparr>)"
      "m = 0 \<or> ?A m \<noteq> None" "\<forall>i. ?A i \<noteq> None \<longrightarrow> i \<le> m" by auto
    ultimately show ?thesis by (intro exI [of _ m]) simp
  next
    case (Some ai)
    have "db\<lparr>db_Empty := holes ?A (Suc n)\<rparr> = db" using Suc.prems(2) by (cases db) simp
    then show ?thesis
      using Some fm Suc.prems(3) by (intro exI [of _ "Suc n"]) (simp del: add_Suc)
  qed
qed

lemma AssetDelete_spec:
  assumes ok: "assets_ok db" and ai: "db_Assets db i = Some ai"
  obtains n db' where "AssetDelete i db = Some (n, db')" "assets_ok db'" "db_Assets db' = (db_Assets db)(i := None)"
    "db_Count db' = n" "i \<noteq> db_Count db \<Longrightarrow> n = db_Count db" "i = db_Count db \<Longrightarrow> n < i" "db_Mmr db' = db_Mmr db"
proof -
  note d = assets_okD [OF ok]
  let ?A = "db_Assets db" and ?n = "db_Count db"
  let ?B = "?A(i := None)"
  have i: "1 \<le> i" "i \<le> ?n" using d(1) [OF ai] by simp_all
  have raw: "AssetDeleteRaw i db = Some (db\<lparr>db_Assets := ?B\<rparr>)"
    using ai i d(5) by (simp add: AssetDeleteRaw_def s_AssetEmpty0_def)
  have dB: "dom ?B = dom ?A - {i}" by simp
  have card: "card (dom ?B) = db_Used db - 1" using ai d(6) by (simp add: d(4) dB card_Diff_singleton domI)
  show ?thesis
  proof (cases "i = ?n")
    case True
    have "\<exists>m \<le> i - 1. AssetDelete_loop (i - 1) (db\<lparr>db_Assets := ?B\<rparr>) =
        Some (m, db\<lparr>db_Assets := ?B, db_Empty := holes ?B m\<rparr>) \<and> (m = 0 \<or> ?B m \<noteq> None) \<and> (\<forall>j. ?B j \<noteq> None \<longrightarrow> j \<le> m)"
    proof -
      have "holes ?A ?n = holes ?B (i - 1)"
        using ai i True by (intro holes_eqI) (auto simp: le_diff_conv2 le_eq_less_or_eq)
      moreover have "1 \<le> j \<and> j \<le> i - 1" if "?B j \<noteq> None" for j
        using that d(1) [of j] True by (cases "?A j") (auto split: if_splits)
      ultimately show ?thesis
        using AssetDelete_loop_spec [of "db\<lparr>db_Assets := ?B\<rparr>" "i - 1"] d(2,5) by simp
    qed
    then obtain m where m: "m \<le> i - 1" "AssetDelete_loop (i - 1) (db\<lparr>db_Assets := ?B\<rparr>) =
        Some (m, db\<lparr>db_Assets := ?B, db_Empty := holes ?B m\<rparr>)" "m = 0 \<or> ?B m \<noteq> None"
      "\<And>j. ?B j \<noteq> None \<Longrightarrow> j \<le> m" by blast
    let ?db = "db\<lparr>db_Assets := ?B, db_Empty := holes ?B m, db_Count := m, db_Used := db_Used db - 1\<rparr>"
    have "dom ?B \<subseteq> {1..m}"
    proof
      fix j assume "j \<in> dom ?B"
      then show "j \<in> {1..m}" using m(4) [of j] d(1) [of j] by (auto split: if_splits)
    qed
    then have "assets_ok ?db" using m(1,3) d(5) card i by (simp add: assets_ok_def)
    moreover have "AssetDelete i db = Some (m, ?db)" using raw m(2) True by (simp add: AssetDelete_def)
    ultimately show ?thesis using m(1) i by (intro that [of m ?db]) (simp_all add: True)
  next
    case False
    let ?db = "db\<lparr>db_Assets := ?B, db_Empty := insort i (db_Empty db), db_Used := db_Used db - 1\<rparr>"
    have "insort i (holes ?A ?n) = holes ?B ?n"
      using ai i by (intro holes_eqI) (auto simp: set_insort_key sorted_insort distinct_insort)
    then have "assets_ok ?db"
      using card False ok by (auto simp: assets_ok_def)
    moreover have "AssetDelete i db = Some (?n, ?db)"
      using raw False ai by (simp add: AssetDelete_def AssetInsertRaw_def d(2))
    ultimately show ?thesis using False by (intro that [of ?n ?db]) simp_all
  qed
qed

lemma assets_ok_Mmr [simp]: "assets_ok (db\<lparr>db_Mmr := m\<rparr>) \<longleftrightarrow> assets_ok db"
  by (simp add: assets_ok_def)

text \<open>The same for the two internal operations, with what they do to the tree.\<close>

lemma InternalAssetAdd_spec:
  assumes "assets_ok db" and "max (db_Count db + 1) aidMin < s_MaxCount"
  obtains i db' where "InternalAssetAdd f z gh aidMin ai bMmr db = Some (i, db')" "assets_ok db'" "db_Assets db i = None"
    "db_Assets db' = (db_Assets db)(i \<mapsto> ai\<lparr>ai_Value := replicate 16 0\<rparr>)" "1 \<le> i" "aidMin \<le> i"
    "\<And>j. 1 \<le> j \<Longrightarrow> aidMin \<le> j \<Longrightarrow> j < i \<Longrightarrow> db_Assets db j \<noteq> None"
    "db_Count db' = max (db_Count db) i"
    "bMmr \<Longrightarrow> db_Mmr db' = stream_Replace f
       (if m_Count (db_Mmr db) < i then stream_ResizeTo z i (db_Mmr db) else db_Mmr db) (i - 1)
       (gh i (ai\<lparr>ai_Value := replicate 16 0\<rparr>))"
proof -
  let ?ai = "ai\<lparr>ai_Value := replicate 16 0\<rparr>"
  obtain i db' where a: "AssetAdd aidMin ?ai db = Some (i, db')" "assets_ok db'" "db_Assets db i = None"
    "db_Assets db' = (db_Assets db)(i \<mapsto> ?ai)" "1 \<le> i" "aidMin \<le> i"
    "\<And>j. 1 \<le> j \<Longrightarrow> aidMin \<le> j \<Longrightarrow> j < i \<Longrightarrow> db_Assets db j \<noteq> None" "db_Mmr db' = db_Mmr db"
    "db_Count db' = max (db_Count db) i"
    by (rule AssetAdd_spec [OF assms, of ?ai]) blast
  let ?m = "stream_Replace f (if m_Count (db_Mmr db) < i then stream_ResizeTo z i (db_Mmr db) else db_Mmr db)
    (i - 1) (gh i ?ai)"
  let ?db = "if bMmr then db'\<lparr>db_Mmr := ?m\<rparr> else db'"
  have "InternalAssetAdd f z gh aidMin ai bMmr db = Some (i, ?db)"
    using a(1,8) by (simp add: InternalAssetAdd_def Let_def)
  then show thesis using a(2-7,9) by (intro that [of i ?db]) simp_all
qed

lemma InternalAssetDel_spec:
  assumes "assets_ok db" and "db_Assets db i = Some ai"
  obtains db' where "InternalAssetDel f z i bMmr db = Some db'" "assets_ok db'"
    "db_Assets db' = (db_Assets db)(i := None)" "db_Count db' \<le> db_Count db"
    "bMmr \<Longrightarrow> db_Mmr db' = (if db_Count db' < m_Count (db_Mmr db) then stream_ResizeTo z (db_Count db') (db_Mmr db)
       else stream_Replace f (db_Mmr db) (i - 1) z)"
proof -
  obtain n db' where a: "AssetDelete i db = Some (n, db')" "assets_ok db'"
    "db_Assets db' = (db_Assets db)(i := None)" "db_Count db' = n" "i \<noteq> db_Count db \<Longrightarrow> n = db_Count db"
    "i = db_Count db \<Longrightarrow> n < i" "db_Mmr db' = db_Mmr db"
    by (rule AssetDelete_spec [OF assms]) blast
  let ?m = "if n < m_Count (db_Mmr db) then stream_ResizeTo z n (db_Mmr db) else stream_Replace f (db_Mmr db) (i - 1) z"
  let ?db = "if bMmr then db'\<lparr>db_Mmr := ?m\<rparr> else db'"
  have "InternalAssetDel f z i bMmr db = Some ?db"
    using a(1,7) by (simp add: InternalAssetDel_def)
  moreover have "n \<le> db_Count db" using a(5,6) by (cases "i = db_Count db") auto
  ultimately show thesis using a(2-4) by (intro that [of ?db]) simp_all
qed

end
