(* ===== verification/Amount_Big.thy ===== *)
theory Amount_Big
  imports Uint_Codec
begin

text \<open>
  Sums of amounts (\<open>AmountBig::Type\<close> of \<open>src/core/block_crypt.h\<close>) are 16-byte big-endian integers.  The code adds
  with the wrapping increment and recognises an overflow by comparing the sum with one of the summands; it subtracts
  by adding a negation, or by negating, adding and negating back.  The lemmas here turn these idioms into ordinary
  addition and subtraction.
\<close>

lemma wrap_less_summand:
  assumes "(v :: nat) < M" and "a < M"
  shows "a \<le> (v + a) mod M \<longleftrightarrow> v + a < M"
proof (cases "v + a < M")
  case False
  then have "(v + a) mod M = v + a - M" using assms by (simp add: mod_if)
  then show ?thesis using False assms by linarith
qed simp

lemma wrap_add_negated:
  assumes "(a :: nat) \<le> v" and "v < M"
  shows "(v + (M - a) mod M) mod M = v - a"
proof (cases "a = 0")
  case True
  then show ?thesis using assms(2) by simp
next
  case False
  then have "(M - a) mod M = M - a" using assms by simp
  moreover have "v + (M - a) = v - a + M" using assms by linarith
  ultimately show ?thesis using assms(2) by (simp only: mod_add_self2) simp
qed

lemma wrap_negate_add_negate:
  assumes "(a :: nat) \<le> v" and "v < M"
  shows "(M - ((M - v) mod M + a) mod M) mod M = v - a"
proof (cases "v = 0")
  case True
  then show ?thesis using assms by simp
next
  case False
  then have e: "(M - v) mod M = M - v" using assms by simp
  show ?thesis
  proof (cases "a = v")
    case True
    then show ?thesis using assms by (simp add: e)
  next
    case False
    then have "(M - v + a) mod M = M - v + a" "M - (M - v + a) = v - a" using assms by simp_all
    then show ?thesis using assms by (simp add: e)
  qed
qed

definition amount16 :: "bytes \<Rightarrow> bool" where
  "amount16 v \<longleftrightarrow> length v = 16"

lemma amount_less: "amount16 v \<Longrightarrow> be_val v < 2 ^ 128"
  using be_val_less [of v] by (simp add: amount16_def)

lemma amount_eqI: "amount16 v \<Longrightarrow> amount16 w \<Longrightarrow> be_val v = be_val w \<Longrightarrow> v = w"
  by (simp add: amount16_def be_val_inject)

lemma amount_uInc3 [simp]: "amount16 (snd (uInc3 v a)) \<longleftrightarrow> amount16 v"
  and amount_uNegate [simp]: "amount16 (uNegate v) \<longleftrightarrow> amount16 v"
  and amount_zero [simp]: "amount16 (replicate 16 0)"
  by (simp_all add: amount16_def)

lemma be_val_amount_add: "amount16 v \<Longrightarrow> be_val (snd (uInc3 v a)) = (be_val v + be_val a) mod 2 ^ 128"
  using be_val_uInc3 [of v a] by (simp add: amount16_def)

lemma be_val_amount_neg: "amount16 v \<Longrightarrow> be_val (uNegate v) = (2 ^ 128 - be_val v) mod 2 ^ 128"
  using be_val_uNegate [of v] by (simp add: amount16_def)

text \<open>The overflow test, and the two ways to subtract.\<close>

lemma amount_add:
  assumes "amount16 v" and "be_val a < 2 ^ 128"
  shows "uCmp (snd (uInc3 v a)) a < 0 \<longleftrightarrow> 2 ^ 128 \<le> be_val v + be_val a"
    "\<not> uCmp (snd (uInc3 v a)) a < 0 \<Longrightarrow> be_val (snd (uInc3 v a)) = be_val v + be_val a"
  using assms wrap_less_summand [of "be_val v" "2 ^ 128" "be_val a"] amount_less [OF assms(1)]
  by (auto simp: uCmp_less_0 be_val_amount_add not_less)

lemma amount_sub_negated:
  assumes "amount16 v" and "amount16 a" and "be_val a \<le> be_val v"
  shows "be_val (snd (uInc3 v (uNegate a))) = be_val v - be_val a"
  unfolding be_val_amount_add [OF assms(1)] be_val_amount_neg [OF assms(2)]
  by (rule wrap_add_negated [OF assms(3) amount_less [OF assms(1)]])

lemma amount_negate_sub:
  assumes "amount16 v" and "be_val a \<le> be_val v"
  shows "be_val (uNegate (snd (uInc3 (uNegate v) a))) = be_val v - be_val a"
proof -
  have n: "amount16 (uNegate v)" using assms(1) by simp
  have m: "amount16 (snd (uInc3 (uNegate v) a))" using assms(1) by simp
  show ?thesis
    unfolding be_val_amount_neg [OF m] be_val_amount_add [OF n] be_val_amount_neg [OF assms(1)]
    by (rule wrap_negate_add_negate [OF assms(2) amount_less [OF assms(1)]])
qed

lemma amount_of_u64:
  fixes x :: u64
  shows "amount16 (uAssignOrdinal (replicate 16 0) x)" "be_val (uAssignOrdinal (replicate 16 0) x) = unat x"
    "be_val (uAssignOrdinal (replicate 8 0) x) = unat x"
proof -
  have "unat x < 2 ^ 64" by (rule unat_u64_less)
  moreover have "(2 :: nat) ^ 64 \<le> 256 ^ 8" "(2 :: nat) ^ 64 \<le> 256 ^ 16" by simp_all
  ultimately have "unat x < 256 ^ 8" "unat x < 256 ^ 16" by linarith+
  then show "amount16 (uAssignOrdinal (replicate 16 0) x)" "be_val (uAssignOrdinal (replicate 16 0) x) = unat x"
    "be_val (uAssignOrdinal (replicate 8 0) x) = unat x"
    using uAssignOrdinal_eq [where ?'a = 64 and k = 8, of "replicate 16 0" x]
      uAssignOrdinal_eq [where ?'a = 64 and k = 8, of "replicate 8 0" x]
    by (simp_all add: amount16_def be_val_be_bytes)
qed

text \<open>Taking back what was added, and adding what was taken, give the old amount.\<close>

lemma amount_add_back:
  assumes "amount16 v" and "amount16 a" and "\<not> uCmp (snd (uInc3 v a)) a < 0"
  shows "snd (uInc3 (snd (uInc3 v a)) (uNegate a)) = v"
  using assms amount_add(2) [OF assms(1) amount_less [OF assms(2)] assms(3)]
  by (intro amount_eqI) (simp_all add: amount_sub_negated)

lemma amount_sub_back:
  assumes "amount16 v" and "amount16 a" and "\<not> uCmp v a < 0"
  shows "snd (uInc3 (snd (uInc3 v (uNegate a))) a) = v"
proof -
  have le: "be_val a \<le> be_val v" using assms(3) by (simp add: uCmp_less_0 not_less)
  have "be_val (snd (uInc3 (snd (uInc3 v (uNegate a))) a)) = be_val v"
    using amount_sub_negated [OF assms(1,2) le] le amount_less [OF assms(1)] amount_less [OF assms(2)] assms(1)
    by (simp add: be_val_amount_add)
  then show ?thesis using assms(1) by (intro amount_eqI) simp_all
qed

end
