(* ===== verification/Node_Rollback.thy ===== *)
theory Node_Rollback
  imports Node_Assets Amount_Big
begin

text \<open>
  Blocks of asset kernels: the kernels are applied one after the other, and a rollback handles them in the reverse
  order with the portions the first pass saved.  The table comes back exactly.
\<close>

section \<open>Sequences of kernels\<close>

datatype AssetKernel =
  TxKernelAssetCreate PeerID bytes
| TxKernelAssetDestroy PeerID nat
| TxKernelAssetEmit PeerID nat u64

fun HandleKernelAsset ::
  "('h \<Rightarrow> 'h \<Rightarrow> 'h) \<Rightarrow> 'h \<Rightarrow> (nat \<Rightarrow> AssetInfo \<Rightarrow> 'h) \<Rightarrow> AssetKernel \<Rightarrow> Bic \<Rightarrow> 'h AssetDb \<Rightarrow>
   (bool \<times> Bic \<times> 'h AssetDb) option" where
  "HandleKernelAsset f z gh (TxKernelAssetCreate owner md) bic db =
     HandleAssetCreate f z gh owner md bic db \<bind> (\<lambda>(b, aid, r). Some (b, r))"
| "HandleKernelAsset f z gh (TxKernelAssetDestroy owner aid) bic db = HandleAssetDestroy f z gh owner aid bic db"
| "HandleKernelAsset f z gh (TxKernelAssetEmit owner aid val) bic db = HandleAssetEmit f z gh owner aid val bic db"

text \<open>\<open>HandleElementVecFwd\<close> and, on the reversed list, \<open>HandleElementVecBwd\<close>, which calls \<open>OnCorrupted\<close> when a
  kernel cannot be reverted.\<close>

primrec HandleKernels ::
  "('h \<Rightarrow> 'h \<Rightarrow> 'h) \<Rightarrow> 'h \<Rightarrow> (nat \<Rightarrow> AssetInfo \<Rightarrow> 'h) \<Rightarrow> AssetKernel list \<Rightarrow> Bic \<Rightarrow> 'h AssetDb \<Rightarrow>
   (bool \<times> Bic \<times> 'h AssetDb) option" where
  "HandleKernels f z gh [] bic db = Some (True, bic, db)"
| "HandleKernels f z gh (k # ks) bic db =
     HandleKernelAsset f z gh k bic db \<bind> (\<lambda>(b, bic, db).
     if b then HandleKernels f z gh ks bic db else if m_Fwd bic then Some (False, bic, db) else None)"

section \<open>Rolling back restores the table\<close>

definition values_ok :: "'h AssetDb \<Rightarrow> bool" where
  "values_ok db \<longleftrightarrow> (\<forall>ai \<in> ran (db_Assets db). amount16 (ai_Value ai))"

lemma values_okD: "values_ok db \<Longrightarrow> db_Assets db i = Some ai \<Longrightarrow> amount16 (ai_Value ai)"
  by (auto simp: values_ok_def ran_def)

lemma values_ok_upd: "values_ok db \<Longrightarrow> db_Assets db' = (db_Assets db)(i \<mapsto> ai) \<Longrightarrow> amount16 (ai_Value ai) \<Longrightarrow> values_ok db'"
  by (auto simp: values_ok_def ran_def split: if_splits)

lemma values_ok_del: "values_ok db \<Longrightarrow> db_Assets db' = (db_Assets db)(i := None) \<Longrightarrow> values_ok db'"
  by (auto simp: values_ok_def ran_def split: if_splits)

text \<open>What a handler needs of the context while a block is validated and applied for the first time.\<close>

definition applying :: "Bic \<Rightarrow> bool" where
  "applying bic \<longleftrightarrow> m_Fwd bic \<and> \<not> m_AlreadyValidated bic"

text \<open>The kernel \<open>k\<close> took \<open>db\<close> to \<open>db'\<close> and pushed \<open>ps\<close>; handling it backwards with these portions on top brings
  the assets of any table equal to \<open>db'\<close> back to those of \<open>db\<close>.\<close>

definition undone ::
  "('h \<Rightarrow> 'h \<Rightarrow> 'h) \<Rightarrow> 'h \<Rightarrow> (nat \<Rightarrow> AssetInfo \<Rightarrow> 'h) \<Rightarrow> AssetKernel \<Rightarrow> Portion list \<Rightarrow> 'h AssetDb \<Rightarrow> 'h AssetDb \<Rightarrow> bool" where
  "undone f z gh k ps db' db \<longleftrightarrow>
     (\<forall>bic d r. \<not> m_Fwd bic \<longrightarrow> m_Rollback bic = ps @ r \<longrightarrow> assets_ok d \<longrightarrow> db_Assets d = db_Assets db' \<longrightarrow>
        (\<exists>bic2 d2. HandleKernelAsset f z gh k bic d = Some (True, bic2, d2) \<and> \<not> m_Fwd bic2 \<and> m_Rollback bic2 = r \<and>
           assets_ok d2 \<and> db_Assets d2 = db_Assets db))"

lemma EnsureAssetsUsed_sel [simp]:
  "m_Fwd (EnsureAssetsUsed db bic) = m_Fwd bic" "m_AlreadyValidated (EnsureAssetsUsed db bic) = m_AlreadyValidated bic"
  "m_SkipDefinition (EnsureAssetsUsed db bic) = m_SkipDefinition bic" "m_Height (EnsureAssetsUsed db bic) = m_Height bic"
  "m_Rollback (EnsureAssetsUsed db bic) = m_Rollback bic"
  by (simp_all add: EnsureAssetsUsed_def)

lemma Create_roundtrip:
  fixes db :: "'h AssetDb"
  assumes "applying bic" and ok: "assets_ok db" and v: "values_ok db" and room: "db_Count db + 1 < s_MaxCount"
    and h: "HandleKernelAsset f z gh (TxKernelAssetCreate owner md) bic db = Some (True, bic', db')"
  shows "assets_ok db'" "values_ok db'" "db_Count db' \<le> db_Count db + 1" "applying bic'"
    "\<exists>ps. m_Rollback bic' = ps @ m_Rollback bic \<and> undone f z gh (TxKernelAssetCreate owner md) ps db' db"
proof -
  let ?ai = "\<lparr>ai_Value = [], ai_Owner = owner, ai_LockHeight = m_Height bic, ai_Metadata = md\<rparr>"
  obtain i d where a: "InternalAssetAdd f z gh 0 ?ai (\<not> m_SkipDefinition bic) db = Some (i, d)" "assets_ok d"
    "db_Assets db i = None" "db_Assets d = (db_Assets db)(i \<mapsto> ?ai\<lparr>ai_Value := replicate 16 0\<rparr>)" "1 \<le> i"
    "\<And>j. 1 \<le> j \<Longrightarrow> j < i \<Longrightarrow> db_Assets db j \<noteq> None" "db_Count d = max (db_Count db) i"
    by (rule InternalAssetAdd_spec [OF ok, of 0 f z gh ?ai "\<not> m_SkipDefinition bic"]) (use room in auto)
  have e: "db' = d" "applying bic'" "m_Rollback bic' = PortionId i # m_Rollback bic"
    using h assms(1) a(1) by (auto simp: HandleAssetCreate_def applying_def bic_Ser_def Let_def split: if_splits)
  have "i \<le> db_Count db + 1" using a(6) [of "db_Count db + 1"] assets_okD(1) [OF ok, of "db_Count db + 1"] by fastforce
  then show "assets_ok db'" "values_ok db'" "db_Count db' \<le> db_Count db + 1" "applying bic'"
    using a(2,7) e values_ok_upd [OF v a(4)] by auto
  have "undone f z gh (TxKernelAssetCreate owner md) [PortionId i] db' db"
    unfolding undone_def
  proof (intro allI impI)
    fix b :: Bic and x :: "'h AssetDb" and r
    assume b: "\<not> m_Fwd b" "m_Rollback b = [PortionId i] @ r" and x: "assets_ok x" "db_Assets x = db_Assets db'"
    have "db_Assets x i = Some (?ai\<lparr>ai_Value := replicate 16 0\<rparr>)" by (simp add: x(2) e(1) a(4))
    then obtain d2 where "InternalAssetDel f z i (\<not> m_SkipDefinition b) x = Some d2" "assets_ok d2"
      "db_Assets d2 = (db_Assets x)(i := None)"
      by (rule InternalAssetDel_spec [OF x(1), of i _ f z "\<not> m_SkipDefinition b"]) blast
    moreover have "(db_Assets x)(i := None) = db_Assets db" using a(3,4) x(2) e(1) by (simp add: fun_upd_idem)
    ultimately show "\<exists>bic2 d2. HandleKernelAsset f z gh (TxKernelAssetCreate owner md) b x = Some (True, bic2, d2) \<and>
        \<not> m_Fwd bic2 \<and> m_Rollback bic2 = r \<and> assets_ok d2 \<and> db_Assets d2 = db_Assets db"
      using b by (simp add: HandleAssetCreate_def bic_Der_def Let_def)
  qed
  then show "\<exists>ps. m_Rollback bic' = ps @ m_Rollback bic \<and> undone f z gh (TxKernelAssetCreate owner md) ps db' db"
    using e(3) by (intro exI [of _ "[PortionId i]"]) simp
qed

lemma Destroy_roundtrip:
  fixes db :: "'h AssetDb"
  assumes "applying bic" and ok: "assets_ok db" and v: "values_ok db" and room: "db_Count db + 1 < s_MaxCount"
    and h: "HandleKernelAsset f z gh (TxKernelAssetDestroy owner aid) bic db = Some (True, bic', db')"
  shows "assets_ok db'" "values_ok db'" "db_Count db' \<le> db_Count db + 1" "applying bic'"
    "\<exists>ps. m_Rollback bic' = ps @ m_Rollback bic \<and> undone f z gh (TxKernelAssetDestroy owner aid) ps db' db"
proof -
  obtain ai where ai: "db_Assets db aid = Some ai" "ai_Owner ai = owner" "memis0 (ai_Value ai)"
    using h assms(1) by (auto simp: HandleAssetDestroy_def applying_def Let_def split: option.splits if_splits)
  obtain d where a: "InternalAssetDel f z aid (\<not> m_SkipDefinition bic) db = Some d" "assets_ok d"
    "db_Assets d = (db_Assets db)(aid := None)" "db_Count d \<le> db_Count db"
    by (rule InternalAssetDel_spec [OF ok ai(1), of f z "\<not> m_SkipDefinition bic"]) blast
  let ?p = "PortionMeta (ai_Metadata ai) (ai_LockHeight ai)"
  have e: "db' = d" "applying bic'" "m_Rollback bic' = ?p # m_Rollback bic"
    using h assms(1) ai a(1) by (auto simp: HandleAssetDestroy_def applying_def bic_Ser_def Let_def split: if_splits)
  show "assets_ok db'" "values_ok db'" "db_Count db' \<le> db_Count db + 1" "applying bic'"
    using a(2,4) e values_ok_del [OF v a(3)] by auto
  let ?ai = "\<lparr>ai_Value = [], ai_Owner = owner, ai_LockHeight = ai_LockHeight ai, ai_Metadata = ai_Metadata ai\<rparr>"
  have zero: "?ai\<lparr>ai_Value := replicate 16 0\<rparr> = ai"
  proof -
    have "be_val (ai_Value ai) = be_val (replicate 16 (0 :: u8))" using ai(3) by (simp add: memis0_be_val)
    then have "ai_Value ai = replicate 16 0"
      using amount_eqI [OF values_okD [OF v ai(1)] amount_zero] by simp
    then show ?thesis using ai(2) by (cases ai) simp
  qed
  have "undone f z gh (TxKernelAssetDestroy owner aid) [?p] db' db"
    unfolding undone_def
  proof (intro allI impI)
    fix b :: Bic and x :: "'h AssetDb" and r
    assume b: "\<not> m_Fwd b" "m_Rollback b = [?p] @ r" and x: "assets_ok x" "db_Assets x = db_Assets db'"
    have c: "max (db_Count x + 1) aid < s_MaxCount"
      using assets_ok_unique(1) [OF a(2) x(1)] x(2) e(1) a(4) room assets_okD(1) [OF ok ai(1)] by simp
    obtain i d2 where i: "InternalAssetAdd f z gh aid ?ai (\<not> m_SkipDefinition b) x = Some (i, d2)" "assets_ok d2"
      "db_Assets d2 = (db_Assets x)(i \<mapsto> ?ai\<lparr>ai_Value := replicate 16 0\<rparr>)" "aid \<le> i"
      "\<And>j. 1 \<le> j \<Longrightarrow> aid \<le> j \<Longrightarrow> j < i \<Longrightarrow> db_Assets x j \<noteq> None"
      by (rule InternalAssetAdd_spec [OF x(1) c, of f z gh ?ai "\<not> m_SkipDefinition b"]) blast
    have "i = aid"
      using i(4) i(5) [of aid] assets_okD(1) [OF ok ai(1)] x(2) e(1) a(3) by fastforce
    moreover have "db_Assets d2 = db_Assets db"
      using i(3) x(2) e(1) a(3) ai(1) zero \<open>i = aid\<close> by (simp add: fun_upd_idem)
    ultimately show "\<exists>bic2 d2. HandleKernelAsset f z gh (TxKernelAssetDestroy owner aid) b x = Some (True, bic2, d2) \<and>
        \<not> m_Fwd bic2 \<and> m_Rollback bic2 = r \<and> assets_ok d2 \<and> db_Assets d2 = db_Assets db"
      using b i(1,2) by (simp add: HandleAssetDestroy_def bic_Der_def Let_def)
  qed
  then show "\<exists>ps. m_Rollback bic' = ps @ m_Rollback bic \<and> undone f z gh (TxKernelAssetDestroy owner aid) ps db' db"
    using e(3) by (intro exI [of _ "[?p]"]) simp
qed

text \<open>\<open>HandleAssetEmit\<close> in one piece: the new value, the test, the lock height taken from the context, and the
  record written.\<close>

definition emit_value :: "bool \<Rightarrow> bytes \<Rightarrow> bytes \<Rightarrow> bytes" where
  "emit_value up v a = (if up then snd (uInc3 v a) else snd (uInc3 v (uNegate a)))"

definition emit_fits :: "bool \<Rightarrow> bytes \<Rightarrow> bytes \<Rightarrow> bool" where
  "emit_fits up v a \<longleftrightarrow> \<not> uCmp (if up then emit_value up v a else v) a < 0"

definition emit_amount :: "u64 \<Rightarrow> bytes" where
  "emit_amount val = uAssignOrdinal (replicate 16 0) (if 0 \<le> sint val then val else 0 - val)"

definition emit_lock :: "bool \<Rightarrow> u64 \<Rightarrow> Bic \<Rightarrow> (u64 \<times> Bic) option" where
  "emit_lock flip h bic =
     (if flip then
        (if m_Fwd bic then Some (m_Height bic, bic_Ser (PortionLock h) bic)
         else case bic_Der bic of Some (PortionLock h, bic) \<Rightarrow> Some (h, bic) | _ \<Rightarrow> None)
      else Some (h, bic))"

definition emit_store ::
  "('h \<Rightarrow> 'h \<Rightarrow> 'h) \<Rightarrow> (nat \<Rightarrow> AssetInfo \<Rightarrow> 'h) \<Rightarrow> nat \<Rightarrow> AssetInfo \<Rightarrow> bool \<Rightarrow> 'h AssetDb \<Rightarrow> 'h AssetDb" where
  "emit_store f gh aid ai bSkip db =
     (let d = db\<lparr>db_Assets := (db_Assets db)(aid \<mapsto> ai)\<rparr>
      in if bSkip then d else d\<lparr>db_Mmr := stream_Replace f (db_Mmr d) (aid - 1) (gh aid ai)\<rparr>)"

lemma HandleAssetEmit_eq:
  assumes "db_Assets db aid = Some ai"
  shows "HandleAssetEmit f z gh owner aid val bic db =
    (let up = (0 \<le> sint val \<longleftrightarrow> m_Fwd bic); w = emit_value up (ai_Value ai) (emit_amount val)
     in if m_Fwd bic \<and> \<not> m_AlreadyValidated bic \<and> ai_Owner ai \<noteq> owner \<or> \<not> emit_fits up (ai_Value ai) (emit_amount val)
        then Some (False, bic, db)
        else emit_lock (memis0 w \<noteq> memis0 (ai_Value ai)) (ai_LockHeight ai) bic \<bind> (\<lambda>(h, bic).
          Some (True, bic, emit_store f gh aid (ai\<lparr>ai_Value := w, ai_LockHeight := h\<rparr>) (m_SkipDefinition bic) db)))"
  using assms
  by (cases "m_Fwd bic"; cases "0 \<le> sint val")
    (simp_all add: HandleAssetEmit_def AssetSetValue_def emit_value_def emit_fits_def emit_amount_def emit_lock_def
      emit_store_def Let_def cong: if_cong)

lemma amount_emit_value [simp]: "amount16 (emit_value up v a) \<longleftrightarrow> amount16 v"
  by (simp add: emit_value_def)

lemma emit_value_back:
  assumes "amount16 v" and "amount16 a" and "emit_fits up v a"
  shows "emit_value (\<not> up) (emit_value up v a) a = v" "emit_fits (\<not> up) (emit_value up v a) a"
proof -
  show "emit_value (\<not> up) (emit_value up v a) a = v"
    using assms amount_add_back [of v a] amount_sub_back [of v a]
    by (cases up) (simp_all add: emit_value_def emit_fits_def)
  then show "emit_fits (\<not> up) (emit_value up v a) a"
    using assms(3) by (cases up) (simp_all add: emit_fits_def)
qed

lemma emit_store_sel [simp]:
  "db_Assets (emit_store f gh aid ai b db) = (db_Assets db)(aid \<mapsto> ai)" "db_Empty (emit_store f gh aid ai b db) = db_Empty db"
  "db_Count (emit_store f gh aid ai b db) = db_Count db" "db_Used (emit_store f gh aid ai b db) = db_Used db"
  by (simp_all add: emit_store_def Let_def)

lemma emit_store_ok:
  assumes "assets_ok db" and "db_Assets db aid = Some ai0"
  shows "assets_ok (emit_store f gh aid ai b db)"
proof -
  have "holes ((db_Assets db)(aid \<mapsto> ai)) n = holes (db_Assets db) n" for n
    unfolding holes_def using assms(2) by (intro filter_cong) auto
  moreover have "dom ((db_Assets db)(aid \<mapsto> ai)) = dom (db_Assets db)" using assms(2) by auto
  moreover have "((db_Assets db)(aid \<mapsto> ai)) n = None \<longleftrightarrow> db_Assets db n = None" for n using assms(2) by simp
  ultimately show ?thesis
    using assms(1) unfolding assets_ok_def emit_store_sel by simp
qed

lemma Emit_roundtrip:
  fixes db :: "'h AssetDb"
  assumes ap: "applying bic" and ok: "assets_ok db" and v: "values_ok db"
    and h: "HandleKernelAsset f z gh (TxKernelAssetEmit owner aid val) bic db = Some (True, bic', db')"
  shows "assets_ok db'" "values_ok db'" "db_Count db' \<le> db_Count db + 1" "applying bic'"
    "\<exists>ps. m_Rollback bic' = ps @ m_Rollback bic \<and> undone f z gh (TxKernelAssetEmit owner aid val) ps db' db"
proof -
  obtain ai where ai: "db_Assets db aid = Some ai"
    using h by (auto simp: HandleAssetEmit_def split: option.splits)
  have va: "amount16 (ai_Value ai)" by (rule values_okD [OF v ai])
  have am: "amount16 (emit_amount val)" by (simp add: emit_amount_def amount_of_u64)
  let ?up = "0 \<le> sint val"
  define w where "w = emit_value ?up (ai_Value ai) (emit_amount val)"
  define flip where "flip = (memis0 w \<noteq> memis0 (ai_Value ai))"
  define l where "l = (if flip then m_Height bic else ai_LockHeight ai)"
  let ?p = "if flip then [PortionLock (ai_LockHeight ai)] else []"
  let ?ai = "ai\<lparr>ai_Value := w, ai_LockHeight := l\<rparr>"
  have fwd: "m_Fwd bic" "\<not> m_AlreadyValidated bic" using ap by (simp_all add: applying_def)
  have fits: "emit_fits ?up (ai_Value ai) (emit_amount val)"
    and db': "db' = emit_store f gh aid ?ai (m_SkipDefinition bic) db"
    and b': "bic' = (if flip then bic_Ser (PortionLock (ai_LockHeight ai)) bic else bic)"
    using h fwd by (auto simp: HandleAssetEmit_eq [OF ai] Let_def w_def [symmetric] flip_def emit_lock_def
        l_def bic_Ser_def split: if_splits)
  have A: "db_Assets db' = (db_Assets db)(aid \<mapsto> ?ai)" by (simp add: db')
  show "assets_ok db'" unfolding db' by (rule emit_store_ok [OF ok ai])
  show "values_ok db'" by (rule values_ok_upd [OF v A]) (use va in \<open>simp add: w_def\<close>)
  show "db_Count db' \<le> db_Count db + 1" "applying bic'"
    using ap by (simp_all add: db' b' applying_def bic_Ser_def)
  have "undone f z gh (TxKernelAssetEmit owner aid val) ?p db' db"
    unfolding undone_def
  proof (intro allI impI)
    fix b :: Bic and x :: "'h AssetDb" and r
    assume b: "\<not> m_Fwd b" "m_Rollback b = ?p @ r" and x: "assets_ok x" "db_Assets x = db_Assets db'"
    have xa: "db_Assets x aid = Some ?ai" by (simp add: x(2) A)
    let ?b2 = "b\<lparr>m_Rollback := r\<rparr>"
    let ?d2 = "emit_store f gh aid ai (m_SkipDefinition b) x"
    note bk = emit_value_back [OF va am fits, folded w_def]
    have "emit_lock (memis0 (ai_Value ai) \<noteq> memis0 w) l b = Some (ai_LockHeight ai, ?b2)"
      using b by (auto simp: emit_lock_def bic_Der_def flip_def l_def)
    then have "HandleKernelAsset f z gh (TxKernelAssetEmit owner aid val) b x = Some (True, ?b2, ?d2)"
      using b(1) bk by (simp add: HandleAssetEmit_eq [OF xa] Let_def)
    moreover have "db_Assets ?d2 = db_Assets db"
      using ai by (simp add: x(2) A fun_upd_idem)
    ultimately show "\<exists>bic2 d2. HandleKernelAsset f z gh (TxKernelAssetEmit owner aid val) b x = Some (True, bic2, d2) \<and>
        \<not> m_Fwd bic2 \<and> m_Rollback bic2 = r \<and> assets_ok d2 \<and> db_Assets d2 = db_Assets db"
      using b(1) emit_store_ok [OF x(1) xa] by simp
  qed
  then show "\<exists>ps. m_Rollback bic' = ps @ m_Rollback bic \<and> undone f z gh (TxKernelAssetEmit owner aid val) ps db' db"
    using b' by (intro exI [of _ ?p]) (simp add: bic_Ser_def)
qed

lemmas kernel_roundtrips = Create_roundtrip Destroy_roundtrip Emit_roundtrip

lemma Kernel_roundtrip:
  fixes db :: "'h AssetDb"
  assumes "applying bic" and "assets_ok db" and "values_ok db" and "db_Count db + 1 < s_MaxCount"
    and "HandleKernelAsset f z gh k bic db = Some (True, bic', db')"
  shows "assets_ok db'" "values_ok db'" "db_Count db' \<le> db_Count db + 1" "applying bic'"
    "\<exists>ps. m_Rollback bic' = ps @ m_Rollback bic \<and> undone f z gh k ps db' db"
  using assms by (cases k; blast intro: kernel_roundtrips)+

lemma HandleKernels_append:
  "HandleKernels f z gh (ks @ ls) bic db =
     HandleKernels f z gh ks bic db \<bind> (\<lambda>(b, bic, db). if b then HandleKernels f z gh ls bic db else Some (False, bic, db))"
proof (induction ks arbitrary: bic db)
  case (Cons k ks)
  then show ?case by (cases "HandleKernelAsset f z gh k bic db") (auto split: prod.splits)
qed simp

lemma HandleKernels_roundtrip:
  fixes db :: "'h AssetDb"
  assumes "applying bic" and "assets_ok db" and "values_ok db" and "db_Count db + length ks < s_MaxCount - 1"
    and "HandleKernels f z gh ks bic db = Some (True, bic', db')"
  shows "assets_ok db' \<and> (\<exists>ps. m_Rollback bic' = ps @ m_Rollback bic \<and>
    (\<forall>bicB x r. \<not> m_Fwd bicB \<longrightarrow> m_Rollback bicB = ps @ r \<longrightarrow> assets_ok x \<longrightarrow> db_Assets x = db_Assets db' \<longrightarrow>
       (\<exists>bic2 d2. HandleKernels f z gh (rev ks) bicB x = Some (True, bic2, d2) \<and> \<not> m_Fwd bic2 \<and>
          m_Rollback bic2 = r \<and> assets_ok d2 \<and> db_Assets d2 = db_Assets db)))"
  using assms
proof (induction ks arbitrary: bic db)
  case Nil
  then show ?case by auto
next
  case (Cons k ks)
  from Cons.prems(5) obtain bic1 db1 where 1: "HandleKernelAsset f z gh k bic db = Some (True, bic1, db1)"
    "HandleKernels f z gh ks bic1 db1 = Some (True, bic', db')"
    by (cases "HandleKernelAsset f z gh k bic db") (auto split: prod.splits if_splits)
  have "db_Count db + 1 < s_MaxCount" using Cons.prems(4) by simp
  note r = Kernel_roundtrip [OF Cons.prems(1-3) this 1(1)]
  obtain p where p: "m_Rollback bic1 = p @ m_Rollback bic" "undone f z gh k p db1 db" using r(5) by blast
  have "db_Count db1 + length ks < s_MaxCount - 1" using r(3) Cons.prems(4) by simp
  from Cons.IH [OF r(4,1,2) this 1(2)] obtain ps where ps: "assets_ok db'" "m_Rollback bic' = ps @ m_Rollback bic1"
    "\<And>bicB x r. \<not> m_Fwd bicB \<Longrightarrow> m_Rollback bicB = ps @ r \<Longrightarrow> assets_ok x \<Longrightarrow> db_Assets x = db_Assets db' \<Longrightarrow>
       \<exists>bic2 d2. HandleKernels f z gh (rev ks) bicB x = Some (True, bic2, d2) \<and> \<not> m_Fwd bic2 \<and>
          m_Rollback bic2 = r \<and> assets_ok d2 \<and> db_Assets d2 = db_Assets db1"
    by blast
  have "\<exists>bic2 d2. HandleKernels f z gh (rev (k # ks)) bicB x = Some (True, bic2, d2) \<and> \<not> m_Fwd bic2 \<and>
      m_Rollback bic2 = r \<and> assets_ok d2 \<and> db_Assets d2 = db_Assets db"
    if a: "\<not> m_Fwd bicB" "m_Rollback bicB = (ps @ p) @ r" "assets_ok x" "db_Assets x = db_Assets db'" for bicB x r
  proof -
    obtain b2 d2 where 2: "HandleKernels f z gh (rev ks) bicB x = Some (True, b2, d2)" "\<not> m_Fwd b2"
      "m_Rollback b2 = p @ r" "assets_ok d2" "db_Assets d2 = db_Assets db1"
      using ps(3) [of bicB "p @ r" x] a by auto
    then obtain b3 d3 where "HandleKernelAsset f z gh k b2 d2 = Some (True, b3, d3)" "\<not> m_Fwd b3" "m_Rollback b3 = r"
      "assets_ok d3" "db_Assets d3 = db_Assets db"
      using p(2) unfolding undone_def by blast
    then show ?thesis using 2(1) by (simp add: HandleKernels_append)
  qed
  then show ?case using ps(1,2) p(1) by (intro conjI exI [of _ "ps @ p"]) auto
qed

text \<open>A node with no assets, and a context that applies a block at a given height.\<close>

definition no_assets :: "'h \<Rightarrow> 'h AssetDb" where
  "no_assets z = \<lparr>db_Assets = Map.empty, db_Empty = [], db_Count = 0, db_Used = 0,
     db_Mmr = \<lparr>m_Count = 0, m_Store = (\<lambda>i. z)\<rparr>\<rparr>"

definition bic_init :: "bool \<Rightarrow> u64 \<Rightarrow> Portion list \<Rightarrow> Bic" where
  "bic_init bFwd h ps = \<lparr>m_Fwd = bFwd, m_AlreadyValidated = False, m_SkipDefinition = False, m_Height = h,
     m_AssetsUsed = s_MaxCount + 1, m_Rollback = ps\<rparr>"

lemma memis0_zero: "memis0 (replicate n 0)"
  by (simp add: memis0_be_val)

lemmas asset_eval = HandleAssetCreate_def HandleAssetDestroy_def InternalAssetAdd_def InternalAssetDel_def
  AssetAdd_def AssetDelete_def AssetInsertRaw_def AssetDeleteRaw_def AssetFindMinFree_def AssetFindByOwner_def
  EnsureAssetsUsed_def bic_Ser_def bic_Der_def no_assets_def bic_init_def s_MaxCount_def s_AssetEmpty0_def
  LockPeriod_def memis0_zero Let_def

lemma no_assets_ok: "assets_ok (no_assets z)" "values_ok (no_assets z)"
  by (simp_all add: assets_ok_def values_ok_def no_assets_def holes_def s_MaxCount_def)

lemma two_created:
  "\<exists>b d. HandleKernels f z gh [TxKernelAssetCreate 7 [1], TxKernelAssetCreate 8 [2]] (bic_init True 10 []) (no_assets z) =
     Some (True, b, d)"
  by (simp add: asset_eval)

text \<open>C4: Rolling back a block restores the asset table exactly.  When a sequence of asset kernels has been validated
  and applied to a table whose free rows are the unused indices below the count, then handling the same kernels in
  the reverse order with the saved rollback data never throws, consumes the rollback data, and brings back the
  assets, the free rows, the count and the number of assets in use.\<close>

theorem rollback_restores_assets:
  assumes "assets_ok db" and "values_ok db" and "db_Count db + length ks < s_MaxCount - 1"
    and "m_Fwd bic" and "\<not> m_AlreadyValidated bic"
    and "HandleKernels f z gh ks bic db = Some (True, bic', db')"
    and "\<not> m_Fwd bicB" and "m_Rollback bicB = m_Rollback bic'"
  shows "\<exists>bic2 db2. HandleKernels f z gh (rev ks) bicB db' = Some (True, bic2, db2) \<and>
    m_Rollback bic2 = m_Rollback bic \<and> db_Assets db2 = db_Assets db \<and> db_Empty db2 = db_Empty db \<and>
    db_Count db2 = db_Count db \<and> db_Used db2 = db_Used db"
proof -
  have "applying bic" using assms(4,5) by (simp add: applying_def)
  from HandleKernels_roundtrip [OF this assms(1-3,6)] obtain bic2 db2
    where "HandleKernels f z gh (rev ks) bicB db' = Some (True, bic2, db2)" "m_Rollback bic2 = m_Rollback bic"
      "assets_ok db2" "db_Assets db2 = db_Assets db"
    using assms(7,8) by metis
  then show ?thesis using assets_ok_unique [OF assms(1), of db2] by simp
qed

theorem rollback_restores_assets_witness:
  "\<exists>b d b2 d2. HandleKernels (\<lambda>x y. 2 * x + 3 * y + 1) (0 :: nat) (\<lambda>i ai. i) [TxKernelAssetCreate 7 [1], TxKernelAssetCreate 8 [2]] (bic_init True 10 []) (no_assets 0) =
      Some (True, b, d) \<and>
    HandleKernels (\<lambda>x y. 2 * x + 3 * y + 1) (0 :: nat) (\<lambda>i ai. i) [TxKernelAssetCreate 8 [2], TxKernelAssetCreate 7 [1]] (bic_init False 10 (m_Rollback b)) d =
      Some (True, b2, d2) \<and>
    m_Rollback b2 = [] \<and> db_Assets d2 = Map.empty \<and> db_Count d2 = 0"
proof -
  obtain b d where 1: "HandleKernels (\<lambda>x y. 2 * x + 3 * y + 1) (0 :: nat) (\<lambda>i ai. i) [TxKernelAssetCreate 7 [1], TxKernelAssetCreate 8 [2]] (bic_init True 10 [])
      (no_assets 0) = Some (True, b, d)"
    using two_created [of "\<lambda>x y. 2 * x + 3 * y + 1" "0 :: nat" "\<lambda>i ai. i"] by blast
  have b: "m_Fwd (bic_init True 10 [])" "\<not> m_AlreadyValidated (bic_init True 10 [])" "\<not> m_Fwd (bic_init False 10 (m_Rollback b))"
    "m_Rollback (bic_init False 10 (m_Rollback b)) = m_Rollback b" "m_Rollback (bic_init True 10 []) = []"
    by (simp_all add: bic_init_def)
  have c: "db_Count (no_assets (0 :: nat)) + length [TxKernelAssetCreate 7 [1], TxKernelAssetCreate 8 [2]] < s_MaxCount - 1"
    "db_Assets (no_assets (0 :: nat)) = Map.empty" "db_Count (no_assets (0 :: nat)) = 0"
    by (simp_all add: no_assets_def s_MaxCount_def)
  from rollback_restores_assets [OF no_assets_ok c(1) b(1,2) 1 b(3,4)] 1 show ?thesis
    unfolding b(5) c(2,3) by auto
qed

end
