(* ===== verification/Node_Asset_Tree.thy ===== *)
theory Node_Asset_Tree
  imports Node_Rollback
begin

text \<open>
  The Merkle tree over the assets (\<open>m_Mmr.m_Assets\<close>, a \<open>StreamMmr\<close> of \<open>src/node/db.cpp\<close>).  While kernels are only
  applied its root is the root over the assets in the table, with zero at the free indices.  The stream keeps what
  was written above its size, and a rollback that grows the tree over several indices reads it again: the root after
  a rollback can differ from the root before the block.
\<close>

section \<open>The tree over the assets\<close>

definition stream_fits :: "(nat \<Rightarrow> 'h) \<Rightarrow> nat \<Rightarrow> bool" where
  "stream_fits s n \<longleftrightarrow> n < 2 ^ 63"

lemma stream_index:
  assumes "n < 2 ^ 63" and "complete_pos n p"
  shows "flat_Pos2Idx p 0 = node_index (pos_H p) (pos_X p)" "flat_Pos2Idx p 0 < node_total n"
proof -
  have c: "(pos_X p + 1) * 2 ^ pos_H p \<le> n" using assms by (simp add: complete_pos_def)
  show e: "flat_Pos2Idx p 0 = node_index (pos_H p) (pos_X p)"
    using flat_Pos2Idx_eq [OF c assms(1)] by (cases p) simp
  show "flat_Pos2Idx p 0 < node_total n"
    using e node_index_bounds(2) [of "pos_H p" "pos_X p"] node_total_mono [OF c] by simp
qed

interpretation stream: mmr_store stream_LoadElement stream_SaveElement stream_fits
proof unfold_locales
  fix s :: "nat \<Rightarrow> 'b" and n p q hv
  assume a: "stream_fits s n" "complete_pos n p" "complete_pos n q"
  have "flat_Pos2Idx p 0 = flat_Pos2Idx q 0 \<longleftrightarrow> p = q"
    using stream_index(1) [of n p] stream_index(1) [of n q] a node_index_inject
    by (metis Position.equality stream_fits_def unit.exhaust)
  then show "stream_LoadElement (stream_SaveElement s hv p) q = (if p = q then hv else stream_LoadElement s q)"
    by (auto simp: stream_LoadElement_def stream_SaveElement_def)
qed (simp_all add: stream_fits_def)

text \<open>Resizing does not touch what is stored below the old size; shrinking touches nothing.\<close>

lemma StreamResize_below:
  assumes "i < n0"
  shows "StreamResize z n (n0 * 32) s i = s i"
proof -
  have "i * 32 < n0 * 32" using assms by simp
  also have "n0 * 32 \<le> (n0 * 32 + s_StreamBlob - 1) div s_StreamBlob * s_StreamBlob"
  proof -
    have "n0 * 32 + s_StreamBlob - 1 < s_StreamBlob + (n0 * 32 + s_StreamBlob - 1) div s_StreamBlob * s_StreamBlob"
      by (rule dividend_less_div_times) (simp add: s_StreamBlob_def)
    then show ?thesis by (simp add: s_StreamBlob_def)
  qed
  finally have "i * 32 div s_StreamBlob < (n0 * 32 + s_StreamBlob - 1) div s_StreamBlob"
    by (rule less_mult_imp_div_less)
  then show ?thesis by (simp add: StreamResize_def Let_def)
qed

lemma StreamResize_shrink: "n \<le> n0 \<Longrightarrow> StreamResize z n n0 s = s"
proof -
  assume "n \<le> n0"
  then have "(n + s_StreamBlob - 1) div s_StreamBlob \<le> (n0 + s_StreamBlob - 1) div s_StreamBlob"
    by (intro div_le_mono) simp
  then show ?thesis unfolding StreamResize_def Let_def by (intro ext) auto
qed

definition asset_leaves :: "'h \<Rightarrow> (nat \<Rightarrow> AssetInfo \<Rightarrow> 'h) \<Rightarrow> 'h AssetDb \<Rightarrow> 'h list" where
  "asset_leaves z gh db =
     map (\<lambda>i. case db_Assets db i of None \<Rightarrow> z | Some ai \<Rightarrow> gh i ai) [1..<Suc (db_Count db)]"

lemma length_asset_leaves [simp]: "length (asset_leaves z gh db) = db_Count db"
  by (simp add: asset_leaves_def)

lemma nth_asset_leaves:
  "i < db_Count db \<Longrightarrow> asset_leaves z gh db ! i = (case db_Assets db (Suc i) of None \<Rightarrow> z | Some ai \<Rightarrow> gh (Suc i) ai)"
  by (simp add: asset_leaves_def del: upt_Suc split: option.splits)

definition tree_ok :: "('h \<Rightarrow> 'h \<Rightarrow> 'h) \<Rightarrow> 'h \<Rightarrow> (nat \<Rightarrow> AssetInfo \<Rightarrow> 'h) \<Rightarrow> 'h AssetDb \<Rightarrow> bool" where
  "tree_ok f z gh db \<longleftrightarrow>
     m_Count (db_Mmr db) = db_Count db \<and> holds_tree f z stream_LoadElement (m_Store (db_Mmr db)) (asset_leaves z gh db)"

lemma s_MaxCount_less: "n \<le> s_MaxCount \<Longrightarrow> n < 2 ^ 63"
  by (simp add: s_MaxCount_def)

lemma tree_ok_root:
  assumes "tree_ok f z gh db" and "db_Count db \<le> s_MaxCount"
  shows "stream_get_Hash f z (db_Mmr db) = mth f z (asset_leaves z gh db)"
  using store.get_Hash_correct [of f z stream_LoadElement "m_Store (db_Mmr db)" "asset_leaves z gh db"] assms s_MaxCount_less
  by (simp add: tree_ok_def stream_get_Hash_def store_represents_def)

lemma stream_Append:
  assumes "holds_tree f z stream_LoadElement (m_Store m) xs" and "m_Count m = length xs" and "length xs + 1 < 2 ^ 63"
  shows "holds_tree f z stream_LoadElement
      (m_Store (stream_Replace f (stream_ResizeTo z (length xs + 1) m) (length xs) hv)) (xs @ [hv])"
    "m_Count (stream_Replace f (stream_ResizeTo z (length xs + 1) m) (length xs) hv) = length xs + 1"
proof -
  let ?s = "m_Store (stream_ResizeTo z (length xs + 1) m)"
  let ?m = "m\<lparr>m_Store := ?s\<rparr>"
  have "holds_tree f z stream_LoadElement ?s xs"
    unfolding holds_tree_def
  proof (intro allI impI)
    fix h i assume c: "(i + 1) * 2 ^ h \<le> length xs"
    then have "flat_Pos2Idx (pos h i) 0 < node_total (length xs)"
      using assms(3) by (intro stream_index(2)) (simp_all add: complete_pos_def)
    then have "stream_LoadElement ?s (pos h i) = stream_LoadElement (m_Store m) (pos h i)"
      using assms(2,3) by (simp add: stream_LoadElement_def stream_ResizeTo_def flat_get_TotalHashes_eq StreamResize_below)
    then show "stream_LoadElement ?s (pos h i) = node_hash f z xs h i" using assms(1) c by (simp add: holds_tree_def)
  qed
  moreover have "mmr_Append f stream_LoadElement stream_SaveElement ?m hv =
      stream_Replace f (stream_ResizeTo z (length xs + 1) m) (length xs) hv"
    using assms(2,3) by (cases m) (simp add: mmr_Append_def stream_Replace_def stream_ResizeTo_def mmr_Replace_def wrap64_def Let_def)
  ultimately show "holds_tree f z stream_LoadElement
      (m_Store (stream_Replace f (stream_ResizeTo z (length xs + 1) m) (length xs) hv)) (xs @ [hv])"
    "m_Count (stream_Replace f (stream_ResizeTo z (length xs + 1) m) (length xs) hv) = length xs + 1"
    using stream.Append_correct [of f z ?m xs hv] assms(2,3) by (simp_all add: stream_fits_def)
qed

text \<open>Setting one leaf, and cutting the leaves off at the end.\<close>

lemma tree_ok_Replace:
  assumes t: "tree_ok f z gh db" and i: "1 \<le> i" "i \<le> db_Count db" and "db_Count db \<le> s_MaxCount"
    and A: "db_Assets db' = (db_Assets db)(i := v)" "db_Count db' = db_Count db"
    and m: "db_Mmr db' = stream_Replace f (db_Mmr db) (i - 1) (case v of None \<Rightarrow> z | Some ai \<Rightarrow> gh i ai)"
  shows "tree_ok f z gh db'"
proof -
  let ?xs = "asset_leaves z gh db" and ?hv = "case v of None \<Rightarrow> z | Some ai \<Rightarrow> gh i ai"
  have "asset_leaves z gh db' = ?xs[i - 1 := ?hv]"
    using i A by (intro nth_equalityI) (auto simp: nth_asset_leaves nth_list_update)
  then show ?thesis
    using stream.Replace_correct [of f z "db_Mmr db" ?xs "i - 1" ?hv] t i A(2) m s_MaxCount_less [OF assms(4)]
    by (simp add: tree_ok_def stream_Replace_def stream_fits_def)
qed

lemma tree_ok_shrink:
  assumes t: "tree_ok f z gh db" and n: "db_Count db' \<le> db_Count db" and "db_Count db \<le> s_MaxCount"
    and A: "\<And>i. i \<le> db_Count db' \<Longrightarrow> db_Assets db' i = db_Assets db i"
    and m: "db_Mmr db' = stream_ResizeTo z (db_Count db') (db_Mmr db)"
  shows "tree_ok f z gh db'"
proof -
  have e: "asset_leaves z gh db = asset_leaves z gh db' @ drop (db_Count db') (asset_leaves z gh db)"
  proof -
    have "asset_leaves z gh db' = take (db_Count db') (asset_leaves z gh db)"
      using n A by (intro nth_equalityI) (simp_all add: nth_asset_leaves)
    then show ?thesis by simp
  qed
  have "m_Store (db_Mmr db') = m_Store (db_Mmr db)"
    using t n s_MaxCount_less [OF assms(3)] s_MaxCount_less [OF order.trans [OF n assms(3)]]
    by (simp add: m stream_ResizeTo_def tree_ok_def flat_get_TotalHashes_eq StreamResize_shrink node_total_mono)
  moreover have "holds_tree f z stream_LoadElement (m_Store (db_Mmr db)) (asset_leaves z gh db')"
    unfolding holds_tree_def
  proof (intro allI impI)
    fix h i assume "(i + 1) * 2 ^ h \<le> length (asset_leaves z gh db')"
    then show "stream_LoadElement (m_Store (db_Mmr db)) (pos h i) = node_hash f z (asset_leaves z gh db') h i"
      using t n node_hash_append [of i h "asset_leaves z gh db'" f z "drop (db_Count db') (asset_leaves z gh db)"]
      unfolding tree_ok_def holds_tree_def e [symmetric] by simp
  qed
  ultimately show ?thesis by (simp add: tree_ok_def m stream_ResizeTo_def)
qed

lemma InternalAssetDel_tree:
  assumes ok: "assets_ok db" and t: "tree_ok f z gh db" and ai: "db_Assets db i = Some ai"
    and d: "InternalAssetDel f z i True db = Some db'"
  shows "tree_ok f z gh db'"
proof -
  obtain x where x: "InternalAssetDel f z i True db = Some x" "assets_ok x" "db_Assets x = (db_Assets db)(i := None)"
    "db_Count x \<le> db_Count db" "db_Mmr x = (if db_Count x < m_Count (db_Mmr db) then stream_ResizeTo z (db_Count x) (db_Mmr db)
       else stream_Replace f (db_Mmr db) (i - 1) z)"
    by (rule InternalAssetDel_spec [OF ok ai, of f z True]) blast
  have db': "db' = x" using d x(1) by simp
  have c: "m_Count (db_Mmr db) = db_Count db" using t by (simp add: tree_ok_def)
  note i = assets_okD(1) [OF ok ai] and b = assets_okD(5) [OF ok]
  show ?thesis
  proof (cases "db_Count x < db_Count db")
    case True
    have "db_Count x < i"
    proof (rule ccontr)
      assume "\<not> db_Count x < i"
      moreover have "db_Assets x (db_Count db) \<noteq> None"
        using assets_okD(3) [OF ok] True x(3) calculation by auto
      ultimately show False using assets_okD(1) [OF x(2), of "db_Count db"] True by auto
    qed
    then show ?thesis
      unfolding db' using x(3,5) True c b by (intro tree_ok_shrink [OF t x(4)]) auto
  next
    case False
    then have "db_Count x = db_Count db" using x(4) by simp
    then show ?thesis
      unfolding db' using i x(3,5) c b by (intro tree_ok_Replace [OF t, of i x None]) simp_all
  qed
qed

lemma InternalAssetAdd_tree:
  assumes ok: "assets_ok db" and t: "tree_ok f z gh db" and room: "db_Count db + 1 < s_MaxCount"
    and d: "InternalAssetAdd f z gh 0 ai True db = Some (i, db')"
  shows "tree_ok f z gh db'"
proof -
  obtain i' x where x: "InternalAssetAdd f z gh 0 ai True db = Some (i', x)" "assets_ok x" "db_Assets db i' = None"
    "db_Assets x = (db_Assets db)(i' \<mapsto> ai\<lparr>ai_Value := replicate 16 0\<rparr>)" "1 \<le> i'"
    "\<And>j. 1 \<le> j \<Longrightarrow> j < i' \<Longrightarrow> db_Assets db j \<noteq> None" "db_Count x = max (db_Count db) i'"
    "db_Mmr x = stream_Replace f
       (if m_Count (db_Mmr db) < i' then stream_ResizeTo z i' (db_Mmr db) else db_Mmr db) (i' - 1)
       (gh i' (ai\<lparr>ai_Value := replicate 16 0\<rparr>))"
    by (rule InternalAssetAdd_spec [OF ok, of 0 f z gh ai True]) (use room in auto)
  have db': "db' = x" using d x(1) by simp
  have c: "m_Count (db_Mmr db) = db_Count db" using t by (simp add: tree_ok_def)
  show ?thesis
  proof (cases "i' \<le> db_Count db")
    case True
    then show ?thesis
      unfolding db' using x(4,5,7,8) c room
      by (intro tree_ok_Replace [OF t x(5) True _ x(4)]) simp_all
  next
    case False
    then have i: "i' = db_Count db + 1"
      using x(6) [of "db_Count db + 1"] assets_okD(1) [OF ok, of "db_Count db + 1"] by fastforce
    let ?xs = "asset_leaves z gh db"
    have "asset_leaves z gh x = ?xs @ [gh i' (ai\<lparr>ai_Value := replicate 16 0\<rparr>)]"
      using x(4,7) i by (intro nth_equalityI) (auto simp: nth_asset_leaves nth_append less_Suc_eq)
    moreover have "length ?xs + 1 < 2 ^ 63" using s_MaxCount_less [of "db_Count db + 1"] room by simp
    ultimately show ?thesis
      unfolding db' using stream_Append [of f z "db_Mmr db" ?xs] t c i x(7,8) by (simp add: tree_ok_def)
  qed
qed

lemma Kernel_tree:
  assumes ap: "applying bic" "\<not> m_SkipDefinition bic" and ok: "assets_ok db" and t: "tree_ok f z gh db"
    and room: "db_Count db + 1 < s_MaxCount"
    and h: "HandleKernelAsset f z gh k bic db = Some (True, bic', db')"
  shows "tree_ok f z gh db' \<and> \<not> m_SkipDefinition bic'"
proof (cases k)
  case (TxKernelAssetCreate owner md)
  then show ?thesis
    using h ap by (auto simp: HandleAssetCreate_def applying_def bic_Ser_def Let_def split: if_splits bind_splits
        dest!: InternalAssetAdd_tree [OF ok t room])
next
  case (TxKernelAssetDestroy owner aid)
  then show ?thesis
    using h ap by (auto simp: HandleAssetDestroy_def applying_def bic_Ser_def Let_def split: if_splits bind_splits option.splits
        dest: InternalAssetDel_tree [OF ok t])
next
  case (TxKernelAssetEmit owner aid val)
  then obtain ai where ai: "db_Assets db aid = Some ai"
    using h by (auto simp: HandleAssetEmit_def split: option.splits)
  have "\<exists>ai'. db' = emit_store f gh aid ai' False db \<and> \<not> m_SkipDefinition bic'"
    using h ap TxKernelAssetEmit
    by (auto simp: HandleAssetEmit_eq [OF ai] applying_def emit_lock_def bic_Ser_def Let_def split: if_splits)
  then obtain ai' where e: "db' = emit_store f gh aid ai' False db" "\<not> m_SkipDefinition bic'" by blast
  have "tree_ok f z gh db'"
    using assets_okD(1) [OF ok ai] assets_okD(5) [OF ok]
    by (intro tree_ok_Replace [OF t, of aid db' "Some ai'"]) (simp_all add: e emit_store_def Let_def)
  then show ?thesis using e(2) by simp
qed

lemma HandleKernels_tree:
  assumes "applying bic" and "\<not> m_SkipDefinition bic" and "assets_ok db" and "values_ok db" and "tree_ok f z gh db"
    and "db_Count db + length ks < s_MaxCount - 1" and "HandleKernels f z gh ks bic db = Some (True, bic', db')"
  shows "assets_ok db' \<and> values_ok db' \<and> tree_ok f z gh db'"
  using assms
proof (induction ks arbitrary: bic db)
  case (Cons k ks)
  from Cons.prems(7) obtain bic1 db1 where 1: "HandleKernelAsset f z gh k bic db = Some (True, bic1, db1)"
    "HandleKernels f z gh ks bic1 db1 = Some (True, bic', db')"
    by (cases "HandleKernelAsset f z gh k bic db") (auto split: prod.splits if_splits)
  have room: "db_Count db + 1 < s_MaxCount" using Cons.prems(6) by simp
  note r = Kernel_roundtrip [OF Cons.prems(1,3,4) room 1(1)] and s = Kernel_tree [OF Cons.prems(1-3,5) room 1(1)]
  show ?case using r s Cons.prems(6) by (intro Cons.IH [OF r(4) _ r(1,2) _ _ 1(2)]) simp_all
qed simp

text \<open>C5: While blocks are only applied, the asset tree follows the asset table.  From a node whose table is in order
  and whose tree holds the assets (zero at the free indices), applying any accepted sequence of asset kernels leaves
  the table in order, and the root of the tree is the Merkle root over the new list of assets.\<close>

theorem assets_root_after_applying:
  assumes "assets_ok db" and "values_ok db" and "tree_ok f z gh db" and "db_Count db + length ks < s_MaxCount - 1"
    and "m_Fwd bic" and "\<not> m_AlreadyValidated bic" and "\<not> m_SkipDefinition bic"
    and "HandleKernels f z gh ks bic db = Some (True, bic', db')"
  shows "assets_ok db' \<and> tree_ok f z gh db' \<and> stream_get_Hash f z (db_Mmr db') = mth f z (asset_leaves z gh db')"
proof -
  have "assets_ok db' \<and> values_ok db' \<and> tree_ok f z gh db'"
    using assms(5,6) by (intro HandleKernels_tree [OF _ assms(7,1-4,8)]) (simp add: applying_def)
  then show ?thesis using tree_ok_root [of f z gh db'] assets_okD(5) [of db'] by simp
qed

lemma no_assets_tree: "tree_ok f z gh (no_assets z)"
  by (simp add: tree_ok_def no_assets_def asset_leaves_def holds_tree_def)

theorem assets_root_after_applying_witness:
  "\<exists>b d. HandleKernels (\<lambda>x y. 2 * x + 3 * y + 1) (0 :: nat) (\<lambda>i ai. i) [TxKernelAssetCreate 7 [1], TxKernelAssetCreate 8 [2]]
      (bic_init True 10 []) (no_assets 0) = Some (True, b, d) \<and>
    stream_get_Hash (\<lambda>x y. 2 * x + 3 * y + 1) 0 (db_Mmr d) =
      mth (\<lambda>x y. 2 * x + 3 * y + 1) 0 (asset_leaves 0 (\<lambda>i ai. i) d)"
proof -
  obtain b d where 1: "HandleKernels (\<lambda>x y. 2 * x + 3 * y + 1) (0 :: nat) (\<lambda>i ai. i)
      [TxKernelAssetCreate 7 [1], TxKernelAssetCreate 8 [2]] (bic_init True 10 []) (no_assets 0) = Some (True, b, d)"
    using two_created [of "\<lambda>x y. 2 * x + 3 * y + 1" "0 :: nat" "\<lambda>i ai. i"] by blast
  have "m_Fwd (bic_init True 10 [])" "\<not> m_AlreadyValidated (bic_init True 10 [])" "\<not> m_SkipDefinition (bic_init True 10 [])"
    by (simp_all add: bic_init_def)
  from assets_root_after_applying [OF no_assets_ok no_assets_tree _ this 1] 1 show ?thesis
    by (auto simp: no_assets_def s_MaxCount_def)
qed

text \<open>The stream while the tree has at most three leaves.\<close>

lemma Mmr_count [simp]: "m_Count (stream_Replace f m i hv) = m_Count m" "m_Count (stream_ResizeTo z n m) = n"
  by (simp_all add: stream_Replace_def mmr_Replace_def stream_ResizeTo_def)

lemma resize_small:
  assumes "0 < n0" and "n \<le> s_StreamBlob"
  shows "StreamResize z n n0 s = s"
proof
  fix i
  have p: "0 < s_StreamBlob" by (simp add: s_StreamBlob_def)
  have "n + s_StreamBlob - 1 < 2 * s_StreamBlob" using assms(2) p by linarith
  then have "(n + s_StreamBlob - 1) div s_StreamBlob < 2" by (rule less_mult_imp_div_less)
  moreover have "s_StreamBlob \<le> n0 + s_StreamBlob - 1" using assms(1) by linarith
  then have "0 < (n0 + s_StreamBlob - 1) div s_StreamBlob" using p by (simp only: div_greater_zero_iff)
  ultimately have "\<not> ((n0 + s_StreamBlob - 1) div s_StreamBlob \<le> i * 32 div s_StreamBlob \<and>
      i * 32 div s_StreamBlob < (n + s_StreamBlob - 1) div s_StreamBlob)" by linarith
  then show "StreamResize z n n0 s i = s i" by (simp only: StreamResize_def Let_def if_False)
qed

lemma resize_zero: "StreamResize z n n0 (\<lambda>i. z) = (\<lambda>i. z)"
  by (simp add: StreamResize_def Let_def)

lemma total_small: "flat_get_TotalHashes 0 0 = 0" "flat_get_TotalHashes 1 0 = 1" "flat_get_TotalHashes 2 0 = 3" "flat_get_TotalHashes 3 0 = 4"
  by (simp_all add: flat_get_TotalHashes_def flat_Total_loop.simps wrap64_def)

lemma index_small: "flat_Pos2Idx (pos 0 0) 0 = 0" "flat_Pos2Idx (pos 0 1) 0 = 1" "flat_Pos2Idx (pos 1 0) 0 = 2" "flat_Pos2Idx (pos 0 2) 0 = 3"
  by (simp_all add: flat_Pos2Idx_def flat_sum.simps u64_sub_def wrap64_def)

lemma replace_small:
  "stream_Replace f \<lparr>m_Count = 1, m_Store = s\<rparr> 0 hv = \<lparr>m_Count = 1, m_Store = s(0 := hv)\<rparr>"
  "stream_Replace f \<lparr>m_Count = 2, m_Store = s\<rparr> 1 hv = \<lparr>m_Count = 2, m_Store = s(1 := hv, 2 := f (s 0) hv)\<rparr>"
  "stream_Replace f \<lparr>m_Count = 3, m_Store = s\<rparr> 1 hv = \<lparr>m_Count = 3, m_Store = s(1 := hv, 2 := f (s 0) hv)\<rparr>"
  "stream_Replace f \<lparr>m_Count = 3, m_Store = s\<rparr> 2 hv = \<lparr>m_Count = 3, m_Store = s(3 := hv)\<rparr>"
  by (simp_all add: stream_Replace_def mmr_Replace_def mmr_Replace_loop.simps stream_LoadElement_def stream_SaveElement_def
     index_small [simplified] Let_def interpret_side_def)

lemma root_small: "stream_get_Hash f z \<lparr>m_Count = 3, m_Store = s\<rparr> = f (s 2) (s 3)"
  by (simp add: stream_get_Hash_def mmr_get_Hash_def mmr_get_HashForRange_def mmr_HashForRange_loop.simps stream_LoadElement_def
     index_small [simplified] interpret_side_def wrap64_def Let_def)
lemma resize_steps:
  "stream_ResizeTo z (Suc 0) \<lparr>m_Count = 0, m_Store = (\<lambda>i. z)\<rparr> = \<lparr>m_Count = Suc 0, m_Store = (\<lambda>i. z)\<rparr>"
  "stream_ResizeTo z (Suc (Suc 0)) \<lparr>m_Count = Suc 0, m_Store = s\<rparr> = \<lparr>m_Count = Suc (Suc 0), m_Store = s\<rparr>"
  "stream_ResizeTo z (Suc (Suc (Suc 0))) \<lparr>m_Count = Suc 0, m_Store = s\<rparr> = \<lparr>m_Count = Suc (Suc (Suc 0)), m_Store = s\<rparr>"
  "stream_ResizeTo z (Suc (Suc (Suc 0))) \<lparr>m_Count = Suc (Suc 0), m_Store = s\<rparr> = \<lparr>m_Count = Suc (Suc (Suc 0)), m_Store = s\<rparr>"
  "stream_ResizeTo z (Suc 0) \<lparr>m_Count = Suc (Suc 0), m_Store = s\<rparr> = \<lparr>m_Count = Suc 0, m_Store = s\<rparr>"
  "stream_ResizeTo z (Suc 0) \<lparr>m_Count = Suc (Suc (Suc 0)), m_Store = s\<rparr> = \<lparr>m_Count = Suc 0, m_Store = s\<rparr>"
  by (simp_all add: stream_ResizeTo_def resize_zero resize_small s_StreamBlob_def
      total_small [unfolded One_nat_def numeral_2_eq_2 numeral_3_eq_3])

text \<open>A chain of four blocks of asset kernels at increasing heights, of which the last two are then rolled back.  The
  states after blocks 2 and 4 and after the rollback.\<close>

definition reorg_run ::
  "('h \<Rightarrow> 'h \<Rightarrow> 'h) \<Rightarrow> 'h \<Rightarrow> (nat \<Rightarrow> AssetInfo \<Rightarrow> 'h) \<Rightarrow>
   AssetKernel list \<Rightarrow> AssetKernel list \<Rightarrow> AssetKernel list \<Rightarrow> AssetKernel list \<Rightarrow>
   (bool \<times> 'h AssetDb \<times> 'h AssetDb \<times> 'h AssetDb) option" where
  "reorg_run f z gh ks1 ks2 ks3 ks4 = do {
     (r1, b1, d1) \<leftarrow> HandleKernels f z gh ks1 (bic_init True 10 []) (no_assets z);
     (r2, b2, d2) \<leftarrow> HandleKernels f z gh ks2 (bic_init True 2000 []) d1;
     (r3, b3, d3) \<leftarrow> HandleKernels f z gh ks3 (bic_init True 2001 []) d2;
     (r4, b4, d4) \<leftarrow> HandleKernels f z gh ks4 (bic_init True 2002 []) d3;
     (r5, b5, d5) \<leftarrow> HandleKernels f z gh (rev ks4) (bic_init False 2002 (m_Rollback b4)) d4;
     (r6, b6, d6) \<leftarrow> HandleKernels f z gh (rev ks3) (bic_init False 2001 (m_Rollback b3)) d5;
     Some (r1 \<and> r2 \<and> r3 \<and> r4 \<and> r5 \<and> r6, d2, d4, d6)
   }"

lemmas small_numerals = One_nat_def numeral_2_eq_2 numeral_3_eq_3

lemma reorg_states:
  "\<exists>d2 d4 d6 a1 a3 a4.
     reorg_run f z gh [TxKernelAssetCreate 1 [1], TxKernelAssetCreate 2 [2], TxKernelAssetCreate 3 [3]]
       [TxKernelAssetDestroy 2 (Suc (Suc 0))] [TxKernelAssetDestroy 3 (Suc (Suc (Suc 0)))] [TxKernelAssetCreate 4 [4]] =
       Some (True, d2, d4, d6) \<and>
     db_Assets d6 = db_Assets d2 \<and> db_Empty d6 = db_Empty d2 \<and> db_Count d6 = db_Count d2 \<and> db_Used d6 = db_Used d2 \<and>
     db_Assets d2 (Suc 0) = Some a1 \<and> db_Assets d2 (Suc (Suc 0)) = None \<and> db_Assets d2 (Suc (Suc (Suc 0))) = Some a3 \<and>
     db_Assets d4 (Suc (Suc 0)) = Some a4 \<and>
     stream_get_Hash f z (db_Mmr d2) = f (f (gh (Suc 0) a1) z) (gh (Suc (Suc (Suc 0))) a3) \<and>
     stream_get_Hash f z (db_Mmr d6) = f (f (gh (Suc 0) a1) (gh (Suc (Suc 0)) a4)) (gh (Suc (Suc (Suc 0))) a3)"
  by (simp add: reorg_run_def asset_eval resize_steps replace_small [unfolded small_numerals]
      root_small [unfolded small_numerals])


end
