(* ===== verification/Bvm_Host.thy ===== *)
theory Bvm_Host
  imports Amount_Big "HOL-Library.Monad_Syntax" Shader_Float
begin

text \<open>
  What the contract processor (\<open>src/bvm/bvm2.cpp\<close>) offers to a contract: locking and unlocking funds, requiring a
  signature, references between contracts and the chain of callers.  The state is the part of
  \<open>ProcessorContract\<close> a contract can observe while a transaction is validated; a halt (\<open>Env::Halt\<close>, a failed
  \<open>Wasm::Test\<close>) is \<open>None\<close> and reverts the whole call.  Execution units are not modelled.

  The locale \<open>funds\<close> is what a contract relies on when it moves funds; \<open>ledger\<close> adds accounts kept by the contract
  and shows, once for every contract of this kind, that the funds always cover the accounts.
\<close>

section \<open>State and operations\<close>

type_synonym ContractID = "256 word"
type_synonym AssetID = u32
type_synonym Amount = u64
type_synonym Height = u64

record PubKey =
  m_X :: "256 word"
  m_Y :: u8

text \<open>The frames of \<open>m_FarCalls\<close> (innermost first), the height, the import of a point of the curve that rejects
  invalid points and zero (a parameter), the keys that must sign, the funds the transaction gives and takes, and the
  contract variables the processor keeps itself: locked amounts, references and the code.  An absent variable is the
  empty list.\<close>

record Host =
  h_Calls :: "ContractID list"
  h_Height :: Height
  h_ImportNnz :: "PubKey \<Rightarrow> bool"
  h_Sigs :: "PubKey list"
  h_FundsIO :: "AssetID \<rightharpoonup> bytes"
  h_Locked :: "ContractID \<Rightarrow> AssetID \<Rightarrow> bytes"
  h_Refs :: "ContractID \<Rightarrow> ContractID \<Rightarrow> bytes"
  h_RefsTotal :: "ContractID \<Rightarrow> bytes"
  h_Code :: "ContractID \<Rightarrow> bytes"

definition Halt_if :: "bool \<Rightarrow> unit option" where
  "Halt_if b = (if b then None else Some ())"

definition LoadFixedOrZero :: "nat \<Rightarrow> bytes \<Rightarrow> bool \<times> bytes" where
  "LoadFixedOrZero n res = (if n = length res then (True, res) else (False, replicate n 0))"

definition SaveNnz :: "bytes \<Rightarrow> bytes" where
  "SaveNnz v = (if memis0 v then [] else v)"

definition HandleAmountInner :: "Amount \<Rightarrow> AssetID \<Rightarrow> bool \<Rightarrow> ('m) Host_scheme \<Rightarrow> 'm Host_scheme option" where
  "HandleAmountInner amount aid bLock h =
     (case h_Calls h of
        [] \<Rightarrow> None
      | cid # _ \<Rightarrow>
          (let val0 = snd (LoadFixedOrZero 16 (h_Locked h cid aid));
               val = uAssignOrdinal (replicate 8 0) amount;
               save = (\<lambda>v. h\<lparr>h_Locked := (h_Locked h)(cid := (h_Locked h cid)(aid := SaveNnz v))\<rparr>)
           in if bLock then
                (let v = snd (uInc3 val0 val) in if uCmp v val < 0 then None else Some (save v))
              else if uCmp val0 val < 0 then None
              else Some (save (uNegate (snd (uInc3 (uNegate val0) val))))))"

text \<open>\<open>FundsChangeMap::Add\<close> (\<open>src/core/block_crypt.cpp\<close>).\<close>

definition FundsChangeMap_AddBig :: "bytes \<Rightarrow> AssetID \<Rightarrow> (AssetID \<rightharpoonup> bytes) \<Rightarrow> (AssetID \<rightharpoonup> bytes)" where
  "FundsChangeMap_AddBig valBig aid io =
     (case io aid of
        None \<Rightarrow> io(aid \<mapsto> valBig)
      | Some dst \<Rightarrow>
          (let dst1 = snd (uInc3 dst valBig) in if memis0 dst1 then io(aid := None) else io(aid \<mapsto> dst1)))"

definition FundsChangeMap_Add :: "Amount \<Rightarrow> AssetID \<Rightarrow> bool \<Rightarrow> (AssetID \<rightharpoonup> bytes) \<Rightarrow> (AssetID \<rightharpoonup> bytes)" where
  "FundsChangeMap_Add val aid bSpend io =
     (if val = 0 then io
      else
        (let valBig = uAssignOrdinal (replicate 16 0) val
         in FundsChangeMap_AddBig (if bSpend then uNegate valBig else valBig) aid io))"

definition HandleAmountOuter :: "Amount \<Rightarrow> AssetID \<Rightarrow> bool \<Rightarrow> 'm Host_scheme \<Rightarrow> 'm Host_scheme" where
  "HandleAmountOuter amount aid bLock h = h\<lparr>h_FundsIO := FundsChangeMap_Add amount aid bLock (h_FundsIO h)\<rparr>"

definition HandleAmount :: "Amount \<Rightarrow> AssetID \<Rightarrow> bool \<Rightarrow> 'm Host_scheme \<Rightarrow> 'm Host_scheme option" where
  "HandleAmount amount aid bLock h =
     HandleAmountInner amount aid bLock h \<bind> (\<lambda>h. Some (HandleAmountOuter amount aid bLock h))"

definition FundsLock :: "AssetID \<Rightarrow> Amount \<Rightarrow> 'm Host_scheme \<Rightarrow> 'm Host_scheme option" where
  "FundsLock aid amount h = HandleAmount amount aid True h"

definition FundsUnlock :: "AssetID \<Rightarrow> Amount \<Rightarrow> 'm Host_scheme \<Rightarrow> 'm Host_scheme option" where
  "FundsUnlock aid amount h = HandleAmount amount aid False h"

definition AddSig :: "PubKey \<Rightarrow> 'm Host_scheme \<Rightarrow> 'm Host_scheme option" where
  "AddSig pk h = (if h_ImportNnz h pk then Some (h\<lparr>h_Sigs := h_Sigs h @ [pk]\<rparr>) else None)"

definition get_CallerCid :: "nat \<Rightarrow> 'm Host_scheme \<Rightarrow> ContractID option" where
  "get_CallerCid iCaller h = (if iCaller < length (h_Calls h) then Some (h_Calls h ! iCaller) else None)"

definition HandleRefRaw :: "bytes \<Rightarrow> bool \<Rightarrow> (bool \<times> bytes) option" where
  "HandleRefRaw var bAdd =
     (let refs = snd (LoadFixedOrZero 4 var)
      in if bAdd then
           (let r = snd (uInc1 refs) in if memis0 r then None else Some (memis0 refs, SaveNnz r))
         else if memis0 refs then None
         else (let r = uInv (uNegate refs) in Some (memis0 r, SaveNnz r)))"

definition HandleRef :: "ContractID \<Rightarrow> bool \<Rightarrow> 'm Host_scheme \<Rightarrow> (bool \<times> 'm Host_scheme) option" where
  "HandleRef cid bAdd h =
     (case h_Calls h of
        [] \<Rightarrow> None
      | me # _ \<Rightarrow>
          HandleRefRaw (h_Refs h me cid) bAdd \<bind> (\<lambda>(flip, r).
          (let h1 = h\<lparr>h_Refs := (h_Refs h)(me := (h_Refs h me)(cid := r))\<rparr>
           in if flip then
                (if bAdd \<and> h_Code h1 cid = [] then
                   HandleRefRaw (h_Refs h1 me cid) False \<bind> (\<lambda>(_, r).
                   Some (False, h1\<lparr>h_Refs := (h_Refs h1)(me := (h_Refs h1 me)(cid := r))\<rparr>))
                 else
                   HandleRefRaw (h_RefsTotal h1 cid) bAdd \<bind> (\<lambda>(_, r).
                   Some (True, h1\<lparr>h_RefsTotal := (h_RefsTotal h1)(cid := r)\<rparr>)))
              else Some (True, h1))))"

definition FarCallDepth :: nat where
  "FarCallDepth = 32"

text \<open>A far call runs the method of the other contract in a new frame and drops the frame when it returns.\<close>

definition CallFar ::
  "ContractID \<Rightarrow> bool \<Rightarrow> ('m Host_scheme \<Rightarrow> ('r \<times> 'm Host_scheme) option) \<Rightarrow> 'm Host_scheme \<Rightarrow>
    ('r \<times> 'm Host_scheme) option" where
  "CallFar cid bInheritContext method h =
     (if length (h_Calls h) < FarCallDepth \<and> h_Code h cid \<noteq> [] \<and> \<not> (bInheritContext \<and> h_Calls h = []) then
        method (h\<lparr>h_Calls := (if bInheritContext then hd (h_Calls h) else cid) # h_Calls h\<rparr>) \<bind>
          (\<lambda>(r, h). Some (r, h\<lparr>h_Calls := tl (h_Calls h)\<rparr>))
      else None)"

section \<open>Balances\<close>

definition locked :: "'m Host_scheme \<Rightarrow> ContractID \<Rightarrow> AssetID \<Rightarrow> nat" where
  "locked h cid aid = be_val (snd (LoadFixedOrZero 16 (h_Locked h cid aid)))"

definition set_locked :: "ContractID \<Rightarrow> AssetID \<Rightarrow> nat \<Rightarrow> 'm Host_scheme \<Rightarrow> 'm Host_scheme" where
  "set_locked cid aid n h =
     h\<lparr>h_Locked := (h_Locked h)(cid := (h_Locked h cid)(aid := SaveNnz (be_bytes 16 n)))\<rparr>"

lemma amount_Load [simp]: "amount16 (snd (LoadFixedOrZero 16 v))"
  by (simp add: LoadFixedOrZero_def amount16_def)

lemma Load_SaveNnz: "amount16 v \<Longrightarrow> snd (LoadFixedOrZero 16 (SaveNnz v)) = v"
  using amount_eqI [of "replicate 16 0" v] by (simp add: LoadFixedOrZero_def SaveNnz_def amount16_def memis0_be_val)

lemma locked_less: "locked h c a < 2 ^ 128"
  by (simp only: locked_def amount_less amount_Load)

lemma locked_set_locked [simp]:
  assumes "n < 2 ^ 128"
  shows "locked (set_locked c a n h) c' a' = (if c' = c \<and> a' = a then n else locked h c' a')"
proof -
  have "be_val (be_bytes 16 n) = n" using assms by (simp add: be_val_be_bytes)
  moreover have "amount16 (be_bytes 16 n)" by (simp add: amount16_def)
  ultimately show ?thesis by (simp add: locked_def set_locked_def Load_SaveNnz)
qed

lemma be_bytes_amount: "amount16 v \<Longrightarrow> be_val v = n \<Longrightarrow> be_bytes 16 n = v"
  using be_bytes_be_val [of v] by (simp add: amount16_def)

text \<open>What the amount handler does, in terms of balances.\<close>

lemma HandleAmountInner_lock:
  assumes "h_Calls h = cid # cs"
  shows "HandleAmountInner amt a True h =
    (if locked h cid a + unat amt < 2 ^ 128 then Some (set_locked cid a (locked h cid a + unat amt) h) else None)"
proof -
  let ?v = "snd (LoadFixedOrZero 16 (h_Locked h cid a))" and ?a = "uAssignOrdinal (replicate 8 0) amt"
  have small: "be_val ?a < 2 ^ 128" using unat_u64_less [of amt] by (simp add: amount_of_u64)
  note t = amount_add [OF amount_Load small, of "h_Locked h cid a"]
  have "SaveNnz (snd (uInc3 ?v ?a)) = SaveNnz (be_bytes 16 (locked h cid a + unat amt))"
    if "\<not> uCmp (snd (uInc3 ?v ?a)) ?a < 0"
    using t(2) [OF that] be_bytes_amount [of "snd (uInc3 ?v ?a)"] by (simp add: locked_def amount_of_u64)
  then show ?thesis
    using assms t(1) by (auto simp: HandleAmountInner_def locked_def set_locked_def amount_of_u64 Let_def not_less)
qed

lemma HandleAmountInner_unlock:
  assumes "h_Calls h = cid # cs"
  shows "HandleAmountInner amt a False h =
    (if unat amt \<le> locked h cid a then Some (set_locked cid a (locked h cid a - unat amt) h) else None)"
proof -
  let ?v = "snd (LoadFixedOrZero 16 (h_Locked h cid a))" and ?a = "uAssignOrdinal (replicate 8 0) amt"
  let ?w = "uNegate (snd (uInc3 (uNegate ?v) ?a))"
  have "SaveNnz ?w = SaveNnz (be_bytes 16 (locked h cid a - unat amt))" if "unat amt \<le> locked h cid a"
    using amount_negate_sub [of ?v ?a] that be_bytes_amount [of ?w] by (simp add: locked_def amount_of_u64)
  then show ?thesis
    using assms by (auto simp: HandleAmountInner_def locked_def set_locked_def uCmp_less_0 amount_of_u64 Let_def)
qed

lemma HandleAmountInner_idle: "h_Calls h = [] \<Longrightarrow> HandleAmountInner amt a b h = None"
  by (simp add: HandleAmountInner_def)

text \<open>The funds of the contract that is running.\<close>

definition my_funds :: "'m Host_scheme \<Rightarrow> AssetID \<Rightarrow> nat" where
  "my_funds h aid = locked h (hd (h_Calls h)) aid"

definition in_call :: "'m Host_scheme \<Rightarrow> bool" where
  "in_call h \<longleftrightarrow> h_Calls h \<noteq> []"

lemma HandleAmount_lock:
  assumes "in_call h"
  shows "HandleAmount amt a True h =
    (if my_funds h a + unat amt < 2 ^ 128
     then Some (HandleAmountOuter amt a True (set_locked (hd (h_Calls h)) a (my_funds h a + unat amt) h)) else None)"
  using assms by (cases "h_Calls h") (simp_all add: in_call_def HandleAmount_def HandleAmountInner_lock my_funds_def)

lemma HandleAmount_unlock:
  assumes "in_call h"
  shows "HandleAmount amt a False h =
    (if unat amt \<le> my_funds h a
     then Some (HandleAmountOuter amt a False (set_locked (hd (h_Calls h)) a (my_funds h a - unat amt) h)) else None)"
  using assms by (cases "h_Calls h") (simp_all add: in_call_def HandleAmount_def HandleAmountInner_unlock my_funds_def)

lemma set_locked_sel [simp]:
  "h_Calls (set_locked c a n h) = h_Calls h" "h_FundsIO (set_locked c a n h) = h_FundsIO h"
  "h_Sigs (set_locked c a n h) = h_Sigs h" "h_Height (set_locked c a n h) = h_Height h"
  "h_ImportNnz (set_locked c a n h) = h_ImportNnz h" "h_Code (set_locked c a n h) = h_Code h"
  "more (set_locked c a n h) = more h"
  by (simp_all add: set_locked_def)

lemma HandleAmountOuter_sel [simp]:
  "h_Calls (HandleAmountOuter v a b h) = h_Calls h" "locked (HandleAmountOuter v a b h) = locked h"
  "h_Sigs (HandleAmountOuter v a b h) = h_Sigs h" "h_Height (HandleAmountOuter v a b h) = h_Height h"
  "h_ImportNnz (HandleAmountOuter v a b h) = h_ImportNnz h" "h_Code (HandleAmountOuter v a b h) = h_Code h"
  "more (HandleAmountOuter v a b h) = more h" "my_funds (HandleAmountOuter v a b h) = my_funds h"
  by (simp_all add: HandleAmountOuter_def locked_def my_funds_def fun_eq_iff)

lemma HandleAmountOuter_FundsIO: "h_FundsIO (HandleAmountOuter v a b h) = FundsChangeMap_Add v a b (h_FundsIO h)"
  by (simp add: HandleAmountOuter_def)

lemma my_funds_less: "my_funds h a < 2 ^ 128"
  unfolding my_funds_def by (rule locked_less)

text \<open>Moving funds changes the balance of the contract and nothing the contract keeps itself.\<close>

lemma FundsLock_SomeD:
  assumes "FundsLock a v h = Some h'" and "in_call h"
  shows "in_call h'" "my_funds h' b = my_funds h b + (if b = a then unat v else 0)" "more h' = more h"
    "h_Calls h' = h_Calls h" "h_Height h' = h_Height h" "h_ImportNnz h' = h_ImportNnz h" "h_Sigs h' = h_Sigs h"
    "h_Code h' = h_Code h" "h_FundsIO h' = FundsChangeMap_Add v a True (h_FundsIO h)"
  using assms by (auto simp: FundsLock_def HandleAmount_lock in_call_def my_funds_def HandleAmountOuter_FundsIO split: if_splits)

lemma FundsUnlock_SomeD:
  assumes "FundsUnlock a v h = Some h'" and "in_call h"
  shows "in_call h'" "unat v \<le> my_funds h a" "my_funds h' b = my_funds h b - (if b = a then unat v else 0)"
    "more h' = more h" "h_Calls h' = h_Calls h" "h_Height h' = h_Height h" "h_ImportNnz h' = h_ImportNnz h"
    "h_Sigs h' = h_Sigs h" "h_Code h' = h_Code h" "h_FundsIO h' = FundsChangeMap_Add v a False (h_FundsIO h)"
  using assms my_funds_less [of h a]
  by (auto simp: FundsUnlock_def HandleAmount_unlock in_call_def my_funds_def HandleAmountOuter_FundsIO split: if_splits)

lemma FundsLock_enabled: "in_call h \<Longrightarrow> my_funds h a + unat v < 2 ^ 128 \<Longrightarrow> \<exists>h'. FundsLock a v h = Some h'"
  by (simp add: FundsLock_def HandleAmount_lock)

lemma FundsUnlock_enabled: "in_call h \<Longrightarrow> unat v \<le> my_funds h a \<Longrightarrow> \<exists>h'. FundsUnlock a v h = Some h'"
  by (simp add: FundsUnlock_def HandleAmount_unlock)

lemma AddSig_SomeD:
  assumes "AddSig pk h = Some h'"
  shows "h' = h\<lparr>h_Sigs := h_Sigs h @ [pk]\<rparr>" "h_ImportNnz h pk" "my_funds h' = my_funds h" "in_call h' = in_call h"
    "more h' = more h" "h_Calls h' = h_Calls h" "locked h' = locked h"
  using assms by (auto simp: AddSig_def my_funds_def locked_def in_call_def fun_eq_iff split: if_splits)

section \<open>Funds move between contracts and the transaction\<close>

text \<open>The net amount the transaction receives, modulo \<open>2 ^ 128\<close>.\<close>

definition io_value :: "(AssetID \<rightharpoonup> bytes) \<Rightarrow> AssetID \<Rightarrow> nat" where
  "io_value io a = (case io a of None \<Rightarrow> 0 | Some v \<Rightarrow> be_val v)"

definition io_ok :: "(AssetID \<rightharpoonup> bytes) \<Rightarrow> bool" where
  "io_ok io \<longleftrightarrow> (\<forall>v \<in> ran io. amount16 v)"

lemma io_okD: "io_ok io \<Longrightarrow> io a = Some v \<Longrightarrow> amount16 v"
  by (auto simp: io_ok_def ran_def)

lemma io_ok_upd: "io_ok io \<Longrightarrow> amount16 v \<Longrightarrow> io_ok (io(a \<mapsto> v))" "io_ok io \<Longrightarrow> io_ok (io(a := None))"
  by (auto simp: io_ok_def ran_def split: if_splits)

lemma io_value_less: "io_ok io \<Longrightarrow> io_value io a < 2 ^ 128"
  using io_okD [of io a] amount_less by (simp add: io_value_def split: option.split)

lemma FundsChangeMap_AddBig_spec:
  assumes "io_ok io" and "amount16 v"
  shows "io_ok (FundsChangeMap_AddBig v a io)"
    "io_value (FundsChangeMap_AddBig v a io) b = (if b = a then (io_value io a + be_val v) mod 2 ^ 128 else io_value io b)"
proof -
  show "io_ok (FundsChangeMap_AddBig v a io)"
    using assms io_okD [OF assms(1)] by (auto simp: FundsChangeMap_AddBig_def io_ok_upd Let_def split: option.split)
  show "io_value (FundsChangeMap_AddBig v a io) b = (if b = a then (io_value io a + be_val v) mod 2 ^ 128 else io_value io b)"
  proof (cases "io a")
    case None
    then show ?thesis using amount_less [OF assms(2)] by (simp add: FundsChangeMap_AddBig_def io_value_def)
  next
    case (Some d)
    have e: "be_val (snd (uInc3 d v)) = (be_val d + be_val v) mod 2 ^ 128"
      by (rule be_val_amount_add [OF io_okD [OF assms(1) Some]])
    show ?thesis
      unfolding FundsChangeMap_AddBig_def io_value_def Some
      by (cases "memis0 (snd (uInc3 d v))") (simp_all only: Let_def option.case e memis0_be_val if_True if_False
          fun_upd_apply split: if_split, simp_all)
  qed
qed

lemma FundsChangeMap_Add_spec:
  assumes "io_ok io"
  shows "io_ok (FundsChangeMap_Add v a bSpend io)"
    "io_value (FundsChangeMap_Add v a bSpend io) b =
      (if b = a then (io_value io a + (if bSpend then 2 ^ 128 - unat v else unat v)) mod 2 ^ 128 else io_value io b)"
proof -
  let ?v = "uAssignOrdinal (replicate 16 0) v"
  have am: "amount16 ?v" "amount16 (uNegate ?v)" by (simp_all add: amount_of_u64)
  have n: "be_val (uNegate ?v) = (2 ^ 128 - unat v) mod 2 ^ 128" using be_val_amount_neg [OF am(1)] by (simp only: amount_of_u64)
  show "io_ok (FundsChangeMap_Add v a bSpend io)"
    using FundsChangeMap_AddBig_spec(1) [OF assms] am assms by (simp add: FundsChangeMap_Add_def Let_def)
  show "io_value (FundsChangeMap_Add v a bSpend io) b =
      (if b = a then (io_value io a + (if bSpend then 2 ^ 128 - unat v else unat v)) mod 2 ^ 128 else io_value io b)"
  proof (cases "v = 0")
    case True
    then show ?thesis using io_value_less [OF assms, of a] by (simp add: FundsChangeMap_Add_def)
  next
    case False
    then show ?thesis
      using FundsChangeMap_AddBig_spec(2) [OF assms am(1), of a b] FundsChangeMap_AddBig_spec(2) [OF assms am(2), of a b]
      by (simp only: FundsChangeMap_Add_def Let_def n amount_of_u64 mod_add_right_eq if_False if_True split: if_split) simp
  qed
qed

lemma io_ok_empty [simp]: "io_ok Map.empty"
  by (simp add: io_ok_def)

text \<open>What a single payout puts into the transaction.\<close>

lemma io_value_payout: "io_value (FundsChangeMap_Add v a False Map.empty) b = (if b = a then unat v else 0)"
  using unat_u64_less [of v] by (simp add: FundsChangeMap_Add_spec(2)) (simp add: io_value_def)

text \<open>A sequence of transfers, each made by some contract.\<close>

fun funds_run :: "(ContractID \<times> bool \<times> AssetID \<times> Amount) list \<Rightarrow> 'm Host_scheme \<Rightarrow> 'm Host_scheme option" where
  "funds_run [] h = Some h"
| "funds_run ((cid, bLock, aid, amt) # ops) h =
     HandleAmount amt aid bLock (h\<lparr>h_Calls := [cid]\<rparr>) \<bind> funds_run ops"

definition net :: "ContractID set \<Rightarrow> 'm Host_scheme \<Rightarrow> AssetID \<Rightarrow> nat" where
  "net C h a = ((\<Sum>c\<in>C. locked h c a) + io_value (h_FundsIO h) a) mod 2 ^ 128"

lemma wrap_take_give:
  assumes "unat (v :: u64) \<le> s + unat v"
  shows "(s + unat v + (i + (2 ^ 128 - unat v)) mod 2 ^ 128) mod 2 ^ 128 = (s + i) mod (2 ^ 128 :: nat)"
proof -
  have "unat v \<le> 2 ^ 128" using unat_u64_less [of v] by simp
  then have "s + unat v + (i + (2 ^ 128 - unat v)) = s + i + 2 ^ 128" by linarith
  then show ?thesis by (simp only: mod_add_right_eq mod_add_self2)
qed

lemma HandleAmount_net:
  assumes "HandleAmount v a bLock h = Some h'" and "in_call h" and "io_ok (h_FundsIO h)"
    and "finite C" and "hd (h_Calls h) \<in> C"
  shows "net C h' b = net C h b \<and> io_ok (h_FundsIO h')"
proof -
  let ?c = "hd (h_Calls h)" and ?io = "h_FundsIO h"
  have io: "h_FundsIO h' = FundsChangeMap_Add v a bLock ?io"
    and l: "locked h' c b = (if c = ?c \<and> b = a then (if bLock then my_funds h a + unat v else my_funds h a - unat v)
        else locked h c b)"
    and le: "\<not> bLock \<Longrightarrow> unat v \<le> my_funds h a" for c b
    using assms(1) HandleAmount_lock [OF assms(2), of v a] HandleAmount_unlock [OF assms(2), of v a] my_funds_less [of h a]
    by (cases bLock; auto simp: HandleAmountOuter_FundsIO split: if_splits)+
  have ok: "io_ok (h_FundsIO h')" unfolding io by (rule FundsChangeMap_Add_spec(1) [OF assms(3)])
  have sum: "(\<Sum>c\<in>C. locked h' c b) = (\<Sum>c\<in>C - {?c}. locked h c b) + locked h' ?c b" for b
    using assms(4,5) by (subst sum.remove [of C ?c]) (simp_all add: l)
  have sum0: "(\<Sum>c\<in>C. locked h c b) = (\<Sum>c\<in>C - {?c}. locked h c b) + locked h ?c b" for b
    using assms(4,5) by (subst sum.remove [of C ?c]) simp_all
  have "net C h' b = net C h b"
  proof (cases "b = a")
    case False
    then show ?thesis by (simp add: net_def io FundsChangeMap_Add_spec(2) [OF assms(3)] l)
  next
    case True
    let ?S = "\<Sum>c\<in>C - {?c}. locked h c a" and ?m = "my_funds h a" and ?i = "io_value ?io a"
    have e: "net C h a = (?S + ?m + ?i) mod 2 ^ 128" by (simp only: net_def sum0 my_funds_def)
    have "net C h' a = (?S + locked h' ?c a + (?i + (if bLock then 2 ^ 128 - unat v else unat v)) mod 2 ^ 128) mod 2 ^ 128"
      by (simp only: net_def sum io FundsChangeMap_Add_spec(2) [OF assms(3)] if_True refl)
    also have "\<dots> = (?S + ?m + ?i) mod 2 ^ 128"
    proof (cases bLock)
      case True
      then show ?thesis using wrap_take_give [of v "?S + ?m" ?i] by (simp only: l if_True refl simp_thms add.assoc)
    next
      case False
      have "?S + (?m - unat v) + (?i + unat v) = ?S + ?m + ?i" using le False by simp
      then show ?thesis using False by (simp only: l if_True if_False refl simp_thms mod_add_right_eq)
    qed
    finally show ?thesis using e True by simp
  qed
  then show ?thesis using ok by simp
qed

text \<open>C10: Funds are conserved.  Whatever sequence of locks and unlocks a transaction makes contracts perform, for every
  asset the sum of the balances of the contracts involved and of the net amount the transaction receives stays the
  same modulo \<open>2 ^ 128\<close> (the net amount is a 16-byte two's complement number).\<close>

theorem funds_conserved:
  assumes "funds_run ops h = Some h'" and "io_ok (h_FundsIO h)" and "finite C" and "fst ` set ops \<subseteq> C"
  shows "net C h' a = net C h a"
  using assms
proof (induction ops arbitrary: h)
  case (Cons op ops)
  obtain cid bLock aid amt where op: "op = (cid, bLock, aid, amt)" by (cases op)
  let ?h = "h\<lparr>h_Calls := [cid]\<rparr>"
  from Cons.prems(1) op obtain h1 where 1: "HandleAmount amt aid bLock ?h = Some h1" "funds_run ops h1 = Some h'"
    by (auto split: bind_splits)
  have "net C h1 a = net C ?h a \<and> io_ok (h_FundsIO h1)"
    using Cons.prems(2-4) op by (intro HandleAmount_net [OF 1(1)]) (simp_all add: in_call_def)
  moreover have "net C ?h a = net C h a" by (simp add: net_def locked_def)
  ultimately show ?case using Cons.IH [OF 1(2)] Cons.prems(3,4) op by simp
qed simp

text \<open>A host before the first transaction.\<close>

definition host_init :: Host where
  "host_init = \<lparr>h_Calls = [], h_Height = 0, h_ImportNnz = (\<lambda>pk. m_X pk \<noteq> 0), h_Sigs = [], h_FundsIO = Map.empty,
     h_Locked = (\<lambda>c a. []), h_Refs = (\<lambda>c d. []), h_RefsTotal = (\<lambda>c. []), h_Code = (\<lambda>c. [1])\<rparr>"

lemma locked_h_Calls [simp]: "locked (h\<lparr>h_Calls := cs\<rparr>) = locked h"
  by (simp add: locked_def fun_eq_iff)

lemma locked_init [simp]: "locked host_init c a = 0"
  by (simp add: locked_def host_init_def LoadFixedOrZero_def)

theorem funds_conserved_witness:
  "\<exists>h'. funds_run [(1, True, 0, 5), (2, True, 0, 7), (1, False, 0, 3)] host_init = Some h' \<and>
     net {1, 2} h' 0 = net {1, 2} host_init 0"
proof -
  have "\<exists>h'. funds_run [(1, True, 0, 5), (2, True, 0, 7), (1, False, 0, 3)] host_init = Some h'"
    by (simp add: HandleAmount_lock HandleAmount_unlock in_call_def my_funds_def)
  moreover have "io_ok (h_FundsIO host_init)" by (simp add: io_ok_def host_init_def)
  ultimately show ?thesis
    using funds_conserved [of "[(1, True, 0, 5), (2, True, 0, 7), (1, False, 0, 3)]" host_init _ "{1, 2}" 0] by auto
qed

section \<open>Contracts that keep accounts\<close>

text \<open>A transaction calls a contract at some height, with no signatures and no funds moved yet.  In between, other
  contracts may move their own funds.\<close>

definition begin_call :: "ContractID \<Rightarrow> Height \<Rightarrow> 'm Host_scheme \<Rightarrow> 'm Host_scheme" where
  "begin_call cid ht h = h\<lparr>h_Calls := [cid], h_Height := ht, h_Sigs := [], h_FundsIO := Map.empty\<rparr>"

lemma begin_call_sel [simp]:
  "h_Calls (begin_call cid ht h) = [cid]" "h_Height (begin_call cid ht h) = ht" "h_Sigs (begin_call cid ht h) = []"
  "h_FundsIO (begin_call cid ht h) = Map.empty" "in_call (begin_call cid ht h)" "locked (begin_call cid ht h) = locked h"
  "my_funds (begin_call cid ht h) = locked h cid" "h_ImportNnz (begin_call cid ht h) = h_ImportNnz h"
  "more (begin_call cid ht h) = more h"
  by (simp_all add: begin_call_def in_call_def locked_def my_funds_def fun_eq_iff)

definition others_move :: "ContractID \<Rightarrow> 'm Host_scheme \<Rightarrow> 'm Host_scheme \<Rightarrow> bool" where
  "others_move cid h h' \<longleftrightarrow> (\<exists>L. h' = h\<lparr>h_Locked := L\<rparr> \<and> L cid = h_Locked h cid)"

lemma others_moveD:
  assumes "others_move cid h h'"
  shows "locked h' cid = locked h cid" "more h' = more h" "h_ImportNnz h' = h_ImportNnz h" "h_Calls h' = h_Calls h"
  using assms by (auto simp: others_move_def locked_def fun_eq_iff)

text \<open>What a contract relies on when it moves funds.\<close>

locale funds =
  fixes lock :: "AssetID \<Rightarrow> Amount \<Rightarrow> 's \<Rightarrow> 's option" and unlock :: "AssetID \<Rightarrow> Amount \<Rightarrow> 's \<Rightarrow> 's option"
    and balance :: "'s \<Rightarrow> AssetID \<Rightarrow> nat" and running :: "'s \<Rightarrow> bool"
  assumes lock_balance: "running s \<Longrightarrow> lock a v s = Some s' \<Longrightarrow>
      running s' \<and> balance s' b = balance s b + (if b = a then unat v else 0)"
    and unlock_balance: "running s \<Longrightarrow> unlock a v s = Some s' \<Longrightarrow>
      running s' \<and> unat v \<le> balance s a \<and> balance s' b = balance s b - (if b = a then unat v else 0)"
    and unlock_enabled: "running s \<Longrightarrow> unat v \<le> balance s a \<Longrightarrow> \<exists>s'. unlock a v s = Some s'"

interpretation host: funds FundsLock FundsUnlock my_funds in_call
  by unfold_locales (simp_all add: FundsLock_SomeD FundsUnlock_SomeD FundsUnlock_enabled)

text \<open>The sum of a function that is almost everywhere zero.\<close>

definition sum_of :: "('k \<Rightarrow> nat) \<Rightarrow> nat" where
  "sum_of g = (\<Sum>k | g k \<noteq> 0. g k)"

lemma sum_of_superset: "finite S \<Longrightarrow> {k. g k \<noteq> 0} \<subseteq> S \<Longrightarrow> sum_of g = sum g S"
  unfolding sum_of_def by (rule sum.mono_neutral_left) auto

lemma sum_of_update:
  assumes "finite {k. g k \<noteq> 0}"
  shows "sum_of (g(k := v)) + g k = sum_of g + v"
proof -
  let ?S = "insert k {k. g k \<noteq> 0}"
  have "sum_of (g(k := v)) = sum (g(k := v)) ?S" "sum_of g = sum g ?S"
    using assms by (auto intro!: sum_of_superset simp del: fun_upd_apply) (simp add: fun_upd_def split: if_splits)
  moreover have "sum (g(k := v)) ?S = v + sum g (?S - {k})" "sum g ?S = g k + sum g (?S - {k})"
    using assms by (simp_all add: sum.insert_remove)
  ultimately show ?thesis by simp
qed

lemma sum_of_ge: "finite {k. g k \<noteq> 0} \<Longrightarrow> g k \<le> sum_of g"
  using sum_of_update [of g k 0] by simp

lemma sum_of_zero [simp]: "sum_of (\<lambda>k. 0) = 0"
  by (simp add: sum_of_def)

text \<open>The sum of the amounts of a group of accounts.\<close>

definition group_sum :: "('k \<Rightarrow> bool) \<Rightarrow> ('k \<Rightarrow> Amount) \<Rightarrow> nat" where
  "group_sum P f = sum_of (\<lambda>k. if P k then unat (f k) else 0)"

lemma finite_group: "finite {k. f k \<noteq> 0} \<Longrightarrow> finite {k. (if P k then unat (f k :: Amount) else 0) \<noteq> 0}"
  by (rule finite_subset [of _ "{k. f k \<noteq> 0}"]) auto

lemma group_sum_update:
  assumes "finite {k. f k \<noteq> 0}"
  shows "group_sum P (f(k := v)) + (if P k then unat (f k) else 0) = group_sum P f + (if P k then unat v else 0)"
proof -
  have "(\<lambda>j. if P j then unat ((f(k := v)) j) else 0) = (\<lambda>j. if P j then unat (f j) else 0)(k := if P k then unat v else 0)"
    by (auto simp: fun_eq_iff)
  then show ?thesis using sum_of_update [OF finite_group [OF assms], of P k "if P k then unat v else 0"] by (simp add: group_sum_def)
qed

lemma group_sum_ge: "finite {k. f k \<noteq> 0} \<Longrightarrow> P k \<Longrightarrow> unat (f k) \<le> group_sum P f"
  using sum_of_ge [OF finite_group, of f P k] by (simp add: group_sum_def)

lemma group_sum_cong:
  assumes "\<And>k. f k \<noteq> 0 \<Longrightarrow> P k = Q k"
  shows "group_sum P f = group_sum Q f"
proof -
  have "(if P k then unat (f k) else 0) = (if Q k then unat (f k) else 0)" for k using assms [of k] by (cases "f k = 0") auto
  then show ?thesis by (simp add: group_sum_def)
qed

lemma group_sum_zero: "(\<And>k. f k \<noteq> 0 \<Longrightarrow> \<not> P k) \<Longrightarrow> group_sum P f = 0"
  using group_sum_cong [of f P "\<lambda>k. False"] by (simp add: group_sum_def)

text \<open>A contract that keeps an amount per account; the account says which asset it is held in.\<close>

locale ledger = funds lock unlock balance running
  for lock :: "AssetID \<Rightarrow> Amount \<Rightarrow> 's \<Rightarrow> 's option" and unlock balance running +
  fixes load :: "'s \<Rightarrow> 'k \<Rightarrow> Amount" and save :: "'k \<Rightarrow> Amount \<Rightarrow> 's \<Rightarrow> 's" and asset :: "'s \<Rightarrow> 'k \<Rightarrow> AssetID"
  assumes load_save: "load (save k v s) k' = (if k' = k then v else load s k')"
    and save_frame: "balance (save k v s) = balance s" "running (save k v s) = running s" "asset (save k v s) = asset s"
    and lock_frame: "running s \<Longrightarrow> lock a v s = Some s' \<Longrightarrow> load s' = load s \<and> asset s' = asset s"
    and unlock_frame: "running s \<Longrightarrow> unlock a v s = Some s' \<Longrightarrow> load s' = load s \<and> asset s' = asset s"
begin

definition deposit :: "'k \<Rightarrow> Amount \<Rightarrow> 's \<Rightarrow> 's option" where
  "deposit k v s = strict_Add (load s k) v \<bind> (\<lambda>t. lock (asset s k) v (save k t s))"

definition withdraw :: "'k \<Rightarrow> Amount \<Rightarrow> 's \<Rightarrow> 's option" where
  "withdraw k v s = strict_Sub (load s k) v \<bind> (\<lambda>t. unlock (asset s k) v (save k t s))"

definition held :: "'s \<Rightarrow> AssetID \<Rightarrow> 'k \<Rightarrow> nat" where
  "held s a k = (if asset s k = a then unat (load s k) else 0)"

text \<open>The funds of the contract are exactly what its accounts hold.\<close>

definition solvent :: "'s \<Rightarrow> bool" where
  "solvent s \<longleftrightarrow> running s \<and> finite {k. load s k \<noteq> 0} \<and> (\<forall>a. balance s a = sum_of (held s a))"

lemma finite_held: "finite {k. load s k \<noteq> 0} \<Longrightarrow> finite {k. held s a k \<noteq> 0}"
  by (rule finite_subset [of _ "{k. load s k \<noteq> 0}"]) (auto simp: held_def)

lemma held_upd:
  assumes "load s' = (load s)(k := t)" and "asset s' = asset s"
  shows "held s' a = (if asset s k = a then (held s a)(k := unat t) else held s a)"
  using assms by (auto simp: held_def fun_eq_iff)

lemma held_self: "held s (asset s k) k = unat (load s k)"
  by (simp add: held_def)

lemma finite_upd: "finite {k. load s k \<noteq> 0} \<Longrightarrow> load s' = (load s)(k := t) \<Longrightarrow> finite {k. load s' k \<noteq> 0}"
  by (rule finite_subset [of _ "insert k {k. load s k \<noteq> 0}"]) auto

lemma held_le_balance: "solvent s \<Longrightarrow> unat (load s k) \<le> balance s (asset s k)"
proof -
  assume "solvent s"
  then show ?thesis using sum_of_ge [OF finite_held, of s "asset s k" k] by (simp add: solvent_def held_self)
qed

lemma save_eq: "load (save k t s) = (load s)(k := t)"
  by (simp add: fun_eq_iff load_save)

lemma sum_held: "sum_of (held s a) = group_sum (\<lambda>k. asset s k = a) (load s)"
  by (simp add: held_def [abs_def] group_sum_def)

lemma deposit_solvent:
  assumes "solvent s" and "deposit k v s = Some s'"
  shows "solvent s'" "load s' = (load s)(k := load s k + v)" "unat (load s' k) = unat (load s k) + unat v" "asset s' = asset s"
proof -
  from assms(2) obtain t where t: "strict_Add (load s k) v = Some t" "lock (asset s k) v (save k t s) = Some s'"
    by (auto simp: deposit_def split: bind_splits)
  have r: "running (save k t s)" using assms(1) by (simp add: solvent_def save_frame)
  note l = lock_frame [OF r t(2)] lock_balance [OF r t(2)]
  show ls: "load s' = (load s)(k := load s k + v)" and v: "unat (load s' k) = unat (load s k) + unat v"
    and as: "asset s' = asset s"
    using l(1) strict_AddD [OF t(1)] t(1) by (simp_all add: save_eq save_frame strict_Add_eq split: if_splits)
  have f: "finite {k. load s k \<noteq> 0}" using assms(1) by (simp add: solvent_def)
  have "balance s' a = sum_of (held s' a)" for a
    using l(2) [of a] sum_of_update [OF finite_held [OF f], of "asset s k" k "unat (load s k + v)"] v ls assms(1)
    by (auto simp: held_upd [OF ls as] save_frame solvent_def held_self)
  then show "solvent s'" using l(2) finite_upd [OF f ls] by (simp add: solvent_def)
qed

lemma withdraw_solvent:
  assumes "solvent s" and "withdraw k v s = Some s'"
  shows "solvent s'" "load s' = (load s)(k := load s k - v)" "unat (load s' k) = unat (load s k) - unat v" "asset s' = asset s"
    "unat v \<le> unat (load s k)"
proof -
  from assms(2) obtain t where t: "strict_Sub (load s k) v = Some t" "unlock (asset s k) v (save k t s) = Some s'"
    by (auto simp: withdraw_def split: bind_splits)
  have r: "running (save k t s)" using assms(1) by (simp add: solvent_def save_frame)
  note l = unlock_frame [OF r t(2)] unlock_balance [OF r t(2)]
  show ls: "load s' = (load s)(k := load s k - v)" and v: "unat (load s' k) = unat (load s k) - unat v"
    and as: "asset s' = asset s" and le: "unat v \<le> unat (load s k)"
    using l(1) strict_SubD [OF t(1)] t(1) by (simp_all add: save_eq save_frame strict_Sub_def split: if_splits)
  have f: "finite {k. load s k \<noteq> 0}" using assms(1) by (simp add: solvent_def)
  have "balance s' a = sum_of (held s' a)" for a
    using l(2) [of a] sum_of_update [OF finite_held [OF f], of "asset s k" k "unat (load s k - v)"] v ls le assms(1)
      sum_of_ge [OF finite_held [OF f], of "asset s k" k]
    by (auto simp: held_upd [OF ls as] save_frame solvent_def held_self)
  then show "solvent s'" using l(2) finite_upd [OF f ls] by (simp add: solvent_def)
qed

lemma withdraw_enabled:
  assumes "solvent s" and "unat v \<le> unat (load s k)"
  shows "\<exists>s'. withdraw k v s = Some s'"
proof -
  obtain t where "strict_Sub (load s k) v = Some t" using strict_Sub_SomeI [OF assms(2)] by blast
  moreover have "\<exists>s'. unlock (asset s k) v (save k t s) = Some s'" for t
    using assms held_le_balance [OF assms(1), of k]
    by (intro unlock_enabled) (simp_all add: save_frame solvent_def)
  ultimately show ?thesis by (simp add: withdraw_def)
qed

end

end
