(* ===== verification/Contract_Vault.thy ===== *)
theory Contract_Vault
  imports Bvm_Host
begin

text \<open>
  The vault contract (\<open>src/bvm/Shaders/vault\<close>): anyone deposits to an account, its owner withdraws.  An account is a
  contract variable under the key of the owner and the asset; a missing variable counts as zero.  The vault is a
  ledger, so its funds are exactly the sum of the accounts in every reachable state, and an owner can always withdraw.
\<close>

section \<open>The contract\<close>

record Vault_Key =
  m_Account :: PubKey
  m_Aid :: AssetID

record Vault_Request =
  r_Key :: Vault_Key
  r_Amount :: Amount

record Vault = Host +
  v_Accounts :: "Vault_Key \<rightharpoonup> Amount"
  v_Logs :: "(Vault_Key \<times> Amount) list"

definition LoadAccount :: "Vault \<Rightarrow> Vault_Key \<Rightarrow> Amount" where
  "LoadAccount s k = (case v_Accounts s k of Some ret \<Rightarrow> ret | None \<Rightarrow> 0)"

definition SaveAccount :: "Vault_Key \<Rightarrow> Amount \<Rightarrow> Vault \<Rightarrow> Vault" where
  "SaveAccount k amt s =
     s\<lparr>v_Logs := v_Logs s @ [(k, amt)],
       v_Accounts := (if amt \<noteq> 0 then (v_Accounts s)(k \<mapsto> amt) else (v_Accounts s)(k := None))\<rparr>"

definition Vault_Deposit :: "Vault_Request \<Rightarrow> Vault \<Rightarrow> Vault option" where
  "Vault_Deposit r s = do {
     total \<leftarrow> strict_Add (LoadAccount s (r_Key r)) (r_Amount r);
     FundsLock (m_Aid (r_Key r)) (r_Amount r) (SaveAccount (r_Key r) total s)
   }"

definition Vault_Withdraw :: "Vault_Request \<Rightarrow> Vault \<Rightarrow> Vault option" where
  "Vault_Withdraw r s = do {
     total \<leftarrow> strict_Sub (LoadAccount s (r_Key r)) (r_Amount r);
     s \<leftarrow> FundsUnlock (m_Aid (r_Key r)) (r_Amount r) (SaveAccount (r_Key r) total s);
     AddSig (m_Account (r_Key r)) s
   }"

section \<open>The vault is a ledger\<close>

lemma Vault_frame:
  "Host.more (s :: Vault) = Host.more s' \<Longrightarrow> v_Accounts s = v_Accounts s' \<and> v_Logs s = v_Logs s'"
  by (cases s; cases s') simp

lemma LoadAccount_cong: "Host.more s = Host.more s' \<Longrightarrow> LoadAccount s = LoadAccount s'"
  using Vault_frame [of s s'] by (simp add: LoadAccount_def fun_eq_iff)

interpretation vault: ledger FundsLock FundsUnlock my_funds in_call LoadAccount SaveAccount "\<lambda>s :: Vault. m_Aid"
proof unfold_locales
  fix s s' :: Vault and k k' v a
  show "LoadAccount (SaveAccount k v s) k' = (if k' = k then v else LoadAccount s k')"
    by (simp add: LoadAccount_def SaveAccount_def)
  show "my_funds (SaveAccount k v s) = my_funds s" "in_call (SaveAccount k v s) = in_call s"
    by (simp_all add: SaveAccount_def my_funds_def locked_def in_call_def fun_eq_iff)
  show "LoadAccount s' = LoadAccount s \<and> m_Aid = m_Aid" if "in_call s" "FundsLock a v s = Some s'"
    using LoadAccount_cong [OF FundsLock_SomeD(3) [OF that(2,1)]] by simp
  show "LoadAccount s' = LoadAccount s \<and> m_Aid = m_Aid" if "in_call s" "FundsUnlock a v s = Some s'"
    using LoadAccount_cong [OF FundsUnlock_SomeD(4) [OF that(2,1)]] by simp
qed simp_all

lemma Vault_Deposit_eq: "Vault_Deposit r s = vault.deposit (r_Key r) (r_Amount r) s"
  by (simp add: Vault_Deposit_def vault.deposit_def)

lemma Vault_Withdraw_eq:
  "Vault_Withdraw r s = vault.withdraw (r_Key r) (r_Amount r) s \<bind> AddSig (m_Account (r_Key r))"
  by (simp add: Vault_Withdraw_def vault.withdraw_def)

lemma Vault_withdraw_frame:
  assumes "vault.withdraw k v (begin_call cid ht s) = Some s'"
  shows "h_Calls s' = [cid]" "h_Sigs s' = []" "h_ImportNnz s' = h_ImportNnz s"
    "h_FundsIO s' = FundsChangeMap_Add v (m_Aid k) False Map.empty"
proof -
  obtain t where "FundsUnlock (m_Aid k) v (SaveAccount k t (begin_call cid ht s)) = Some s'"
    using assms by (auto simp: vault.withdraw_def split: bind_splits)
  note u = FundsUnlock_SomeD [OF this]
  show "h_Calls s' = [cid]" "h_Sigs s' = []" "h_ImportNnz s' = h_ImportNnz s"
    "h_FundsIO s' = FundsChangeMap_Add v (m_Aid k) False Map.empty"
    using u(5,7,8,10) by (simp_all add: SaveAccount_def in_call_def)
qed

lemma Vault_deposit_frame:
  assumes "Vault_Deposit r (begin_call cid ht s) = Some s'"
  shows "h_Calls s' = [cid]" "h_ImportNnz s' = h_ImportNnz s"
proof -
  obtain t where "FundsLock (m_Aid (r_Key r)) (r_Amount r) (SaveAccount (r_Key r) t (begin_call cid ht s)) = Some s'"
    using assms by (auto simp: Vault_Deposit_def split: bind_splits)
  note u = FundsLock_SomeD [OF this]
  show "h_Calls s' = [cid]" "h_ImportNnz s' = h_ImportNnz s"
    using u(4,6) by (simp_all add: SaveAccount_def in_call_def)
qed

text \<open>The funds locked in the vault are the sum of its accounts, asset by asset.\<close>

definition Vault_covers :: "ContractID \<Rightarrow> Vault \<Rightarrow> bool" where
  "Vault_covers cid s \<longleftrightarrow> finite {k. LoadAccount s k \<noteq> 0} \<and>
     (\<forall>a. locked s cid a = group_sum (\<lambda>k. m_Aid k = a) (LoadAccount s))"

lemma solvent_iff_covers: "h_Calls s = cid # cs \<Longrightarrow> vault.solvent s \<longleftrightarrow> Vault_covers cid s"
  by (simp add: vault.solvent_def vault.sum_held Vault_covers_def in_call_def my_funds_def)

lemma covers_cong: "LoadAccount s' = LoadAccount s \<Longrightarrow> locked s' cid = locked s cid \<Longrightarrow> Vault_covers cid s' = Vault_covers cid s"
  by (simp add: Vault_covers_def)

lemma LoadAccount_begin_call [simp]: "LoadAccount (begin_call cid ht s) = LoadAccount s"
  by (rule LoadAccount_cong) simp

lemma Vault_Deposit_SomeD:
  assumes "Vault_Deposit r (begin_call cid ht s) = Some s'" and "Vault_covers cid s"
  shows "Vault_covers cid s'"
    "LoadAccount s' = (LoadAccount s)(r_Key r := LoadAccount s (r_Key r) + r_Amount r)"
    "unat (LoadAccount s' (r_Key r)) = unat (LoadAccount s (r_Key r)) + unat (r_Amount r)"
proof -
  have sv: "vault.solvent (begin_call cid ht s)"
    using assms(2) by (simp add: solvent_iff_covers [of _ cid "[]"] covers_cong [of "begin_call cid ht s" s])
  note d = vault.deposit_solvent [OF sv assms(1) [unfolded Vault_Deposit_eq]]
  show "Vault_covers cid s'" using d(1) Vault_deposit_frame(1) [OF assms(1)] by (simp add: solvent_iff_covers [of _ cid "[]"])
  show "LoadAccount s' = (LoadAccount s)(r_Key r := LoadAccount s (r_Key r) + r_Amount r)"
    "unat (LoadAccount s' (r_Key r)) = unat (LoadAccount s (r_Key r)) + unat (r_Amount r)"
    using d(2,3) by simp_all
qed

lemma Vault_Withdraw_SomeD:
  assumes "Vault_Withdraw r (begin_call cid ht s) = Some s'" and "Vault_covers cid s"
  shows "Vault_covers cid s'"
    "LoadAccount s' = (LoadAccount s)(r_Key r := LoadAccount s (r_Key r) - r_Amount r)"
    "unat (r_Amount r) \<le> unat (LoadAccount s (r_Key r))"
    "h_Sigs s' = [m_Account (r_Key r)]"
    "io_value (h_FundsIO s') a = (if a = m_Aid (r_Key r) then unat (r_Amount r) else 0)"
    "h_ImportNnz s' = h_ImportNnz s"
proof -
  have sv: "vault.solvent (begin_call cid ht s)"
    using assms(2) by (simp add: solvent_iff_covers [of _ cid "[]"] covers_cong [of "begin_call cid ht s" s])
  obtain s1 where 1: "vault.withdraw (r_Key r) (r_Amount r) (begin_call cid ht s) = Some s1"
    "AddSig (m_Account (r_Key r)) s1 = Some s'"
    using assms(1) by (auto simp: Vault_Withdraw_eq split: bind_splits)
  note d = vault.withdraw_solvent [OF sv 1(1)] and a = AddSig_SomeD [OF 1(2)]
  note c = Vault_withdraw_frame [OF 1(1)]
  have l: "LoadAccount s' = LoadAccount s1" by (rule LoadAccount_cong) (simp add: a)
  show "Vault_covers cid s'"
    using d(1) c(1) covers_cong [OF l, of cid] a(7) by (simp add: solvent_iff_covers [of s1 cid "[]"])
  show "LoadAccount s' = (LoadAccount s)(r_Key r := LoadAccount s (r_Key r) - r_Amount r)"
    "unat (r_Amount r) \<le> unat (LoadAccount s (r_Key r))" "h_Sigs s' = [m_Account (r_Key r)]"
    "io_value (h_FundsIO s') a = (if a = m_Aid (r_Key r) then unat (r_Amount r) else 0)"
    "h_ImportNnz s' = h_ImportNnz s"
    using d(2,5) l c a(1) by (simp_all add: io_value_payout)
qed

section \<open>Reachable states\<close>

definition Vault_init :: "ContractID \<Rightarrow> (PubKey \<Rightarrow> bool) \<Rightarrow> Vault" where
  "Vault_init cid nnz = \<lparr>h_Calls = [cid], h_Height = 0, h_ImportNnz = nnz, h_Sigs = [], h_FundsIO = Map.empty,
     h_Locked = (\<lambda>c a. []), h_Refs = (\<lambda>c d. []), h_RefsTotal = (\<lambda>c. []), h_Code = (\<lambda>c. []),
     v_Accounts = Map.empty, v_Logs = []\<rparr>"

inductive Vault_step :: "ContractID \<Rightarrow> Vault \<Rightarrow> Vault \<Rightarrow> bool" for cid where
  deposit: "Vault_Deposit r (begin_call cid ht s) = Some s' \<Longrightarrow> Vault_step cid s s'"
| withdraw: "Vault_Withdraw r (begin_call cid ht s) = Some s' \<Longrightarrow> Vault_step cid s s'"
| others: "others_move cid s s' \<Longrightarrow> Vault_step cid s s'"

inductive Vault_reach :: "ContractID \<Rightarrow> (PubKey \<Rightarrow> bool) \<Rightarrow> Vault \<Rightarrow> bool" for cid nnz where
  init: "Vault_reach cid nnz (Vault_init cid nnz)"
| step: "Vault_reach cid nnz s \<Longrightarrow> Vault_step cid s s' \<Longrightarrow> Vault_reach cid nnz s'"

lemma Vault_init_covers: "Vault_covers cid (Vault_init cid nnz)"
proof -
  have "LoadAccount (Vault_init cid nnz) = (\<lambda>k. 0)" by (simp add: LoadAccount_def Vault_init_def fun_eq_iff)
  then show ?thesis by (simp add: Vault_covers_def Vault_init_def locked_def LoadFixedOrZero_def group_sum_zero)
qed

lemma Vault_step_covers: "Vault_step cid s s' \<Longrightarrow> Vault_covers cid s \<Longrightarrow> Vault_covers cid s'"
proof (induction rule: Vault_step.induct)
  case (others s s')
  then show ?case
    using others_moveD [OF others.hyps] LoadAccount_cong [of s' s] covers_cong [of s' s cid] by simp
qed (auto dest: Vault_Deposit_SomeD Vault_Withdraw_SomeD)

lemma Vault_reach_inv: "Vault_reach cid nnz s \<Longrightarrow> Vault_covers cid s \<and> h_ImportNnz s = nnz"
proof (induction rule: Vault_reach.induct)
  case (step s s')
  from step.hyps(2) have "h_ImportNnz s' = h_ImportNnz s"
    using step.IH by cases (auto dest: Vault_deposit_frame Vault_Withdraw_SomeD(6) others_moveD(3))
  then show ?case using step Vault_step_covers by blast
qed (simp_all add: Vault_init_covers, simp add: Vault_init_def)

text \<open>A vault with one account.\<close>

definition Vault_key1 :: Vault_Key where
  "Vault_key1 = \<lparr>m_Account = \<lparr>m_X = 1, m_Y = 0\<rparr>, m_Aid = 3\<rparr>"

definition Vault_nnz :: "PubKey \<Rightarrow> bool" where
  "Vault_nnz pk \<longleftrightarrow> m_X pk \<noteq> 0"

lemma Vault_reach_example: "\<exists>s. Vault_reach 7 Vault_nnz s \<and> LoadAccount s Vault_key1 = 5"
proof -
  let ?s = "Vault_init 7 Vault_nnz" and ?r = "\<lparr>r_Key = Vault_key1, r_Amount = 5\<rparr>"
  have l: "LoadAccount ?s = (\<lambda>k. 0)" by (simp add: LoadAccount_def Vault_init_def fun_eq_iff)
  obtain t where t: "strict_Add (0 :: Amount) 5 = Some t" by (simp add: strict_Add_eq)
  have "my_funds (SaveAccount k t (begin_call 7 0 ?s)) a + unat (5 :: Amount) < 2 ^ 128" for k a
    by (simp add: my_funds_def locked_def SaveAccount_def begin_call_def Vault_init_def LoadFixedOrZero_def)
  then obtain s' where s': "Vault_Deposit ?r (begin_call 7 0 ?s) = Some s'"
    using FundsLock_enabled [of "SaveAccount Vault_key1 t (begin_call 7 0 ?s)" "m_Aid Vault_key1" 5] t
    by (auto simp: Vault_Deposit_def l SaveAccount_def in_call_def)
  have "LoadAccount s' Vault_key1 = 5" using Vault_Deposit_SomeD(2) [OF s' Vault_init_covers] by (simp add: l)
  then show ?thesis using Vault_reach.step [OF Vault_reach.init Vault_step.deposit [OF s']] by blast
qed

text \<open>C6: The vault is always solvent.  In every state reachable by deposits, withdrawals and what other contracts do with
  their own funds, the amount of each asset locked in the vault is exactly the sum of its accounts in that asset.\<close>

theorem Vault_solvent:
  "Vault_reach cid nnz s \<Longrightarrow> Vault_covers cid s"
  by (simp add: Vault_reach_inv)


theorem Vault_solvent_witness:
  "\<exists>s. Vault_reach 7 Vault_nnz s \<and> LoadAccount s Vault_key1 = 5 \<and> Vault_covers 7 s"
  using Vault_reach_example Vault_solvent by blast

text \<open>C7: Nobody can be prevented from withdrawing.  In every reachable state, at every height, the owner of an account
  with a valid key withdraws any part of the balance: the call succeeds, takes the amount off this account and off no
  other, puts exactly this amount of exactly this asset into the transaction, and asks for the signature of the owner
  and of no one else.\<close>

theorem Vault_withdraw_possible:
  assumes "Vault_reach cid nnz s" and "nnz (m_Account (r_Key r))" and "r_Amount r \<le> LoadAccount s (r_Key r)"
  shows "\<exists>s'. Vault_Withdraw r (begin_call cid ht s) = Some s' \<and>
    LoadAccount s' = (LoadAccount s)(r_Key r := LoadAccount s (r_Key r) - r_Amount r) \<and>
    (\<forall>a. io_value (h_FundsIO s') a = (if a = m_Aid (r_Key r) then unat (r_Amount r) else 0)) \<and>
    h_Sigs s' = [m_Account (r_Key r)]"
proof -
  note inv = Vault_reach_inv [OF assms(1)]
  have "vault.solvent (begin_call cid ht s)"
    using inv by (simp add: solvent_iff_covers [of _ cid "[]"] covers_cong [of "begin_call cid ht s" s])
  then obtain s1 where 1: "vault.withdraw (r_Key r) (r_Amount r) (begin_call cid ht s) = Some s1"
    using vault.withdraw_enabled [of "begin_call cid ht s" "r_Amount r" "r_Key r"] assms(3) by (auto simp: word_le_nat_alt)
  then obtain s' where s': "Vault_Withdraw r (begin_call cid ht s) = Some s'"
    using assms(2) inv Vault_withdraw_frame(3) [OF 1] by (simp add: Vault_Withdraw_eq AddSig_def)
  show ?thesis
    using s' Vault_Withdraw_SomeD(2,4,5) [OF s'] inv by (intro exI [of _ s'] conjI allI) blast+
qed

theorem Vault_withdraw_possible_witness:
  "\<exists>s s'. Vault_reach 7 Vault_nnz s \<and>
     Vault_Withdraw \<lparr>r_Key = Vault_key1, r_Amount = 2\<rparr> (begin_call 7 100 s) = Some s' \<and> LoadAccount s' Vault_key1 = 3"
proof -
  obtain s where s: "Vault_reach 7 Vault_nnz s" "LoadAccount s Vault_key1 = 5" using Vault_reach_example by blast
  show ?thesis
    using Vault_withdraw_possible [OF s(1), of "\<lparr>r_Key = Vault_key1, r_Amount = 2\<rparr>" 100] s
    by (fastforce simp: Vault_key1_def Vault_nnz_def)
qed

end
