(* ===== verification/Contract_Voting.thy ===== *)
theory Contract_Voting
  imports Bvm_Host
begin

text \<open>
  The voting contract (\<open>src/bvm/Shaders/voting\<close>).  A proposal has a range of heights, an asset and a tally per variant;
  a vote locks coins of this asset on the account of the voter for this proposal, and the coins can be taken back when
  the voting is over.  The contract is a ledger whose accounts belong to proposals, so its funds are the sum of its
  accounts; while the voting goes on, the tally is the sum of the accounts of the proposal.
\<close>

section \<open>The contract\<close>

record Voting_Params =
  m_hMin :: Height
  m_hMax :: Height
  p_Aid :: AssetID

record Voting_Proposal =
  m_Params :: Voting_Params
  m_pAmount :: "Amount list"

record UserKey =
  m_ID :: "256 word"
  m_Pk :: PubKey

record Voting = Host +
  vt_Proposals :: "256 word \<rightharpoonup> Voting_Proposal"
  vt_Accounts :: "UserKey \<rightharpoonup> Amount"

definition s_MaxVariants :: u32 where
  "s_MaxVariants = 128"

definition Voting_OpenProposal :: "256 word \<Rightarrow> Voting_Params \<Rightarrow> u32 \<Rightarrow> Voting \<Rightarrow> Voting option" where
  "Voting_OpenProposal i pars nVariants s = do {
     Halt_if (m_hMin pars > m_hMax pars \<or> m_hMax pars < h_Height s \<or> nVariants = 0 \<or> nVariants > s_MaxVariants);
     let p = \<lparr>m_Params = pars, m_pAmount = replicate (unat nVariants) 0\<rparr>;
     Halt_if (vt_Proposals s i \<noteq> None);
     Some (s\<lparr>vt_Proposals := (vt_Proposals s)(i \<mapsto> p)\<rparr>)
   }"

definition HandleUserAccount :: "UserKey \<Rightarrow> Amount \<Rightarrow> bool \<Rightarrow> Voting \<Rightarrow> Voting option" where
  "HandleUserAccount key amt bAdd s = do {
     let total = (case vt_Accounts s key of Some t \<Rightarrow> t | None \<Rightarrow> 0);
     total \<leftarrow> (if bAdd then strict_Add total amt else strict_Sub total amt);
     Some (s\<lparr>vt_Accounts := (if total \<noteq> 0 then (vt_Accounts s)(key \<mapsto> total) else (vt_Accounts s)(key := None))\<rparr>)
   }"

definition Voting_Vote :: "UserKey \<Rightarrow> Amount \<Rightarrow> u32 \<Rightarrow> Voting \<Rightarrow> Voting option" where
  "Voting_Vote key amt iVariant s = do {
     p \<leftarrow> vt_Proposals s (m_ID key);
     Halt_if (h_Height s < m_hMin (m_Params p) \<or> h_Height s > m_hMax (m_Params p));
     Halt_if (unat iVariant \<ge> length (m_pAmount p));
     t \<leftarrow> strict_Add (m_pAmount p ! unat iVariant) amt;
     let p = p\<lparr>m_pAmount := (m_pAmount p)[unat iVariant := t]\<rparr>;
     s \<leftarrow> HandleUserAccount key amt True (s\<lparr>vt_Proposals := (vt_Proposals s)(m_ID key \<mapsto> p)\<rparr>);
     FundsLock (p_Aid (m_Params p)) amt s
   }"

definition Voting_Withdraw :: "UserKey \<Rightarrow> Amount \<Rightarrow> Voting \<Rightarrow> Voting option" where
  "Voting_Withdraw key amt s = do {
     p \<leftarrow> vt_Proposals s (m_ID key);
     Halt_if (m_hMax (m_Params p) \<ge> h_Height s);
     s \<leftarrow> HandleUserAccount key amt False s;
     s \<leftarrow> FundsUnlock (p_Aid (m_Params p)) amt s;
     AddSig (m_Pk key) s
   }"

text \<open>Reading returns the number of variants and fills what fits into the buffer of the caller.\<close>

definition Voting_Read :: "256 word \<Rightarrow> u32 \<Rightarrow> Voting \<Rightarrow> u32 \<times> (Voting_Params \<times> Amount list) option" where
  "Voting_Read i nVariants s =
     (case vt_Proposals s i of
        None \<Rightarrow> (0, None)
      | Some p \<Rightarrow> (of_nat (length (m_pAmount p)), Some (m_Params p, take (unat nVariants) (m_pAmount p))))"

section \<open>Voting as a ledger\<close>

definition vt_load :: "Voting \<Rightarrow> UserKey \<Rightarrow> Amount" where
  "vt_load s k = (case vt_Accounts s k of Some t \<Rightarrow> t | None \<Rightarrow> 0)"

definition vt_save :: "UserKey \<Rightarrow> Amount \<Rightarrow> Voting \<Rightarrow> Voting" where
  "vt_save k v s = s\<lparr>vt_Accounts := (if v \<noteq> 0 then (vt_Accounts s)(k \<mapsto> v) else (vt_Accounts s)(k := None))\<rparr>"

definition vt_asset :: "Voting \<Rightarrow> UserKey \<Rightarrow> AssetID" where
  "vt_asset s k = (case vt_Proposals s (m_ID k) of Some p \<Rightarrow> p_Aid (m_Params p) | None \<Rightarrow> 0)"

lemma Voting_frame:
  "Host.more (s :: Voting) = Host.more s' \<Longrightarrow> vt_Proposals s = vt_Proposals s' \<and> vt_Accounts s = vt_Accounts s'"
  by (cases s; cases s') simp

lemma vt_cong:
  assumes "Host.more s = Host.more s'"
  shows "vt_load s = vt_load s'" "vt_asset s = vt_asset s'" "vt_Proposals s = vt_Proposals s'"
  using Voting_frame [OF assms] by (simp_all add: vt_load_def vt_asset_def fun_eq_iff)

interpretation voting: ledger FundsLock FundsUnlock my_funds in_call vt_load vt_save vt_asset
proof unfold_locales
  fix s s' :: Voting and k k' v a
  show "vt_load (vt_save k v s) k' = (if k' = k then v else vt_load s k')"
    by (simp add: vt_load_def vt_save_def)
  show "my_funds (vt_save k v s) = my_funds s" "in_call (vt_save k v s) = in_call s" "vt_asset (vt_save k v s) = vt_asset s"
    by (simp_all add: vt_save_def vt_asset_def my_funds_def locked_def in_call_def fun_eq_iff)
  show "vt_load s' = vt_load s \<and> vt_asset s' = vt_asset s" if "in_call s" "FundsLock a v s = Some s'"
    using vt_cong [OF FundsLock_SomeD(3) [OF that(2,1)]] by simp
  show "vt_load s' = vt_load s \<and> vt_asset s' = vt_asset s" if "in_call s" "FundsUnlock a v s = Some s'"
    using vt_cong [OF FundsUnlock_SomeD(4) [OF that(2,1)]] by simp
qed

lemma vt_solvent_iff:
  "voting.solvent s \<longleftrightarrow> h_Calls s \<noteq> [] \<and> finite {k. vt_load s k \<noteq> 0} \<and>
    (\<forall>a. locked s (hd (h_Calls s)) a = group_sum (\<lambda>k. vt_asset s k = a) (vt_load s))"
  unfolding voting.solvent_def voting.sum_held by (simp add: in_call_def my_funds_def)

definition vt_tally :: "256 word \<Rightarrow> Voting_Proposal \<Rightarrow> Voting \<Rightarrow> Voting" where
  "vt_tally i p s = s\<lparr>vt_Proposals := (vt_Proposals s)(i \<mapsto> p)\<rparr>"

lemma vt_tally_frame:
  assumes "vt_Proposals s i = Some p" and "m_Params p' = m_Params p"
  shows "vt_load (vt_tally i p' s) = vt_load s" "vt_asset (vt_tally i p' s) = vt_asset s"
    "my_funds (vt_tally i p' s) = my_funds s" "in_call (vt_tally i p' s) = in_call s"
  using assms by (auto simp: vt_tally_def vt_load_def vt_asset_def my_funds_def locked_def in_call_def fun_eq_iff)

lemma HandleUserAccount_eq:
  "HandleUserAccount k v True s = strict_Add (vt_load s k) v \<bind> (\<lambda>t. Some (vt_save k t s))"
  "HandleUserAccount k v False s = strict_Sub (vt_load s k) v \<bind> (\<lambda>t. Some (vt_save k t s))"
  by (simp_all add: HandleUserAccount_def vt_load_def vt_save_def Let_def)

lemma Voting_Vote_SomeD:
  assumes "Voting_Vote k v i s = Some s'"
  obtains p t where "vt_Proposals s (m_ID k) = Some p" "m_hMin (m_Params p) \<le> h_Height s" "h_Height s \<le> m_hMax (m_Params p)"
    "unat i < length (m_pAmount p)" "strict_Add (m_pAmount p ! unat i) v = Some t"
    "voting.deposit k v (vt_tally (m_ID k) (p\<lparr>m_pAmount := (m_pAmount p)[unat i := t]\<rparr>) s) = Some s'"
  using assms
  by (auto simp: Voting_Vote_def HandleUserAccount_eq voting.deposit_def Let_def Halt_if_def vt_asset_def vt_tally_def
      not_less not_le split: bind_splits if_splits)

lemma Voting_Withdraw_SomeD:
  assumes "Voting_Withdraw k v s = Some s'"
  obtains p s1 where "vt_Proposals s (m_ID k) = Some p" "m_hMax (m_Params p) < h_Height s"
    "voting.withdraw k v s = Some s1" "AddSig (m_Pk k) s1 = Some s'"
  using assms
  by (auto simp: Voting_Withdraw_def HandleUserAccount_eq voting.withdraw_def Let_def Halt_if_def vt_asset_def
      not_less not_le split: bind_splits if_splits)

lemma vt_save_frame [simp]:
  "vt_Proposals (vt_save k t s) = vt_Proposals s" "h_Height (vt_save k t s) = h_Height s" "h_Calls (vt_save k t s) = h_Calls s"
  "h_ImportNnz (vt_save k t s) = h_ImportNnz s" "h_Sigs (vt_save k t s) = h_Sigs s" "h_FundsIO (vt_save k t s) = h_FundsIO s"
  "in_call (vt_save k t s) = in_call s"
  by (simp_all add: vt_save_def in_call_def)

lemma vt_deposit_frame:
  assumes "voting.deposit k v s = Some s'" and "in_call s"
  shows "vt_Proposals s' = vt_Proposals s" "h_Height s' = h_Height s" "h_Calls s' = h_Calls s" "h_ImportNnz s' = h_ImportNnz s"
proof -
  obtain t where "FundsLock (vt_asset s k) v (vt_save k t s) = Some s'"
    using assms(1) by (auto simp: voting.deposit_def split: bind_splits)
  note u = FundsLock_SomeD [OF this]
  show "vt_Proposals s' = vt_Proposals s" using assms(2) u(3) vt_cong(3) [of s' "vt_save k t s"] by simp
  show "h_Height s' = h_Height s" "h_Calls s' = h_Calls s" "h_ImportNnz s' = h_ImportNnz s" using assms(2) u(4-6) by simp_all
qed

lemma vt_withdraw_frame:
  assumes "voting.withdraw k v s = Some s'" and "in_call s"
  shows "vt_Proposals s' = vt_Proposals s" "h_Height s' = h_Height s" "h_Calls s' = h_Calls s" "h_ImportNnz s' = h_ImportNnz s"
    "h_Sigs s' = h_Sigs s" "h_FundsIO s' = FundsChangeMap_Add v (vt_asset s k) False (h_FundsIO s)"
proof -
  obtain t where "FundsUnlock (vt_asset s k) v (vt_save k t s) = Some s'"
    using assms(1) by (auto simp: voting.withdraw_def split: bind_splits)
  note u = FundsUnlock_SomeD [OF this]
  show "vt_Proposals s' = vt_Proposals s" using assms(2) u(4) vt_cong(3) [of s' "vt_save k t s"] by simp
  show "h_Height s' = h_Height s" "h_Calls s' = h_Calls s" "h_ImportNnz s' = h_ImportNnz s" "h_Sigs s' = h_Sigs s"
    "h_FundsIO s' = FundsChangeMap_Add v (vt_asset s k) False (h_FundsIO s)"
    using assms(2) u(5-8,10) by simp_all
qed

section \<open>The invariant\<close>

definition tally :: "Voting_Proposal \<Rightarrow> nat" where
  "tally p = sum_list (map unat (m_pAmount p))"

definition votes :: "Voting \<Rightarrow> 256 word \<Rightarrow> nat" where
  "votes s i = group_sum (\<lambda>k. m_ID k = i) (vt_load s)"

definition tallies_ok :: "Voting \<Rightarrow> bool" where
  "tallies_ok s \<longleftrightarrow> (\<forall>k. vt_load s k \<noteq> 0 \<longrightarrow> vt_Proposals s (m_ID k) \<noteq> None) \<and>
     (\<forall>i p. vt_Proposals s i = Some p \<longrightarrow> votes s i \<le> tally p \<and> (h_Height s \<le> m_hMax (m_Params p) \<longrightarrow> votes s i = tally p))"

lemma tallies_okD:
  assumes "tallies_ok s" and "vt_Proposals s i = Some p"
  shows "votes s i \<le> tally p" "h_Height s \<le> m_hMax (m_Params p) \<Longrightarrow> votes s i = tally p"
  using assms by (auto simp: tallies_ok_def)

lemma tally_update:
  assumes "j < length (m_pAmount p)" and "strict_Add (m_pAmount p ! j) v = Some t"
  shows "tally (p\<lparr>m_pAmount := (m_pAmount p)[j := t]\<rparr>) = tally p + unat v"
proof -
  have "unat t = unat (m_pAmount p ! j) + unat v" by (rule strict_AddD [OF assms(2)])
  moreover have "m_pAmount p ! j \<in> set (m_pAmount p)" using assms(1) by simp
  then have "unat (m_pAmount p ! j) \<le> sum_list (map unat (m_pAmount p))" by (intro member_le_sum_list) simp_all
  ultimately show ?thesis
    using assms(1) sum_list_update [of j "map unat (m_pAmount p)" "unat t"] by (simp add: tally_def map_update)
qed

lemma vote_keeps:
  assumes "Voting_Vote k v j s = Some s'" and "voting.solvent s" and "tallies_ok s"
  shows "voting.solvent s' \<and> tallies_ok s'" "h_Height s' = h_Height s" "h_Calls s' = h_Calls s" "h_ImportNnz s' = h_ImportNnz s"
proof -
  from assms(1) obtain p t where p: "vt_Proposals s (m_ID k) = Some p" "h_Height s \<le> m_hMax (m_Params p)"
    "unat j < length (m_pAmount p)" "strict_Add (m_pAmount p ! unat j) v = Some t"
    and d: "voting.deposit k v (vt_tally (m_ID k) (p\<lparr>m_pAmount := (m_pAmount p)[unat j := t]\<rparr>) s) = Some s'"
    by (rule Voting_Vote_SomeD)
  let ?p = "p\<lparr>m_pAmount := (m_pAmount p)[unat j := t]\<rparr>"
  let ?s = "vt_tally (m_ID k) ?p s"
  note fr = vt_tally_frame [OF p(1), of ?p, simplified]
  have c: "in_call ?s" and fin: "finite {k. vt_load s k \<noteq> 0}"
    using assms(2) by (simp_all add: voting.solvent_def fr)
  have sv: "voting.solvent ?s" using assms(2) by (simp add: voting.solvent_def voting.sum_held fr)
  note l = voting.deposit_solvent [OF sv d, unfolded fr] and f = vt_deposit_frame [OF d c]
  have P: "vt_Proposals s' = (vt_Proposals s)(m_ID k \<mapsto> ?p)" using f(1) by (simp add: vt_tally_def)
  show h: "h_Height s' = h_Height s" "h_Calls s' = h_Calls s" "h_ImportNnz s' = h_ImportNnz s"
    using f by (simp_all add: vt_tally_def)
  have v: "votes s' i = votes s i + (if i = m_ID k then unat v else 0)" for i
    using group_sum_update [OF fin, of "\<lambda>k. m_ID k = i" k "vt_load s k + v"] l(2,3) by (auto simp: votes_def)
  have "tallies_ok s'"
    using assms(3) tallies_okD [OF assms(3) p(1)] p(2) l(2) tally_update [OF p(3,4)]
    unfolding tallies_ok_def P v h by auto
  then show "voting.solvent s' \<and> tallies_ok s'" using l(1) by simp
qed

lemma withdraw_keeps:
  assumes "Voting_Withdraw k v s = Some s'" and "voting.solvent s" and "tallies_ok s"
  shows "voting.solvent s' \<and> tallies_ok s'" "h_Height s' = h_Height s" "h_Calls s' = h_Calls s" "h_ImportNnz s' = h_ImportNnz s"
    "vt_Proposals s' = vt_Proposals s" "vt_load s' = (vt_load s)(k := vt_load s k - v)"
    "h_Sigs s' = h_Sigs s @ [m_Pk k]" "h_FundsIO s' = FundsChangeMap_Add v (vt_asset s k) False (h_FundsIO s)"
proof -
  from assms(1) obtain p s1 where p: "vt_Proposals s (m_ID k) = Some p" "m_hMax (m_Params p) < h_Height s"
    and w: "voting.withdraw k v s = Some s1" and a: "AddSig (m_Pk k) s1 = Some s'"
    by (rule Voting_Withdraw_SomeD)
  have c: "in_call s" and fin: "finite {k. vt_load s k \<noteq> 0}" using assms(2) by (simp_all add: voting.solvent_def)
  note l = voting.withdraw_solvent [OF assms(2) w] and f = vt_withdraw_frame [OF w c] and sg = AddSig_SomeD [OF a]
  note g = vt_cong [OF sg(5)]
  show P: "vt_Proposals s' = vt_Proposals s" and L: "vt_load s' = (vt_load s)(k := vt_load s k - v)" using f(1) g l(2) by simp_all
  show h: "h_Height s' = h_Height s" "h_Calls s' = h_Calls s" "h_ImportNnz s' = h_ImportNnz s"
    "h_Sigs s' = h_Sigs s @ [m_Pk k]" "h_FundsIO s' = FundsChangeMap_Add v (vt_asset s k) False (h_FundsIO s)"
    using f(2-6) sg(1) by simp_all
  have v: "votes s' i + (if i = m_ID k then unat v else 0) = votes s i" for i
    using group_sum_update [OF fin, of "\<lambda>k. m_ID k = i" k "vt_load s k - v"] l(2,3,5) L
      group_sum_ge [OF fin, of "\<lambda>k. m_ID k = i" k] by (auto simp: votes_def)
  have "tallies_ok s'"
    unfolding tallies_ok_def P h
  proof (intro conjI allI impI)
    fix i q assume q: "vt_Proposals s i = Some q"
    note t = tallies_okD [OF assms(3) q]
    show "votes s' i \<le> tally q" using t(1) v [of i] by simp
    assume b: "h_Height s \<le> m_hMax (m_Params q)"
    then have "i \<noteq> m_ID k" using p q by auto
    then show "votes s' i = tally q" using t(2) [OF b] v [of i] by simp
  qed (use assms(3) p(1) L in \<open>auto simp: tallies_ok_def split: if_splits\<close>)
  moreover have "voting.solvent s'"
    using l(1) sg(3,4) g by (simp add: voting.solvent_def voting.sum_held)
  ultimately show "voting.solvent s' \<and> tallies_ok s'" by simp
qed

lemma open_keeps:
  assumes "Voting_OpenProposal i pars n s = Some s'" and "voting.solvent s" and "tallies_ok s"
  shows "voting.solvent s' \<and> tallies_ok s'" "h_Height s' = h_Height s" "h_Calls s' = h_Calls s" "h_ImportNnz s' = h_ImportNnz s"
proof -
  have n: "vt_Proposals s i = None"
    and s': "s' = s\<lparr>vt_Proposals := (vt_Proposals s)(i \<mapsto> \<lparr>m_Params = pars, m_pAmount = replicate (unat n) 0\<rparr>)\<rparr>"
    using assms(1) by (auto simp: Voting_OpenProposal_def Let_def Halt_if_def split: if_splits)
  show h: "h_Height s' = h_Height s" "h_Calls s' = h_Calls s" "h_ImportNnz s' = h_ImportNnz s" by (simp_all add: s')
  have L: "vt_load s' = vt_load s" and m: "my_funds s' = my_funds s" "in_call s' = in_call s"
    by (simp_all add: s' vt_load_def my_funds_def locked_def in_call_def fun_eq_iff)
  have none: "m_ID k \<noteq> i" if "vt_load s k \<noteq> 0" for k
    using assms(3) n that unfolding tallies_ok_def by metis
  have "group_sum (\<lambda>k. vt_asset s' k = a) (vt_load s) = group_sum (\<lambda>k. vt_asset s k = a) (vt_load s)" for a
    by (rule group_sum_cong) (use none in \<open>simp add: vt_asset_def s'\<close>)
  then have "voting.solvent s'" using assms(2) by (simp add: voting.solvent_def voting.sum_held L m)
  moreover have "votes s' j = votes s j" for j by (simp add: votes_def L)
  moreover have "votes s i = 0" unfolding votes_def by (rule group_sum_zero) (use none in blast)
  ultimately show "voting.solvent s' \<and> tallies_ok s'"
    using assms(3) h(1) unfolding tallies_ok_def L by (auto simp: s' tally_def)
qed

section \<open>Reachable states\<close>

definition Voting_init :: "ContractID \<Rightarrow> (PubKey \<Rightarrow> bool) \<Rightarrow> Voting" where
  "Voting_init cid nnz = \<lparr>h_Calls = [cid], h_Height = 0, h_ImportNnz = nnz, h_Sigs = [], h_FundsIO = Map.empty,
     h_Locked = (\<lambda>c a. []), h_Refs = (\<lambda>c d. []), h_RefsTotal = (\<lambda>c. []), h_Code = (\<lambda>c. []),
     vt_Proposals = Map.empty, vt_Accounts = Map.empty\<rparr>"

inductive Voting_call :: "Voting \<Rightarrow> Voting \<Rightarrow> bool" where
  "Voting_OpenProposal i pars n s = Some s' \<Longrightarrow> Voting_call s s'"
| "Voting_Vote k v j s = Some s' \<Longrightarrow> Voting_call s s'"
| "Voting_Withdraw k v s = Some s' \<Longrightarrow> Voting_call s s'"

inductive Voting_reach :: "ContractID \<Rightarrow> (PubKey \<Rightarrow> bool) \<Rightarrow> Voting \<Rightarrow> bool" for cid nnz where
  init: "Voting_reach cid nnz (Voting_init cid nnz)"
| call: "Voting_reach cid nnz s \<Longrightarrow> h_Height s \<le> ht \<Longrightarrow> Voting_call (begin_call cid ht s) s' \<Longrightarrow> Voting_reach cid nnz s'"
| others: "Voting_reach cid nnz s \<Longrightarrow> others_move cid s s' \<Longrightarrow> Voting_reach cid nnz s'"

lemma Voting_call_keeps:
  assumes "Voting_call s s'" and "voting.solvent s" and "tallies_ok s"
  shows "voting.solvent s' \<and> tallies_ok s'" "h_Height s' = h_Height s" "h_Calls s' = h_Calls s" "h_ImportNnz s' = h_ImportNnz s"
  using assms by (cases; use open_keeps vote_keeps withdraw_keeps in simp)+

lemma vt_begin_call_keeps:
  assumes "voting.solvent s" and "tallies_ok s" and "h_Calls s = [cid]" and "h_Height s \<le> ht"
  shows "voting.solvent (begin_call cid ht s)" "tallies_ok (begin_call cid ht s)"
    "vt_load (begin_call cid ht s) = vt_load s" "vt_asset (begin_call cid ht s) = vt_asset s"
    "vt_Proposals (begin_call cid ht s) = vt_Proposals s"
proof -
  have c: "vt_load (begin_call cid ht s) = vt_load s" "vt_asset (begin_call cid ht s) = vt_asset s"
    "vt_Proposals (begin_call cid ht s) = vt_Proposals s"
    by (rule vt_cong; simp)+
  then show "vt_load (begin_call cid ht s) = vt_load s" "vt_asset (begin_call cid ht s) = vt_asset s"
    "vt_Proposals (begin_call cid ht s) = vt_Proposals s" by simp_all
  show "voting.solvent (begin_call cid ht s)"
    using assms(1,3) by (simp add: voting.solvent_def voting.sum_held c my_funds_def)
  show "tallies_ok (begin_call cid ht s)"
    using assms(2,4) by (auto simp: tallies_ok_def c votes_def dest: order_trans)
qed

lemma Voting_reach_inv:
  "Voting_reach cid nnz s \<Longrightarrow> voting.solvent s \<and> tallies_ok s \<and> h_Calls s = [cid] \<and> h_ImportNnz s = nnz"
proof (induction rule: Voting_reach.induct)
  case init
  have "vt_load (Voting_init cid nnz) = (\<lambda>k. 0)" by (simp add: vt_load_def Voting_init_def fun_eq_iff)
  then show ?case
    by (simp add: voting.solvent_def voting.sum_held group_sum_zero tallies_ok_def)
      (simp add: Voting_init_def in_call_def my_funds_def locked_def LoadFixedOrZero_def)
next
  case (call s ht s')
  then show ?case
    using Voting_call_keeps [OF call.hyps(3)] vt_begin_call_keeps [of s cid ht] by simp
next
  case (others s s')
  note o = others_moveD [OF others.hyps(2)]
  note c = vt_cong [OF o(2)]
  have "h_Height s' = h_Height s" using others.hyps(2) by (auto simp: others_move_def)
  then show ?case
    using others.IH o by (auto simp: vt_solvent_iff c tallies_ok_def votes_def)
qed

text \<open>A proposal with two variants and one voter.\<close>

definition Voting_key1 :: UserKey where
  "Voting_key1 = \<lparr>m_ID = 9, m_Pk = \<lparr>m_X = 1, m_Y = 0\<rparr>\<rparr>"

definition Voting_pars1 :: Voting_Params where
  "Voting_pars1 = \<lparr>m_hMin = 0, m_hMax = 10, p_Aid = 3\<rparr>"

definition Voting_nnz :: "PubKey \<Rightarrow> bool" where
  "Voting_nnz pk \<longleftrightarrow> m_X pk \<noteq> 0"

lemma Voting_example:
  "\<exists>s. Voting_reach 7 Voting_nnz s \<and> vt_load s Voting_key1 = 5 \<and> h_Height s = 1 \<and>
    vt_Proposals s 9 = Some \<lparr>m_Params = Voting_pars1, m_pAmount = [0, 5]\<rparr>"
proof -
  let ?s0 = "begin_call 7 0 (Voting_init 7 Voting_nnz)" and ?p = "\<lparr>m_Params = Voting_pars1, m_pAmount = [0, 0]\<rparr>"
  let ?s1 = "?s0\<lparr>vt_Proposals := [9 \<mapsto> ?p]\<rparr>"
  have two: "replicate 2 (0 :: Amount) = [0, 0]" by (simp add: numeral_2_eq_2)
  have "Voting_OpenProposal 9 Voting_pars1 2 ?s0 = Some ?s1"
    by (simp add: Voting_OpenProposal_def Voting_pars1_def Halt_if_def s_MaxVariants_def Let_def begin_call_def Voting_init_def
        two)
  then have "Voting_call ?s0 ?s1" by (rule Voting_call.intros)
  then have r1: "Voting_reach 7 Voting_nnz ?s1" by (intro Voting_reach.call [OF Voting_reach.init]) (simp_all add: Voting_init_def)
  let ?s2 = "begin_call 7 1 ?s1" and ?q = "\<lparr>m_Params = Voting_pars1, m_pAmount = [0, 5]\<rparr>"
  let ?s3 = "vt_save Voting_key1 5 (?s2\<lparr>vt_Proposals := [9 \<mapsto> ?q]\<rparr>)"
  have "my_funds ?s3 3 + unat (5 :: Amount) < 2 ^ 128"
    by (simp add: my_funds_def locked_def begin_call_def Voting_init_def LoadFixedOrZero_def vt_save_def)
  then obtain s4 where s4: "FundsLock 3 5 ?s3 = Some s4"
    using FundsLock_enabled [of ?s3 3 5] by (auto simp: in_call_def)
  have "Voting_Vote Voting_key1 5 1 ?s2 = Some s4"
    using s4 by (simp add: Voting_Vote_def HandleUserAccount_def Voting_key1_def Voting_pars1_def Halt_if_def Let_def
        strict_Add_eq begin_call_def Voting_init_def vt_save_def)
  then have "Voting_call ?s2 s4" by (rule Voting_call.intros)
  then have r: "Voting_reach 7 Voting_nnz s4" by (intro Voting_reach.call [OF r1]) (simp_all add: Voting_init_def)
  note f = FundsLock_SomeD [OF s4]
  have "Host.more s4 = Host.more ?s3" "h_Height s4 = 1" using f(3,5) by (simp_all add: in_call_def)
  moreover have "vt_load ?s3 Voting_key1 = 5" "vt_Proposals ?s3 9 = Some ?q" by (simp_all add: vt_load_def vt_save_def)
  ultimately show ?thesis
    using r vt_cong(1,3) [of s4 ?s3] by (intro exI [of _ s4]) simp
qed

text \<open>C8: Votes are backed by coins.  In every state the contract can reach while the height grows, its funds in each
  asset are the sum of the accounts of the proposals in this asset; a tally never counts less than the accounts of the
  proposal, and until the voting ends the tally over all variants is exactly the sum of these accounts.\<close>

theorem Voting_backed:
  assumes "Voting_reach cid nnz s"
  shows "locked s cid a = group_sum (\<lambda>k. vt_asset s k = a) (vt_load s) \<and>
    (\<forall>i p. vt_Proposals s i = Some p \<longrightarrow>
      group_sum (\<lambda>k. m_ID k = i) (vt_load s) \<le> sum_list (map unat (m_pAmount p)) \<and>
      (h_Height s \<le> m_hMax (m_Params p) \<longrightarrow>
        group_sum (\<lambda>k. m_ID k = i) (vt_load s) = sum_list (map unat (m_pAmount p))))"
  using Voting_reach_inv [OF assms] by (auto simp: vt_solvent_iff tallies_ok_def votes_def tally_def)

theorem Voting_backed_witness:
  "\<exists>s. Voting_reach 7 Voting_nnz s \<and> vt_load s Voting_key1 = 5 \<and>
    locked s 7 3 = group_sum (\<lambda>k. vt_asset s k = 3) (vt_load s) \<and> group_sum (\<lambda>k. m_ID k = 9) (vt_load s) = 5"
proof -
  obtain s where s: "Voting_reach 7 Voting_nnz s" "vt_load s Voting_key1 = 5" "h_Height s = 1"
    "vt_Proposals s 9 = Some \<lparr>m_Params = Voting_pars1, m_pAmount = [0, 5]\<rparr>"
    using Voting_example by blast
  then show ?thesis using Voting_backed [OF s(1), of 3] by (intro exI [of _ s]) (simp add: Voting_pars1_def)
qed

text \<open>C9: When the voting is over the result is final and the coins are free.  At every height after the last one of a
  proposal no vote for it succeeds, and every voter with a valid key takes back any part of the account: the call
  succeeds, pays exactly this amount in the asset of the proposal, asks for the signature of the voter and of no one
  else, and leaves every tally as it was.\<close>

theorem Voting_closed:
  assumes "Voting_reach cid nnz s" and "h_Height s \<le> ht" and "vt_Proposals s (m_ID k) = Some p" and "m_hMax (m_Params p) < ht"
    and "nnz (m_Pk k)" and "v \<le> vt_load s k"
  shows "(m_ID k' = m_ID k \<longrightarrow> Voting_Vote k' v' j (begin_call cid ht s) = None) \<and>
    (\<exists>s'. Voting_Withdraw k v (begin_call cid ht s) = Some s' \<and> vt_load s' = (vt_load s)(k := vt_load s k - v) \<and>
      vt_Proposals s' = vt_Proposals s \<and> h_Sigs s' = [m_Pk k] \<and>
      (\<forall>a. io_value (h_FundsIO s') a = (if a = p_Aid (m_Params p) then unat v else 0)))"
proof
  note inv = Voting_reach_inv [OF assms(1)]
  note b = vt_begin_call_keeps [of s cid ht]
  let ?s = "begin_call cid ht s"
  show "m_ID k' = m_ID k \<longrightarrow> Voting_Vote k' v' j ?s = None"
    using assms(3,4) inv b assms(2) by (auto simp: Voting_Vote_def Halt_if_def)
  have sv: "voting.solvent ?s" "tallies_ok ?s" and c: "vt_load ?s = vt_load s" "vt_Proposals ?s = vt_Proposals s" "vt_asset ?s = vt_asset s"
    using inv b assms(2) by simp_all
  obtain s1 where w: "voting.withdraw k v ?s = Some s1"
    using voting.withdraw_enabled [OF sv(1), of v k] assms(6) by (auto simp: c word_le_nat_alt)
  then have "h_ImportNnz s1 (m_Pk k)" using vt_withdraw_frame(4) [OF w] assms(5) inv by simp
  then obtain s' where s': "Voting_Withdraw k v ?s = Some s'"
    using w assms(3,4)
    by (auto simp: Voting_Withdraw_def HandleUserAccount_eq voting.withdraw_def c Halt_if_def not_le vt_asset_def AddSig_def
        split: bind_splits)
  note k = withdraw_keeps [OF s' sv]
  show "\<exists>s'. Voting_Withdraw k v ?s = Some s' \<and> vt_load s' = (vt_load s)(k := vt_load s k - v) \<and>
      vt_Proposals s' = vt_Proposals s \<and> h_Sigs s' = [m_Pk k] \<and>
      (\<forall>a. io_value (h_FundsIO s') a = (if a = p_Aid (m_Params p) then unat v else 0))"
    using s' k(5-8) assms(3) by (intro exI [of _ s']) (simp add: c io_value_payout, simp add: vt_asset_def)
qed

theorem Voting_closed_witness:
  "\<exists>s s'. Voting_reach 7 Voting_nnz s \<and> Voting_Vote Voting_key1 1 0 (begin_call 7 11 s) = None \<and>
    Voting_Withdraw Voting_key1 5 (begin_call 7 11 s) = Some s' \<and> vt_load s' Voting_key1 = 0"
proof -
  obtain s where s: "Voting_reach 7 Voting_nnz s" "vt_load s Voting_key1 = 5" "h_Height s = 1"
    "vt_Proposals s 9 = Some \<lparr>m_Params = Voting_pars1, m_pAmount = [0, 5]\<rparr>"
    using Voting_example by blast
  have "h_Height s \<le> 11" "vt_Proposals s (m_ID Voting_key1) = Some \<lparr>m_Params = Voting_pars1, m_pAmount = [0, 5]\<rparr>"
    "m_hMax (m_Params \<lparr>m_Params = Voting_pars1, m_pAmount = [0, 5]\<rparr>) < 11" "Voting_nnz (m_Pk Voting_key1)" "5 \<le> vt_load s Voting_key1"
    using s by (simp_all add: Voting_key1_def Voting_pars1_def Voting_nnz_def)
  from Voting_closed [OF s(1) this, of Voting_key1 1 0] show ?thesis using s(1,2) by fastforce
qed

end
