(* ===== verification/Rate_Limit.thy ===== *)
theory Rate_Limit
  imports Beam_Prelude
begin

text \<open>
  The argument behind the faucets: a counter that is restarted not earlier than a period after its last start, and
  never exceeds a limit, lets at most twice the limit through in any window of the length of the period.  The history
  is the list of heights and amounts, newest first.
\<close>

definition paid :: "(nat \<Rightarrow> bool) \<Rightarrow> (nat \<times> nat) list \<Rightarrow> nat" where
  "paid P hist = (\<Sum>(h, a) \<leftarrow> hist. if P h then a else 0)"

lemma paid_Nil [simp]: "paid P [] = 0"
  by (simp add: paid_def)

lemma paid_Cons [simp]: "paid P ((h, a) # hist) = (if P h then a else 0) + paid P hist"
  by (simp add: paid_def)

lemma paid_le:
  assumes "\<And>h a. (h, a) \<in> set hist \<Longrightarrow> P h \<Longrightarrow> Q h"
  shows "paid P hist \<le> paid Q hist"
  using assms
proof (induction hist)
  case (Cons e hist)
  obtain h a where e: "e = (h, a)" by (cases e)
  have "P h \<Longrightarrow> Q h" using Cons.prems [of h a] e by simp
  moreover have "paid P hist \<le> paid Q hist" by (rule Cons.IH) (use Cons.prems in auto)
  ultimately show ?case by (simp add: e)
qed simp

lemma paid_split: "paid P hist \<le> paid (\<lambda>h. P h \<and> Q h) hist + paid (\<lambda>h. P h \<and> \<not> Q h) hist"
  by (induction hist) auto

text \<open>The counter is absent, or started at a height and holds an amount.\<close>

definition lim_inv :: "nat \<Rightarrow> nat \<Rightarrow> nat \<Rightarrow> (nat \<times> nat) option \<Rightarrow> (nat \<times> nat) list \<Rightarrow> bool" where
  "lim_inv B M now acc hist \<longleftrightarrow>
     (\<forall>t. paid (\<lambda>h. t \<le> h \<and> h < t + B) hist \<le> 2 * M) \<and>
     (case acc of
        None \<Rightarrow> (\<forall>h \<in> fst ` set hist. h < now) \<and> paid (\<lambda>h. now < h + B) hist \<le> M
      | Some (h0, A) \<Rightarrow>
          (\<forall>h \<in> fst ` set hist. h < h0 + B) \<and> h0 \<le> now \<and> A \<le> M \<and> paid (\<lambda>h. h0 \<le> h) hist \<le> A \<and> paid (\<lambda>h. h < h0 \<and> h0 < h + B) hist \<le> M)"

lemma lim_init: "lim_inv B M now None []" "A \<le> M \<Longrightarrow> h0 \<le> now \<Longrightarrow> lim_inv B M now (Some (h0, A)) []"
  by (simp_all add: lim_inv_def)

lemma lim_window: "lim_inv B M now acc hist \<Longrightarrow> paid (\<lambda>h. t \<le> h \<and> h < t + B) hist \<le> 2 * M"
  by (simp add: lim_inv_def)

lemma lim_time:
  assumes "lim_inv B M now acc hist" and "now \<le> now'"
  shows "lim_inv B M now' acc hist"
proof (cases acc)
  case None
  have "paid (\<lambda>h. now' < h + B) hist \<le> paid (\<lambda>h. now < h + B) hist"
    by (rule paid_le) (use assms(2) in simp)
  then show ?thesis using assms None by (auto simp: lim_inv_def intro: less_le_trans)
next
  case (Some c)
  then show ?thesis using assms by (cases c) (auto simp: lim_inv_def)
qed

text \<open>What was paid in the last period before now, when the counter may be restarted.\<close>

lemma lim_recent:
  assumes "lim_inv B M now acc hist" and "acc = None \<or> (\<exists>h0 A. acc = Some (h0, A) \<and> h0 + B \<le> now)"
  shows "paid (\<lambda>h. now < h + B) hist \<le> M"
proof (cases acc)
  case (Some c)
  then obtain h0 A where c: "acc = Some (h0, A)" "h0 + B \<le> now" using assms(2) by auto
  have "paid (\<lambda>h. now < h + B) hist \<le> paid (\<lambda>h. h0 \<le> h) hist" by (rule paid_le) (use c(2) in simp)
  then show ?thesis using assms(1) c(1) by (simp add: lim_inv_def)
qed (use assms(1) in \<open>simp add: lim_inv_def\<close>)

lemma lim_drop:
  assumes "lim_inv B M now (Some (h0, A)) hist" and "h0 + B \<le> now"
  shows "lim_inv B M now None hist"
  using assms lim_recent [OF assms(1)] by (auto simp: lim_inv_def)

lemma lim_fresh:
  assumes "lim_inv B M now acc hist" and "acc = None \<or> (\<exists>h0 A. acc = Some (h0, A) \<and> h0 + B \<le> now)" and "a \<le> M" and "0 < B"
  shows "lim_inv B M now (Some (now, a)) ((now, a) # hist)"
proof -
  have past: "\<forall>h \<in> fst ` set hist. h < now" using assms(1,2) by (fastforce simp: lim_inv_def)
  have "paid (\<lambda>h. now \<le> h) hist \<le> paid (\<lambda>h. False) hist" by (rule paid_le) (use past in force)
  moreover have "paid (\<lambda>h. False) hist = 0" by (induction hist) auto
  moreover have r: "paid (\<lambda>h. now < h + B) hist \<le> M" by (rule lim_recent [OF assms(1,2)])
  moreover have "paid (\<lambda>h. h < now \<and> now < h + B) hist \<le> paid (\<lambda>h. now < h + B) hist" by (rule paid_le) simp
  moreover have "paid (\<lambda>h. t \<le> h \<and> h < t + B) ((now, a) # hist) \<le> 2 * M" for t
  proof (cases "t \<le> now \<and> now < t + B")
    case True
    have "paid (\<lambda>h. t \<le> h \<and> h < t + B) hist \<le> paid (\<lambda>h. now < h + B) hist" by (rule paid_le) (use True in simp)
    then show ?thesis using r assms(3) by simp
  next
    case False
    then show ?thesis using lim_window [OF assms(1), of t] by auto
  qed
  moreover have "\<forall>h \<in> fst ` set ((now, a) # hist). h < now + B" using past assms(4) by fastforce
  ultimately show ?thesis using assms(3) unfolding lim_inv_def by simp
qed

lemma lim_more:
  assumes "lim_inv B M now (Some (h0, A)) hist" and "now < h0 + B" and "A + a \<le> M"
  shows "lim_inv B M now (Some (h0, A + a)) ((now, a) # hist)"
proof -
  have i: "h0 \<le> now" "paid (\<lambda>h. h0 \<le> h) hist \<le> A" "paid (\<lambda>h. h < h0 \<and> h0 < h + B) hist \<le> M"
    "\<forall>h \<in> fst ` set hist. h < h0 + B"
    using assms(1) by (simp_all add: lim_inv_def)
  have "paid (\<lambda>h. t \<le> h \<and> h < t + B) ((now, a) # hist) \<le> 2 * M" for t
  proof (cases "t \<le> now \<and> now < t + B")
    case True
    let ?W = "\<lambda>h. t \<le> h \<and> h < t + B"
    have "paid (\<lambda>h. ?W h \<and> h0 \<le> h) hist \<le> paid (\<lambda>h. h0 \<le> h) hist" by (rule paid_le) simp
    moreover have "paid (\<lambda>h. ?W h \<and> \<not> h0 \<le> h) hist \<le> paid (\<lambda>h. h < h0 \<and> h0 < h + B) hist"
      by (rule paid_le) (use True i(1) in simp)
    ultimately show ?thesis using paid_split [of ?W hist "\<lambda>h. h0 \<le> h"] i assms(3) True by simp
  next
    case False
    then show ?thesis using lim_window [OF assms(1), of t] by auto
  qed
  moreover have "\<forall>h \<in> fst ` set ((now, a) # hist). h < h0 + B" using i(4) assms(2) by simp
  ultimately show ?thesis using i assms(3) unfolding lim_inv_def by simp
qed

end
