(* ===== verification/Contract_Faucet.thy ===== *)
theory Contract_Faucet
  imports Bvm_Host Rate_Limit
begin

text \<open>
  The faucet contract (\<open>src/bvm/Shaders/faucet\<close>): everybody deposits, and every key withdraws up to a limit per asset and
  per period.  The account of a key and an asset holds the height at which its period started and the amount withdrawn
  since.
\<close>

section \<open>The contract\<close>

record Faucet_Params =
  m_BacklogPeriod :: Height
  m_MaxWithdraw :: Amount

record Faucet_Key =
  k_Account :: PubKey
  k_Aid :: AssetID

record AccountData =
  m_h0 :: Height
  ad_Amount :: Amount

record Faucet = Host +
  f_Params :: Faucet_Params
  f_Accounts :: "Faucet_Key \<rightharpoonup> AccountData"

definition Faucet_Ctor :: "Faucet_Params \<Rightarrow> Faucet \<Rightarrow> Faucet" where
  "Faucet_Ctor r s = s\<lparr>f_Params := r\<rparr>"

definition Faucet_Deposit :: "AssetID \<Rightarrow> Amount \<Rightarrow> Faucet \<Rightarrow> Faucet option" where
  "Faucet_Deposit aid amt s = FundsLock aid amt s"

definition Faucet_Withdraw :: "Faucet_Key \<Rightarrow> Amount \<Rightarrow> Faucet \<Rightarrow> Faucet option" where
  "Faucet_Withdraw key amt s =
     (let h = h_Height s;
          pars = f_Params s;
          bEmpty = (case f_Accounts s key of None \<Rightarrow> True | Some ad \<Rightarrow> h - m_h0 ad \<ge> m_BacklogPeriod pars)
      in (if amt \<noteq> 0 then do {
            ad \<leftarrow> (case f_Accounts s key of
                    Some ad \<Rightarrow>
                      if bEmpty then Some \<lparr>m_h0 = h, ad_Amount = amt\<rparr>
                      else do { a \<leftarrow> strict_Add (ad_Amount ad) amt; Some (ad\<lparr>ad_Amount := a\<rparr>) }
                  | None \<Rightarrow> Some \<lparr>m_h0 = h, ad_Amount = amt\<rparr>);
            Halt_if (ad_Amount ad > m_MaxWithdraw pars);
            FundsUnlock (k_Aid key) amt (s\<lparr>f_Accounts := (f_Accounts s)(key \<mapsto> ad)\<rparr>)
          }
          else Some (if f_Accounts s key \<noteq> None \<and> bEmpty then s\<lparr>f_Accounts := (f_Accounts s)(key := None)\<rparr> else s))
         \<bind> AddSig (k_Account key))"

section \<open>The limit\<close>

definition counter :: "Faucet \<Rightarrow> Faucet_Key \<Rightarrow> (nat \<times> nat) option" where
  "counter s k = map_option (\<lambda>ad. (unat (m_h0 ad), unat (ad_Amount ad))) (f_Accounts s k)"

text \<open>The withdrawals of one key from the history of all, newest first.\<close>

definition of_key :: "Faucet_Key \<Rightarrow> (Height \<times> Faucet_Key \<times> Amount) list \<Rightarrow> (nat \<times> nat) list" where
  "of_key k hist = [(unat h, unat a). (h, k', a) \<leftarrow> hist, k' = k]"

definition faucet_ok :: "Faucet \<Rightarrow> (Height \<times> Faucet_Key \<times> Amount) list \<Rightarrow> bool" where
  "faucet_ok s hist \<longleftrightarrow> (\<forall>k. lim_inv (unat (m_BacklogPeriod (f_Params s))) (unat (m_MaxWithdraw (f_Params s)))
     (unat (h_Height s)) (counter s k) (of_key k hist))"

lemma Faucet_frame:
  "Host.more (s :: Faucet) = Host.more s' \<Longrightarrow> f_Params s = f_Params s' \<and> f_Accounts s = f_Accounts s'"
  by (cases s; cases s') simp

lemma of_key_Cons: "of_key k ((h, k', a) # hist) = (if k' = k then [(unat h, unat a)] else []) @ of_key k hist"
  by (simp add: of_key_def)

lemma Faucet_AddSig:
  "AddSig pk s = Some (s' :: Faucet) \<Longrightarrow> f_Params s' = f_Params s \<and> f_Accounts s' = f_Accounts s \<and> h_Height s' = h_Height s"
  using AddSig_SomeD(1) by force

lemma Faucet_FundsUnlock:
  "FundsUnlock aid a s = Some (s' :: Faucet) \<Longrightarrow> in_call s \<Longrightarrow>
    f_Params s' = f_Params s \<and> f_Accounts s' = f_Accounts s \<and> h_Height s' = h_Height s"
  using FundsUnlock_SomeD(4,6) [of aid a s s'] Faucet_frame [of s' s] by simp

text \<open>A withdrawal starts a new period, continues the current one, drops an account that is over, or does nothing.\<close>

definition period_over :: "Faucet \<Rightarrow> Faucet_Key \<Rightarrow> bool" where
  "period_over s k = (case f_Accounts s k of None \<Rightarrow> True | Some ad \<Rightarrow> m_BacklogPeriod (f_Params s) \<le> h_Height s - m_h0 ad)"

lemma Faucet_Withdraw_cases:
  assumes "Faucet_Withdraw k a s = Some s'" and "in_call s"
  shows "f_Params s' = f_Params s \<and> h_Height s' = h_Height s"
    and "(a \<noteq> 0 \<and> period_over s k \<and> a \<le> m_MaxWithdraw (f_Params s) \<and> f_Accounts s' = (f_Accounts s)(k \<mapsto> \<lparr>m_h0 = h_Height s, ad_Amount = a\<rparr>)) \<or>
      (\<exists>ad t. a \<noteq> 0 \<and> f_Accounts s k = Some ad \<and> \<not> period_over s k \<and> strict_Add (ad_Amount ad) a = Some t \<and>
        t \<le> m_MaxWithdraw (f_Params s) \<and> f_Accounts s' = (f_Accounts s)(k \<mapsto> ad\<lparr>ad_Amount := t\<rparr>)) \<or>
      (a = 0 \<and> period_over s k \<and> f_Accounts s' = (f_Accounts s)(k := None)) \<or>
      (a = 0 \<and> f_Accounts s' = f_Accounts s)"
proof -
  let ?upd = "\<lambda>ad. s\<lparr>f_Accounts := (f_Accounts s)(k \<mapsto> ad)\<rparr>"
  have c: "in_call (?upd ad)" for ad using assms(2) by (simp add: in_call_def)
  obtain s1 where s1: "AddSig (k_Account k) s1 = Some s'"
    and "(a = 0 \<and> s1 = (if f_Accounts s k \<noteq> None \<and> period_over s k then s\<lparr>f_Accounts := (f_Accounts s)(k := None)\<rparr> else s)) \<or>
      (\<exists>ad. a \<noteq> 0 \<and> FundsUnlock (k_Aid k) a (?upd ad) = Some s1 \<and> ad_Amount ad \<le> m_MaxWithdraw (f_Params s) \<and>
        (period_over s k \<and> ad = \<lparr>m_h0 = h_Height s, ad_Amount = a\<rparr> \<or>
         \<not> period_over s k \<and> (\<exists>ad0 t. f_Accounts s k = Some ad0 \<and> strict_Add (ad_Amount ad0) a = Some t \<and> ad = ad0\<lparr>ad_Amount := t\<rparr>)))"
    using assms(1)
    by (auto simp: Faucet_Withdraw_def Let_def Halt_if_def period_over_def not_less split: bind_splits if_splits option.splits)
  note this(2) and a = Faucet_AddSig [OF s1]
  then consider "a = 0" "s1 = (if f_Accounts s k \<noteq> None \<and> period_over s k then s\<lparr>f_Accounts := (f_Accounts s)(k := None)\<rparr> else s)"
    | ad where "a \<noteq> 0" "FundsUnlock (k_Aid k) a (?upd ad) = Some s1" "ad_Amount ad \<le> m_MaxWithdraw (f_Params s)"
        "period_over s k \<and> ad = \<lparr>m_h0 = h_Height s, ad_Amount = a\<rparr> \<or>
         \<not> period_over s k \<and> (\<exists>ad0 t. f_Accounts s k = Some ad0 \<and> strict_Add (ad_Amount ad0) a = Some t \<and> ad = ad0\<lparr>ad_Amount := t\<rparr>)"
    by blast
  note cases = this
  show "f_Params s' = f_Params s \<and> h_Height s' = h_Height s"
    using cases
  proof cases
    case (2 ad)
    then show ?thesis using Faucet_FundsUnlock [OF 2(2) c] a by simp
  qed (use a in simp)
  show "(a \<noteq> 0 \<and> period_over s k \<and> a \<le> m_MaxWithdraw (f_Params s) \<and> f_Accounts s' = (f_Accounts s)(k \<mapsto> \<lparr>m_h0 = h_Height s, ad_Amount = a\<rparr>)) \<or>
      (\<exists>ad t. a \<noteq> 0 \<and> f_Accounts s k = Some ad \<and> \<not> period_over s k \<and> strict_Add (ad_Amount ad) a = Some t \<and>
        t \<le> m_MaxWithdraw (f_Params s) \<and> f_Accounts s' = (f_Accounts s)(k \<mapsto> ad\<lparr>ad_Amount := t\<rparr>)) \<or>
      (a = 0 \<and> period_over s k \<and> f_Accounts s' = (f_Accounts s)(k := None)) \<or>
      (a = 0 \<and> f_Accounts s' = f_Accounts s)"
    using cases
  proof cases
    case (2 ad)
    then show ?thesis using Faucet_FundsUnlock [OF 2(2) c] a by auto
  qed (use a in auto)
qed

lemma faucet_ok_step:
  assumes "faucet_ok s hist" and "Faucet_Withdraw k a s = Some s'" and "in_call s" and "m_BacklogPeriod (f_Params s) \<noteq> 0"
  shows "faucet_ok s' (if a = 0 then hist else (h_Height s, k, a) # hist)"
proof -
  let ?B = "unat (m_BacklogPeriod (f_Params s))" and ?M = "unat (m_MaxWithdraw (f_Params s))" and ?now = "unat (h_Height s)"
  note fr = Faucet_Withdraw_cases(1) [OF assms(2,3)]
  have inv: "lim_inv ?B ?M ?now (counter s j) (of_key j hist)" for j using assms(1) by (simp add: faucet_ok_def)
  have B: "0 < ?B" using assms(4) by (simp add: unat_gt_0)
  have start: "m_h0 ad \<le> h_Height s" if "f_Accounts s k = Some ad" for ad
    using inv [of k] that by (simp add: counter_def lim_inv_def word_le_nat_alt)
  then have diff: "unat (h_Height s - m_h0 ad) = ?now - unat (m_h0 ad)" if "f_Accounts s k = Some ad" for ad
    using that by (intro unat_sub) simp
  have over: "counter s k = None \<or> (\<exists>h0 A. counter s k = Some (h0, A) \<and> h0 + ?B \<le> ?now)" if "period_over s k"
    using that start diff B by (cases "f_Accounts s k") (auto simp: period_over_def counter_def word_le_nat_alt)
  have other: "counter s' j = counter s j" if "j \<noteq> k" for j
    using Faucet_Withdraw_cases(2) [OF assms(2,3)] that by (auto simp: counter_def)
  have "lim_inv ?B ?M ?now (counter s' k) (of_key k (if a = 0 then hist else (h_Height s, k, a) # hist))"
    using Faucet_Withdraw_cases(2) [OF assms(2,3)]
  proof (elim disjE exE conjE, goal_cases)
    case 1
    then show ?case using lim_fresh [OF inv over _ B, of "unat a"] by (simp add: counter_def word_le_nat_alt of_key_Cons)
  next
    case (2 ad t)
    have "?now < unat (m_h0 ad) + ?B"
      using 2(2,3) start [OF 2(2)] diff [OF 2(2)] by (simp add: period_over_def word_le_nat_alt)
    moreover have "unat (ad_Amount ad) + unat a \<le> ?M" using 2(5) strict_AddD [OF 2(4)] by (simp add: word_le_nat_alt)
    ultimately show ?case
      using lim_more [of ?B ?M ?now "unat (m_h0 ad)" "unat (ad_Amount ad)" "of_key k hist" "unat a"] inv [of k] 2 strict_AddD [OF 2(4)]
      by (simp add: counter_def of_key_Cons)
  next
    case 3
    have "lim_inv ?B ?M ?now None (of_key k hist)" using over [OF 3(2)] inv [of k] lim_drop by auto
    then show ?case using 3 by (simp add: counter_def)
  next
    case 4
    then show ?case using inv [of k] by (simp add: counter_def)
  qed
  moreover have "lim_inv ?B ?M ?now (counter s' j) (of_key j (if a = 0 then hist else (h_Height s, k, a) # hist))" if "j \<noteq> k" for j
    using inv [of j] other [OF that] that by (simp add: of_key_Cons)
  ultimately show ?thesis unfolding faucet_ok_def using fr by metis
qed

section \<open>Runs\<close>

definition Faucet_init :: "ContractID \<Rightarrow> (PubKey \<Rightarrow> bool) \<Rightarrow> Faucet_Params \<Rightarrow> Faucet" where
  "Faucet_init cid nnz r = Faucet_Ctor r \<lparr>h_Calls = [cid], h_Height = 0, h_ImportNnz = nnz, h_Sigs = [], h_FundsIO = Map.empty,
     h_Locked = (\<lambda>c a. []), h_Refs = (\<lambda>c d. []), h_RefsTotal = (\<lambda>c. []), h_Code = (\<lambda>c. []),
     f_Params = \<lparr>m_BacklogPeriod = 0, m_MaxWithdraw = 0\<rparr>, f_Accounts = Map.empty\<rparr>"

text \<open>The states reached by calls at growing heights, with the amounts withdrawn, newest first.\<close>

inductive Faucet_run :: "ContractID \<Rightarrow> (PubKey \<Rightarrow> bool) \<Rightarrow> Faucet_Params \<Rightarrow> Faucet \<Rightarrow> (Height \<times> Faucet_Key \<times> Amount) list \<Rightarrow> bool"
  for cid nnz r where
  init: "Faucet_run cid nnz r (Faucet_init cid nnz r) []"
| deposit: "Faucet_run cid nnz r s hist \<Longrightarrow> h_Height s \<le> ht \<Longrightarrow> Faucet_Deposit aid a (begin_call cid ht s) = Some s' \<Longrightarrow>
    Faucet_run cid nnz r s' hist"
| withdraw: "Faucet_run cid nnz r s hist \<Longrightarrow> h_Height s \<le> ht \<Longrightarrow> Faucet_Withdraw k a (begin_call cid ht s) = Some s' \<Longrightarrow>
    Faucet_run cid nnz r s' (if a = 0 then hist else (ht, k, a) # hist)"
| others: "Faucet_run cid nnz r s hist \<Longrightarrow> others_move cid s s' \<Longrightarrow> Faucet_run cid nnz r s' hist"

lemma faucet_begin:
  "f_Params (begin_call cid ht (s :: Faucet)) = f_Params s" "f_Accounts (begin_call cid ht s) = f_Accounts s"
  using Faucet_frame [of "begin_call cid ht s" s] by simp_all

lemma faucet_ok_begin: "faucet_ok s hist \<Longrightarrow> h_Height s \<le> ht \<Longrightarrow> faucet_ok (begin_call cid ht s) hist"
  by (auto simp: faucet_ok_def faucet_begin counter_def word_le_nat_alt intro: lim_time)

lemma faucet_ok_cong:
  "faucet_ok s hist \<Longrightarrow> f_Params s' = f_Params s \<Longrightarrow> f_Accounts s' = f_Accounts s \<Longrightarrow> h_Height s' = h_Height s \<Longrightarrow> faucet_ok s' hist"
  by (simp add: faucet_ok_def counter_def)

lemma Faucet_run_ok:
  assumes "Faucet_run cid nnz r s hist" and "m_BacklogPeriod r \<noteq> 0"
  shows "f_Params s = r \<and> faucet_ok s hist"
  using assms(1)
proof (induction rule: Faucet_run.induct)
  case init
  then show ?case by (simp add: faucet_ok_def counter_def of_key_def lim_init Faucet_init_def Faucet_Ctor_def)
next
  case (deposit s hist ht aid a s')
  have "f_Params s' = f_Params s \<and> f_Accounts s' = f_Accounts s \<and> h_Height s' = ht"
    using FundsLock_SomeD(3,5) [OF deposit.hyps(3) [unfolded Faucet_Deposit_def]] Faucet_frame [of s' "begin_call cid ht s"]
    by (simp add: faucet_begin)
  then show ?case
    using deposit.IH faucet_ok_cong [OF faucet_ok_begin [of s hist ht cid], of s'] deposit.hyps(2) by (simp add: faucet_begin)
next
  case (withdraw s hist ht k a s')
  show ?case
    using faucet_ok_step [OF faucet_ok_begin [of s hist ht cid] withdraw.hyps(3)] Faucet_Withdraw_cases(1) [OF withdraw.hyps(3)]
      withdraw.IH withdraw.hyps(2) assms(2) by (auto simp: faucet_begin)
next
  case (others s hist s')
  have "h_Height s' = h_Height s" using others.hyps(2) by (auto simp: others_move_def)
  then show ?case
    using others.IH others_moveD(2) [OF others.hyps(2)] Faucet_frame [of s' s] faucet_ok_cong [of s hist s'] by simp
qed

text \<open>C14: The faucet limits every key.  Whatever sequence of calls at growing heights the faucet serves, in any window of
  as many heights as its period a key withdraws at most twice the limit in an asset.\<close>

theorem Faucet_limit:
  assumes "Faucet_run cid nnz r s hist"
  shows "(\<Sum>(h, k', a) \<leftarrow> hist. if k' = k \<and> t \<le> unat h \<and> unat h < t + unat (m_BacklogPeriod r) then unat a else 0)
    \<le> 2 * unat (m_MaxWithdraw r)"
proof -
  have e: "(\<Sum>(h, k', a) \<leftarrow> hist. if k' = k \<and> t \<le> unat h \<and> unat h < t + B then unat a else 0) =
    paid (\<lambda>h. t \<le> h \<and> h < t + B) (of_key k hist)" for B
    by (induction hist) (auto simp: of_key_def)
  show ?thesis
  proof (cases "m_BacklogPeriod r = 0")
    case True
    have "paid (\<lambda>h. t \<le> h \<and> h < t + 0) hs = 0" for hs by (induction hs) auto
    then show ?thesis by (simp only: e True unat_0)
  next
    case False
    then have "f_Params s = r \<and> faucet_ok s hist" by (rule Faucet_run_ok [OF assms])
    then have "lim_inv (unat (m_BacklogPeriod r)) (unat (m_MaxWithdraw r)) (unat (h_Height s)) (counter s k) (of_key k hist)"
      by (auto simp: faucet_ok_def)
    then show ?thesis unfolding e by (rule lim_window)
  qed
qed

definition Faucet_key1 :: Faucet_Key where
  "Faucet_key1 = \<lparr>k_Account = \<lparr>m_X = 1, m_Y = 0\<rparr>, k_Aid = 3\<rparr>"

definition Faucet_nnz :: "PubKey \<Rightarrow> bool" where
  "Faucet_nnz pk \<longleftrightarrow> m_X pk \<noteq> 0"

lemma Faucet_example:
  "\<exists>s. Faucet_run 7 Faucet_nnz \<lparr>m_BacklogPeriod = 10, m_MaxWithdraw = 100\<rparr> s [(5, Faucet_key1, 60)]"
proof -
  let ?r = "\<lparr>m_BacklogPeriod = 10, m_MaxWithdraw = 100\<rparr>"
  let ?s0 = "begin_call 7 0 (Faucet_init 7 Faucet_nnz ?r)"
  have m0: "my_funds ?s0 3 = 0" by (simp add: my_funds_def Faucet_init_def Faucet_Ctor_def locked_def begin_call_def LoadFixedOrZero_def)
  then obtain s1 where s1: "FundsLock 3 1000 ?s0 = Some s1" using FundsLock_enabled [of ?s0 3 1000] by auto
  note f = FundsLock_SomeD [OF s1]
  have r1: "Faucet_run 7 Faucet_nnz ?r s1 []"
    by (rule Faucet_run.deposit [OF Faucet_run.init _ s1 [folded Faucet_Deposit_def]]) (simp add: Faucet_init_def Faucet_Ctor_def)
  have p: "f_Params s1 = ?r" "f_Accounts s1 = Map.empty" "h_Height s1 = 0" "h_ImportNnz s1 = Faucet_nnz" "h_Calls s1 = [7]"
    using f(3-6) Faucet_frame [of s1 ?s0] by (simp_all add: faucet_begin) (simp_all add: Faucet_init_def Faucet_Ctor_def)
  let ?s2 = "begin_call 7 5 s1\<lparr>f_Accounts := [Faucet_key1 \<mapsto> \<lparr>m_h0 = 5, ad_Amount = 60\<rparr>]\<rparr>"
  have "my_funds ?s2 3 = 1000"
    using f(2) [of 3] m0 p(5) by (simp add: my_funds_def locked_def begin_call_def in_call_def)
  then obtain s3 where s3: "FundsUnlock 3 60 ?s2 = Some s3"
    using FundsUnlock_enabled [of ?s2 60 3] by (auto simp: in_call_def)
  have "h_ImportNnz s3 = Faucet_nnz" using FundsUnlock_SomeD(7) [OF s3] p(4) by (simp add: in_call_def)
  then obtain s4 where "Faucet_Withdraw Faucet_key1 60 (begin_call 7 5 s1) = Some s4"
    using s3 p by (simp add: Faucet_Withdraw_def faucet_begin Let_def Halt_if_def Faucet_key1_def AddSig_def Faucet_nnz_def)
  then show ?thesis using Faucet_run.withdraw [OF r1, of 5 Faucet_key1 60 s4] p(3) by auto
qed

theorem Faucet_limit_witness:
  "\<exists>s hist. Faucet_run 7 Faucet_nnz \<lparr>m_BacklogPeriod = 10, m_MaxWithdraw = 100\<rparr> s hist \<and> hist \<noteq> [] \<and>
    (\<Sum>(h, k', a) \<leftarrow> hist. if k' = Faucet_key1 \<and> 0 \<le> unat h \<and> unat h < 0 + 10 then unat a else 0) \<le> 200"
proof -
  obtain s where s: "Faucet_run 7 Faucet_nnz \<lparr>m_BacklogPeriod = 10, m_MaxWithdraw = 100\<rparr> s [(5, Faucet_key1, 60)]"
    using Faucet_example by blast
  then show ?thesis
    using Faucet_limit [OF s, of Faucet_key1 0] by (intro exI [of _ s] exI [of _ "[(5, Faucet_key1, 60)]"]) simp
qed

end
