(* ===== verification/Contract_Faucet2.thy ===== *)
theory Contract_Faucet2
  imports Bvm_Host Rate_Limit
begin

text \<open>
  The second faucet (\<open>src/bvm/Shaders/faucet2\<close>): one limit per epoch for all users together, whatever the asset, and an
  administrator who can switch the faucet off and take the funds back.
\<close>

section \<open>The contract\<close>

record Faucet2_State =
  e_Height :: Height
  e_Amount :: Amount
  l_Height :: Height
  l_Amount :: Amount
  m_pkAdmin :: PubKey
  m_Enabled :: u8

record Faucet2 = Host +
  f2_State :: Faucet2_State

definition UpdateEpoch :: "Height \<Rightarrow> Faucet2_State \<Rightarrow> bool \<times> Faucet2_State" where
  "UpdateEpoch h st =
     (if h - e_Height st < l_Height st then (False, st) else (True, st\<lparr>e_Height := h, e_Amount := l_Amount st\<rparr>))"

definition Faucet2_Ctor :: "Height \<Rightarrow> Amount \<Rightarrow> PubKey \<Rightarrow> Faucet2 \<Rightarrow> Faucet2" where
  "Faucet2_Ctor lh la pk s =
     s\<lparr>f2_State := \<lparr>e_Height = 0, e_Amount = 0, l_Height = lh, l_Amount = la, m_pkAdmin = pk, m_Enabled = 1\<rparr>\<rparr>"

definition Faucet2_Deposit :: "AssetID \<Rightarrow> Amount \<Rightarrow> Faucet2 \<Rightarrow> Faucet2 option" where
  "Faucet2_Deposit aid amt s = FundsLock aid amt s"

definition Faucet2_Withdraw :: "AssetID \<Rightarrow> Amount \<Rightarrow> Faucet2 \<Rightarrow> Faucet2 option" where
  "Faucet2_Withdraw aid amt s = do {
     Halt_if (m_Enabled (f2_State s) = 0);
     let st = snd (UpdateEpoch (h_Height s) (f2_State s));
     a \<leftarrow> strict_Sub (e_Amount st) amt;
     s \<leftarrow> FundsUnlock aid amt s;
     Some (s\<lparr>f2_State := st\<lparr>e_Amount := a\<rparr>\<rparr>)
   }"

definition Faucet2_AdminCtl :: "u8 \<Rightarrow> Faucet2 \<Rightarrow> Faucet2 option" where
  "Faucet2_AdminCtl bEnable s = do {
     s \<leftarrow> AddSig (m_pkAdmin (f2_State s)) s;
     Some (s\<lparr>f2_State := (f2_State s)\<lparr>m_Enabled := bEnable\<rparr>\<rparr>)
   }"

definition Faucet2_AdminWithdraw :: "AssetID \<Rightarrow> Amount \<Rightarrow> Faucet2 \<Rightarrow> Faucet2 option" where
  "Faucet2_AdminWithdraw aid amt s = do {
     s \<leftarrow> AddSig (m_pkAdmin (f2_State s)) s;
     FundsUnlock aid amt s
   }"

definition Faucet2_Dtor :: "Faucet2 \<Rightarrow> Faucet2 option" where
  "Faucet2_Dtor s = AddSig (m_pkAdmin (f2_State s)) s"

section \<open>The limit\<close>

text \<open>What is used up of the current epoch, and the withdrawals of the users, newest first.\<close>

definition epoch_ok :: "Faucet2 \<Rightarrow> (nat \<times> nat) list \<Rightarrow> bool" where
  "epoch_ok s hist \<longleftrightarrow>
     (let st = f2_State s; M = unat (l_Amount st)
      in unat (e_Amount st) \<le> M \<and>
         lim_inv (unat (l_Height st)) M (unat (h_Height s)) (Some (unat (e_Height st), M - unat (e_Amount st))) hist)"

lemma Faucet2_frame: "Host.more (s :: Faucet2) = Host.more s' \<Longrightarrow> f2_State s = f2_State s'"
  by (cases s; cases s') simp

lemma epoch_ok_withdraw:
  assumes "epoch_ok s hist" and "Faucet2_Withdraw aid a s = Some s'" and "in_call s" and "l_Height (f2_State s) \<noteq> 0"
  shows "epoch_ok s' ((unat (h_Height s), unat a) # hist)" "l_Height (f2_State s') = l_Height (f2_State s)"
    "l_Amount (f2_State s') = l_Amount (f2_State s)"
proof -
  let ?st = "f2_State s" and ?st' = "snd (UpdateEpoch (h_Height s) (f2_State s))"
  let ?B = "unat (l_Height ?st)" and ?M = "unat (l_Amount ?st)" and ?now = "unat (h_Height s)" and ?e = "unat (e_Amount ?st)"
  obtain b s1 where b: "strict_Sub (e_Amount ?st') a = Some b" and u: "FundsUnlock aid a s = Some s1"
    and s': "s' = s1\<lparr>f2_State := ?st'\<lparr>e_Amount := b\<rparr>\<rparr>"
    using assms(2) by (auto simp: Faucet2_Withdraw_def Let_def split: bind_splits)
  have h: "h_Height s1 = h_Height s" using FundsUnlock_SomeD(6) [OF u assms(3)] .
  have inv: "?e \<le> ?M" "lim_inv ?B ?M ?now (Some (unat (e_Height ?st), ?M - ?e)) hist"
    using assms(1) by (simp_all add: epoch_ok_def Let_def)
  then have "e_Height ?st \<le> h_Height s" by (simp add: lim_inv_def word_le_nat_alt)
  then have diff: "unat (h_Height s - e_Height ?st) = ?now - unat (e_Height ?st)" by (rule unat_sub)
  have le: "unat (e_Height ?st) \<le> ?now" using \<open>e_Height ?st \<le> h_Height s\<close> by (simp add: word_le_nat_alt)
  have B: "0 < ?B" using assms(4) by (simp add: unat_gt_0)
  note sb = strict_SubD [OF b]
  show "epoch_ok s' ((?now, unat a) # hist)"
  proof (cases "h_Height s - e_Height ?st < l_Height ?st")
    case True
    then have st: "?st' = ?st" and "?now < unat (e_Height ?st) + ?B"
      using diff le by (simp_all add: UpdateEpoch_def word_less_nat_alt)
    moreover have "unat a \<le> ?e" "unat b = ?e - unat a" using sb st by auto
    then have e: "?M - ?e + unat a = ?M - unat b" "?M - unat b \<le> ?M" "unat b \<le> ?M" using inv(1) by linarith+
    ultimately show ?thesis
      using lim_more [OF inv(2), of "unat a"] inv(1) by (simp add: epoch_ok_def s' h Let_def)
  next
    case False
    then have st: "?st' = ?st\<lparr>e_Height := h_Height s, e_Amount := l_Amount ?st\<rparr>" and "unat (e_Height ?st) + ?B \<le> ?now"
      using diff le B by (simp_all add: UpdateEpoch_def word_less_nat_alt)
    moreover have "unat a \<le> ?M" "?M - unat b = unat a" using sb st by simp_all
    ultimately show ?thesis
      using lim_fresh [OF inv(2), of "unat a"] B sb by (simp add: epoch_ok_def s' h Let_def)
  qed
  show "l_Height (f2_State s') = l_Height ?st" "l_Amount (f2_State s') = l_Amount ?st"
    by (simp_all add: s' UpdateEpoch_def)
qed

lemma epoch_ok_cong:
  assumes "epoch_ok s hist" and "h_Height s \<le> h_Height s'" and "e_Height (f2_State s') = e_Height (f2_State s)"
    and "e_Amount (f2_State s') = e_Amount (f2_State s)" and "l_Height (f2_State s') = l_Height (f2_State s)"
    and "l_Amount (f2_State s') = l_Amount (f2_State s)"
  shows "epoch_ok s' hist"
  using assms(1) assms(2) lim_time by (auto simp: epoch_ok_def Let_def assms(3-6) word_le_nat_alt)

section \<open>Runs\<close>

text \<open>The states reached by calls at growing heights; the administrator may act at any time.\<close>

inductive Faucet2_run :: "ContractID \<Rightarrow> Height \<Rightarrow> Amount \<Rightarrow> Faucet2 \<Rightarrow> (nat \<times> nat) list \<Rightarrow> bool" for cid lh la where
  create: "Faucet2_run cid lh la (Faucet2_Ctor lh la pk (begin_call cid ht s)) []"
| deposit: "Faucet2_run cid lh la s hist \<Longrightarrow> h_Height s \<le> ht \<Longrightarrow> Faucet2_Deposit aid a (begin_call cid ht s) = Some s' \<Longrightarrow>
    Faucet2_run cid lh la s' hist"
| withdraw: "Faucet2_run cid lh la s hist \<Longrightarrow> h_Height s \<le> ht \<Longrightarrow> Faucet2_Withdraw aid a (begin_call cid ht s) = Some s' \<Longrightarrow>
    Faucet2_run cid lh la s' ((unat ht, unat a) # hist)"
| admin_ctl: "Faucet2_run cid lh la s hist \<Longrightarrow> h_Height s \<le> ht \<Longrightarrow> Faucet2_AdminCtl b (begin_call cid ht s) = Some s' \<Longrightarrow>
    Faucet2_run cid lh la s' hist"
| admin_withdraw: "Faucet2_run cid lh la s hist \<Longrightarrow> h_Height s \<le> ht \<Longrightarrow>
    Faucet2_AdminWithdraw aid a (begin_call cid ht s) = Some s' \<Longrightarrow> Faucet2_run cid lh la s' hist"

lemma faucet2_begin: "f2_State (begin_call cid ht (s :: Faucet2)) = f2_State s"
  using Faucet2_frame [of "begin_call cid ht s" s] by simp

lemma Faucet2_run_ok:
  assumes "Faucet2_run cid lh la s hist" and "lh \<noteq> 0"
  shows "l_Height (f2_State s) = lh \<and> l_Amount (f2_State s) = la \<and> epoch_ok s hist"
  using assms(1)
proof (induction rule: Faucet2_run.induct)
  case (create pk ht s)
  show ?case by (simp add: Faucet2_Ctor_def epoch_ok_def lim_init)
next
  case (deposit s hist ht aid a s')
  note u = FundsLock_SomeD(3,5) [OF deposit.hyps(3) [unfolded Faucet2_Deposit_def]]
  have "f2_State s' = f2_State s" "h_Height s' = ht"
    using u Faucet2_frame [of s' "begin_call cid ht s"] by (simp_all add: faucet2_begin)
  then show ?case using deposit.IH deposit.hyps(2) epoch_ok_cong [of s hist s'] by simp
next
  case (withdraw s hist ht aid a s')
  have "epoch_ok (begin_call cid ht s) hist"
    using withdraw.IH withdraw.hyps(2) epoch_ok_cong [of s hist "begin_call cid ht s"] by (simp add: faucet2_begin)
  from epoch_ok_withdraw [OF this withdraw.hyps(3)] show ?case using withdraw.IH assms(2) by (simp add: faucet2_begin)
next
  case (admin_ctl s hist ht b s')
  obtain s1 where s1: "AddSig (m_pkAdmin (f2_State s)) (begin_call cid ht s) = Some s1"
    and s': "s' = s1\<lparr>f2_State := (f2_State s1)\<lparr>m_Enabled := b\<rparr>\<rparr>"
    using admin_ctl.hyps(3) by (auto simp: Faucet2_AdminCtl_def faucet2_begin split: bind_splits)
  have "f2_State s1 = f2_State s" "h_Height s1 = ht" using AddSig_SomeD(1) [OF s1] by (simp_all add: faucet2_begin)
  then show ?case using admin_ctl.IH admin_ctl.hyps(2) epoch_ok_cong [of s hist s'] by (simp add: s')
next
  case (admin_withdraw s hist ht aid a s')
  obtain s1 where s1: "AddSig (m_pkAdmin (f2_State s)) (begin_call cid ht s) = Some s1" and u: "FundsUnlock aid a s1 = Some s'"
    using admin_withdraw.hyps(3) by (auto simp: Faucet2_AdminWithdraw_def faucet2_begin split: bind_splits)
  have 1: "f2_State s1 = f2_State s" "h_Height s1 = ht" "in_call s1"
    using AddSig_SomeD(1,4) [OF s1] by (simp_all add: faucet2_begin in_call_def)
  then have "f2_State s' = f2_State s" "h_Height s' = ht"
    using FundsUnlock_SomeD(4,6) [OF u] Faucet2_frame [of s' s1] by simp_all
  then show ?case using admin_withdraw.IH admin_withdraw.hyps(2) epoch_ok_cong [of s hist s'] by simp
qed

text \<open>The users together never take more than twice the limit in any window of as many heights as an epoch.\<close>

theorem Faucet2_limit:
  assumes "Faucet2_run cid lh la s hist"
  shows "paid (\<lambda>h. t \<le> h \<and> h < t + unat lh) hist \<le> 2 * unat la"
proof (cases "lh = 0")
  case True
  have "paid (\<lambda>h. t \<le> h \<and> h < t + 0) hs = 0" for hs by (induction hs) auto
  then show ?thesis by (simp only: True unat_0)
next
  case False
  then show ?thesis using Faucet2_run_ok [OF assms False] lim_window by (auto simp: epoch_ok_def Let_def)
qed

end
