(* ===== verification/Shader_Sort.thy ===== *)
theory Shader_Sort
  imports Beam_Prelude "HOL-Library.Multiset" "HOL-Library.Monad_Syntax"
begin

text \<open>
  Sorting and searching for contracts (\<open>src/bvm/Shaders/Sort.h\<close>): the bottom-up merge sort, the partition around a pivot
  and the binary search.  A range of an array is the list of its elements; reading past the end of a range is \<open>None\<close>.
  The width of the runs is a 32-bit number as in the code, so the sort loop is a partial function.
\<close>

section \<open>Merge sort\<close>

text \<open>\<open>MergeOnce\<close> with what is left of \<open>[p0, p0e)\<close> and \<open>[p1, p1e)\<close>.\<close>

fun MergeOnce :: "'a::linorder list \<Rightarrow> 'a list \<Rightarrow> 'a list option" where
  "MergeOnce (x # xs) (y # ys) =
     (if y < x then
        (if ys = [] then Some (y # x # xs) else do { r \<leftarrow> MergeOnce (x # xs) ys; Some (y # r) })
      else
        (if xs = [] then Some (x # y # ys) else do { r \<leftarrow> MergeOnce xs (y # ys); Some (x # r) }))"
| "MergeOnce xs ys = None"

lemma MergeOnce_Nil [simp]: "MergeOnce [] ys = None" "MergeOnce xs [] = None"
  by simp (cases xs; simp)

function DoStep :: "'a::linorder list \<Rightarrow> nat \<Rightarrow> 'a list option" where
  "DoStep p0 nW =
     (let p1 = drop nW p0
      in if p1 = [] then Some p0
         else do {
           let bFin = (length p1 \<le> nW);
           m \<leftarrow> MergeOnce (take nW p0) (take nW p1);
           if bFin then Some m else do { r \<leftarrow> DoStep (drop nW p1) nW; Some (m @ r) }
         })"
  by pat_completeness auto
termination
proof (relation "measure (\<lambda>(p0, nW). length p0)", goal_cases)
  case (2 p0 nW p1 bFin m)
  then have "nW \<noteq> 0" by (cases nW) auto
  with 2 show ?case by auto
qed simp

declare DoStep.simps [simp del]

partial_function (option) MergeSort_loop :: "u32 \<Rightarrow> u32 \<Rightarrow> 'a::linorder list \<Rightarrow> 'a list option" where
  "MergeSort_loop nCount nW pSrc =
     (if nW < nCount then do { pTmp \<leftarrow> DoStep pSrc (unat nW); MergeSort_loop nCount (push_bit 1 nW) pTmp }
      else Some pSrc)"

definition MergeSort_Do :: "'a::linorder list \<Rightarrow> u32 \<Rightarrow> 'a list option" where
  "MergeSort_Do pSrc nCount = MergeSort_loop nCount 1 pSrc"

text \<open>Every run of the given width is sorted.\<close>

function runs :: "nat \<Rightarrow> 'a::linorder list \<Rightarrow> bool" where
  "runs w xs = (if w = 0 \<or> xs = [] then True else sorted (take w xs) \<and> runs w (drop w xs))"
  by pat_completeness auto
termination by (relation "measure (\<lambda>(w, xs). length xs)") auto

declare runs.simps [simp del]

lemma runs_append: "0 < w \<Longrightarrow> length m = w \<Longrightarrow> sorted m \<Longrightarrow> runs w r \<Longrightarrow> runs w (m @ r)"
  by (subst runs.simps) simp

lemma runs_short: "0 < w \<Longrightarrow> length xs \<le> w \<Longrightarrow> runs w xs \<longleftrightarrow> sorted xs"
  by (subst runs.simps) (auto simp: runs.simps [of w "[]"])

lemma runs_1: "runs (Suc 0) xs"
  by (induction xs) (simp_all add: runs.simps [of "Suc 0"])

lemma MergeOnce_merges:
  assumes "xs \<noteq> []" and "ys \<noteq> []" and "sorted xs" and "sorted ys"
  shows "\<exists>m. MergeOnce xs ys = Some m \<and> mset m = mset xs + mset ys \<and> sorted m"
  using assms
proof (induction xs ys rule: MergeOnce.induct)
  case (1 x xs y ys)
  show ?case
  proof (cases "y < x")
    case True
    show ?thesis
    proof (cases "ys = []")
      case True
      with 1 \<open>y < x\<close> show ?thesis by fastforce
    next
      case False
      obtain m where m: "MergeOnce (x # xs) ys = Some m" "mset m = mset (x # xs) + mset ys" "sorted m"
        using 1(1) [OF True False] 1 False by auto
      have "\<forall>z \<in> set m. y \<le> z" using True 1 mset_eq_setD [of m "(x # xs) @ ys"] m(2) by fastforce
      then show ?thesis using m True False by simp
    qed
  next
    case F: False
    show ?thesis
    proof (cases "xs = []")
      case True
      with 1 F show ?thesis by fastforce
    next
      case False
      obtain m where m: "MergeOnce xs (y # ys) = Some m" "mset m = mset xs + mset (y # ys)" "sorted m"
        using 1(2) [OF F False] 1 False by auto
      have "\<forall>z \<in> set m. x \<le> z" using F 1 mset_eq_setD [of m "xs @ y # ys"] m(2) by fastforce
      then show ?thesis using m F False by simp
    qed
  qed
qed simp_all

lemma DoStep_doubles:
  assumes "0 < w" and "runs w xs"
  shows "\<exists>ys. DoStep xs w = Some ys \<and> mset ys = mset xs \<and> runs (2 * w) ys"
  using assms
proof (induction xs w rule: DoStep.induct)
  case (1 xs w)
  let ?p1 = "drop w xs"
  show ?case
  proof (cases "?p1 = []")
    case True
    have "runs (2 * w) xs" using True 1 by (simp add: runs_short)
    with True show ?thesis by (subst DoStep.simps) simp
  next
    case False
    have r1: "sorted (take w xs)" "runs w ?p1" using 1(2,3) False by (auto simp: runs.simps [of w xs] split: if_splits)
    then have "sorted (take w ?p1)" and r2: "runs w (drop w ?p1)" using 1(2) False by (auto simp: runs.simps [of w ?p1] split: if_splits)
    then obtain m where m: "MergeOnce (take w xs) (take w ?p1) = Some m"
      "mset m = mset (take w xs) + mset (take w ?p1)" "sorted m"
      using MergeOnce_merges [of "take w xs" "take w ?p1"] r1(1) False 1(2) by fastforce
    have eq: "mset xs = mset (take w xs) + mset (take w ?p1) + mset (drop w ?p1)"
      by (metis append_take_drop_id mset_append add.assoc)
    have len: "length m = length (take w xs) + length (take w ?p1)" using m(2) by (metis size_mset size_union)
    show ?thesis
    proof (cases "length ?p1 \<le> w")
      case True
      have "runs (2 * w) m" using m len True 1 by (subst runs_short) auto
      then show ?thesis using True False m eq by (subst DoStep.simps) simp
    next
      case F: False
      obtain r where r: "DoStep (drop w ?p1) w = Some r" "mset r = mset (drop w ?p1)" "runs (2 * w) r"
        using 1(1) [OF refl False refl m(1) F] 1(2) r2 by auto
      have "length m = 2 * w" using F len by simp
      then have "runs (2 * w) (m @ r)" using m r 1 by (intro runs_append) auto
      then show ?thesis using False F m r eq by (subst DoStep.simps) simp
    qed
  qed
qed

lemma MergeSort_loop_sorts:
  assumes "unat nW = 2 ^ k" and "k \<le> 31" and "nCount \<le> 2 ^ 31" and "runs (unat nW) xs" and "length xs \<le> unat nCount"
  shows "\<exists>ys. MergeSort_loop nCount nW xs = Some ys \<and> mset ys = mset xs \<and> sorted ys"
  using assms
proof (induction "31 - k" arbitrary: k nW xs)
  case 0
  then have "unat nW = 2 ^ 31" by simp
  moreover have "unat nCount \<le> 2 ^ 31" using 0 by (simp add: word_le_nat_alt)
  ultimately show ?case
    using 0 runs_short [of "unat nW" xs] by (subst MergeSort_loop.simps) (simp add: word_less_nat_alt)
next
  case (Suc n)
  show ?case
  proof (cases "nW < nCount")
    case False
    then show ?thesis
      using Suc runs_short [of "unat nW" xs] by (subst MergeSort_loop.simps) (simp add: word_less_nat_alt)
  next
    case True
    have "(2 :: nat) ^ k \<le> 2 ^ 30" using Suc by (intro power_increasing) auto
    moreover have k: "n = 31 - Suc k" "Suc k \<le> 31" using Suc.hyps(2) by arith+
    ultimately have nw: "unat (push_bit 1 nW) = 2 ^ Suc k"
      using Suc by (simp add: push_bit_eq_mult unat_mult_lem [THEN iffD1])
    obtain p where p: "DoStep xs (unat nW) = Some p" "mset p = mset xs" "runs (2 * unat nW) p"
      using DoStep_doubles [of "unat nW" xs] Suc by auto
    have "length p = length xs" using p(2) by (metis size_mset)
    then obtain ys where "MergeSort_loop nCount (push_bit 1 nW) p = Some ys" "mset ys = mset p" "sorted ys"
      using Suc.hyps(1) [OF k(1) nw k(2) Suc.prems(3), of p] Suc.prems(1,5) nw p by auto
    then show ?thesis using True p by (subst MergeSort_loop.simps) simp
  qed
qed

text \<open>C13: The merge sort terminates and sorts.  For every array of at most \<open>2 ^ 31\<close> elements the loop over the run widths
  ends, never reads outside its ranges, and returns the same elements in ascending order.\<close>

theorem MergeSort_sorts:
  assumes "length xs = unat nCount" and "nCount \<le> 2 ^ 31"
  shows "\<exists>ys. MergeSort_Do xs nCount = Some ys \<and> mset ys = mset xs \<and> sorted ys"
  using MergeSort_loop_sorts [of 1 0 nCount xs] assms by (simp add: MergeSort_Do_def runs_1)

theorem MergeSort_sorts_witness:
  "\<exists>ys. MergeSort_Do [5, 3, 9, 3, 1 :: nat] 5 = Some ys \<and> mset ys = {#1, 3, 3, 5, 9#} \<and> sorted ys"
  using MergeSort_sorts [of "[5, 3, 9, 3, 1 :: nat]" 5] by (simp add: word_le_nat_alt add_mset_commute)

end
