(* ===== verification/Contract_Oracle.thy ===== *)
theory Contract_Oracle
  imports Bvm_Host Shader_Sort
begin

text \<open>
  The oracle contract (\<open>src/bvm/Shaders/oracle\<close>): a fixed set of providers report values and the oracle publishes their
  median.  The variables \<open>0, \<dots>, m_Count - 1\<close> with the data of the providers are the list \<open>o_Provs\<close>; the limit of the
  contract stack, from which the buffer for sorting is taken, is not modelled.
\<close>

section \<open>The contract\<close>

record ProviderData =
  pd_Value :: u64
  pd_Pk :: PubKey

record Oracle = Host +
  o_Value :: u64
  o_Count :: u32
  o_Provs :: "ProviderData list"

fun AddSigs :: "PubKey list \<Rightarrow> 'm Host_scheme \<Rightarrow> 'm Host_scheme option" where
  "AddSigs [] s = Some s"
| "AddSigs (pk # pks) s = AddSig pk s \<bind> AddSigs pks"

definition Oracle_Ctor :: "u64 \<Rightarrow> PubKey list \<Rightarrow> Oracle \<Rightarrow> Oracle option" where
  "Oracle_Ctor initialValue pPk s = do {
     Halt_if (of_nat (length pPk) = (0 :: u32));
     s \<leftarrow> AddSigs pPk s;
     Some (s\<lparr>o_Value := initialValue, o_Count := of_nat (length pPk),
             o_Provs := map (\<lambda>pk. \<lparr>pd_Value = initialValue, pd_Pk = pk\<rparr>) pPk\<rparr>)
   }"

definition Oracle_Dtor :: "Oracle \<Rightarrow> Oracle option" where
  "Oracle_Dtor s = do {
     s \<leftarrow> AddSigs (map pd_Pk (o_Provs s)) s;
     Some (s\<lparr>o_Count := 0, o_Provs := []\<rparr>)
   }"

definition Oracle_Set :: "u32 \<Rightarrow> u64 \<Rightarrow> Oracle \<Rightarrow> Oracle option" where
  "Oracle_Set iProvider v s = do {
     Halt_if (iProvider \<ge> o_Count s);
     let i = unat iProvider;
     let pd = o_Provs s ! i;
     s \<leftarrow> AddSig (pd_Pk pd) s;
     if pd_Value pd = v then Some s
     else do {
       let s = s\<lparr>o_Provs := (o_Provs s)[i := pd\<lparr>pd_Value := v\<rparr>]\<rparr>;
       let pData = map (\<lambda>j. if j = i then v else pd_Value (o_Provs s ! j)) [0..<unat (o_Count s)];
       pData \<leftarrow> MergeSort_Do pData (o_Count s);
       let iMid = unat (o_Count s) div 2;
       Some (s\<lparr>o_Value := (if odd (unat (o_Count s)) then pData ! iMid
                           else AverageUnsigned (pData ! iMid) (pData ! (iMid - 1)))\<rparr>)
     }
   }"

definition Oracle_Get :: "Oracle \<Rightarrow> u64" where
  "Oracle_Get s = o_Value s"

section \<open>The published value is the median\<close>

definition median :: "nat list \<Rightarrow> nat" where
  "median xs =
     (let ys = sort xs; m = length xs div 2
      in if odd (length xs) then ys ! m else (ys ! m + ys ! (m - 1)) div 2)"

definition oracle_ok :: "Oracle \<Rightarrow> bool" where
  "oracle_ok s \<longleftrightarrow> o_Provs s \<noteq> [] \<and> length (o_Provs s) = unat (o_Count s) \<and>
     unat (o_Value s) = median (map (unat \<circ> pd_Value) (o_Provs s))"

lemma sort_replicate: "sort (replicate n (x :: 'a::linorder)) = replicate n x"
  by (rule sorted_sort_id) simp

lemma median_const: "0 < n \<Longrightarrow> median (replicate n x) = x"
  by (simp add: median_def sort_replicate Let_def)

lemma MergeSort_is_sort:
  "MergeSort_Do xs nCount = Some ys \<Longrightarrow> length xs = unat nCount \<Longrightarrow> nCount \<le> 2 ^ 31 \<Longrightarrow> ys = sort xs"
  using MergeSort_loop_sorts [of 1 0 nCount xs]
  by (auto simp: MergeSort_Do_def runs_1 intro!: properties_for_sort [symmetric])

lemma sort_map_unat: "sort (map unat xs) = map unat (sort (xs :: u64 list))"
  by (rule properties_for_sort) (auto simp: sorted_map word_le_nat_alt [abs_def, symmetric])

lemma median_u64:
  assumes "xs \<noteq> []"
  shows "unat (if odd (length xs) then sort xs ! (length xs div 2)
      else AverageUnsigned (sort xs ! (length xs div 2)) (sort xs ! (length xs div 2 - 1))) = median (map unat xs)"
proof -
  have "length xs div 2 < length xs" "length xs div 2 - 1 < length xs" using assms by (cases xs; simp)+
  then show ?thesis by (simp add: median_def sort_map_unat AverageUnsigned_val Let_def)
qed

lemma Oracle_frame:
  "Host.more (s :: Oracle) = Host.more s' \<Longrightarrow> o_Value s = o_Value s' \<and> o_Count s = o_Count s' \<and> o_Provs s = o_Provs s'"
  by (cases s; cases s') simp

lemma AddSigs_more: "AddSigs pks s = Some s' \<Longrightarrow> Host.more s' = Host.more s \<and> h_Sigs s' = h_Sigs s @ pks"
  by (induction pks arbitrary: s) (force dest: AddSig_SomeD(1) split: bind_splits)+

lemma Oracle_Ctor_ok:
  assumes "Oracle_Ctor v pks s = Some s'" and "length pks \<le> 2 ^ 31"
  shows "oracle_ok s' \<and> o_Count s' \<le> 2 ^ 31"
proof -
  have "length pks < 2 ^ 32" using assms(2) by simp
  then have u: "unat (of_nat (length pks) :: u32) = length pks" by (simp add: unat_of_nat)
  have "pks \<noteq> []" using assms(1) by (auto simp: Oracle_Ctor_def Halt_if_def)
  then show ?thesis
    using assms u median_const [of "length pks" "unat v"]
    by (auto simp: Oracle_Ctor_def oracle_ok_def comp_def map_replicate_const word_le_nat_alt split: bind_splits)
qed

lemma Oracle_Set_ok:
  assumes "Oracle_Set i v s = Some s'" and "oracle_ok s" and "o_Count s \<le> 2 ^ 31"
  shows "oracle_ok s' \<and> o_Count s' = o_Count s \<and>
    map pd_Value (o_Provs s') = (map pd_Value (o_Provs s))[unat i := v] \<and> map pd_Pk (o_Provs s') = map pd_Pk (o_Provs s)"
proof -
  let ?n = "unat (o_Count s)" and ?i = "unat i"
  let ?pd = "o_Provs s ! ?i" and ?P = "(o_Provs s)[?i := (o_Provs s ! ?i)\<lparr>pd_Value := v\<rparr>]"
  have len: "length (o_Provs s) = ?n" "0 < ?n" using assms(2) by (simp_all add: oracle_ok_def) (metis length_greater_0_conv)
  have i: "?i < ?n" using assms(1) by (auto simp: Oracle_Set_def Halt_if_def word_le_nat_alt split: if_splits)
  obtain s1 where s1: "AddSig (pd_Pk ?pd) s = Some s1"
    using assms(1) by (auto simp: Oracle_Set_def Halt_if_def Let_def split: bind_splits if_splits)
  note fr = Oracle_frame [OF AddSig_SomeD(5) [OF s1]]
  show ?thesis
  proof (cases "pd_Value ?pd = v")
    case True
    then have "s' = s1" using assms(1) s1 by (auto simp: Oracle_Set_def Halt_if_def Let_def split: if_splits)
    then show ?thesis
      using assms(2) fr True i len by (auto simp: oracle_ok_def map_update intro: list_update_same_conv [THEN iffD2, symmetric])
  next
    case False
    let ?xs = "map pd_Value ?P"
    have data: "map (\<lambda>j. if j = ?i then v else pd_Value (o_Provs (s1\<lparr>o_Provs := (o_Provs s1)[?i := ?pd\<lparr>pd_Value := v\<rparr>]\<rparr>) ! j)) [0..<?n] = ?xs"
      using len i fr by (intro nth_equalityI) (simp_all add: nth_list_update)
    obtain ys where ys: "MergeSort_Do ?xs (o_Count s) = Some ys"
      and s': "s' = s1\<lparr>o_Provs := ?P, o_Value := (if odd ?n then ys ! (?n div 2) else AverageUnsigned (ys ! (?n div 2)) (ys ! (?n div 2 - 1)))\<rparr>"
      using assms(1) s1 False fr data
      by (auto simp: Oracle_Set_def Halt_if_def Let_def split: bind_splits if_splits)
    have l: "length ?xs = ?n" using len by simp
    have "ys = sort ?xs" by (rule MergeSort_is_sort [OF ys l assms(3)])
    moreover have "?xs \<noteq> []" using l len(2) by force
    ultimately have "unat (o_Value s') = median (map unat ?xs)"
      using median_u64 [of ?xs] unfolding l s' by (simp split: if_splits)
    moreover have "map pd_Pk ?P = map pd_Pk (o_Provs s)"
      using len i by (intro nth_equalityI) (simp_all add: nth_list_update)
    ultimately show ?thesis
      using len i fr by (auto simp: oracle_ok_def s' map_update comp_def)
  qed
qed

section \<open>Reachable states\<close>

inductive Oracle_reach :: "ContractID \<Rightarrow> PubKey list \<Rightarrow> Oracle \<Rightarrow> bool" for cid pks where
  create: "Oracle_Ctor v pks (begin_call cid ht s) = Some s' \<Longrightarrow> Oracle_reach cid pks s'"
| set: "Oracle_reach cid pks s \<Longrightarrow> Oracle_Set i v (begin_call cid ht s) = Some s' \<Longrightarrow> Oracle_reach cid pks s'"

lemma Oracle_reach_ok:
  assumes "Oracle_reach cid pks s" and "length pks \<le> 2 ^ 31"
  shows "oracle_ok s \<and> o_Count s \<le> 2 ^ 31 \<and> map pd_Pk (o_Provs s) = pks"
  using assms(1)
proof (induction rule: Oracle_reach.induct)
  case (create v ht s s')
  have "map pd_Pk (o_Provs s') = pks"
    using create by (auto simp: Oracle_Ctor_def comp_def split: bind_splits)
  then show ?case using Oracle_Ctor_ok [OF create assms(2)] by simp
next
  case (set s i v ht s')
  have "oracle_ok (begin_call cid ht s) \<and> o_Count (begin_call cid ht s) \<le> 2 ^ 31 \<and> map pd_Pk (o_Provs (begin_call cid ht s)) = pks"
    using set.IH Oracle_frame [of "begin_call cid ht s" s] by (simp add: oracle_ok_def)
  then show ?case using Oracle_Set_ok [OF set.hyps(2)] by simp
qed

text \<open>C15: The oracle always publishes the median.  In every state reached from a constructor call with at most \<open>2 ^ 31\<close>
  providers by reports of the providers, the value the oracle returns is the median of the values last reported: the middle
  one in sorted order, or the mean of the two middle ones, rounded down, when their number is even.\<close>

theorem Oracle_publishes_median:
  assumes "Oracle_reach cid pks s" and "length pks \<le> 2 ^ 31"
  shows "unat (Oracle_Get s) = median (map (unat \<circ> pd_Value) (o_Provs s))"
  using Oracle_reach_ok [OF assms] by (simp add: oracle_ok_def Oracle_Get_def)

definition Oracle_blank :: Oracle where
  "Oracle_blank = \<lparr>h_Calls = [7], h_Height = 0, h_ImportNnz = (\<lambda>pk. m_X pk \<noteq> 0), h_Sigs = [], h_FundsIO = Map.empty,
     h_Locked = (\<lambda>c a. []), h_Refs = (\<lambda>c d. []), h_RefsTotal = (\<lambda>c. []), h_Code = (\<lambda>c. []),
     o_Value = 0, o_Count = 0, o_Provs = []\<rparr>"

theorem Oracle_publishes_median_witness:
  "\<exists>s. Oracle_reach 7 [\<lparr>m_X = 1, m_Y = 0\<rparr>, \<lparr>m_X = 2, m_Y = 0\<rparr>] s \<and> map pd_Value (o_Provs s) = [100, 250] \<and> unat (Oracle_Get s) = 175"
proof -
  let ?p1 = "\<lparr>m_X = 1, m_Y = 0\<rparr> :: PubKey" and ?p2 = "\<lparr>m_X = 2, m_Y = 0\<rparr> :: PubKey"
  obtain s1 where s1: "Oracle_Ctor 100 [?p1, ?p2] (begin_call 7 0 Oracle_blank) = Some s1"
    by (simp add: Oracle_Ctor_def Halt_if_def AddSig_def Oracle_blank_def begin_call_def)
  have p1: "o_Provs s1 = [\<lparr>pd_Value = 100, pd_Pk = ?p1\<rparr>, \<lparr>pd_Value = 100, pd_Pk = ?p2\<rparr>]" "o_Count s1 = 2" "h_ImportNnz s1 = (\<lambda>pk. m_X pk \<noteq> 0)"
    using s1 by (auto simp: Oracle_Ctor_def Halt_if_def AddSig_def Oracle_blank_def begin_call_def)
  let ?s = "begin_call 7 1 s1"
  have fr: "o_Provs ?s = o_Provs s1" "o_Count ?s = 2" using Oracle_frame [of ?s s1] p1 by simp_all
  have "length [100, 250 :: u64] = unat (2 :: u32)" "(2 :: u32) \<le> 2 ^ 31" by simp_all
  from MergeSort_loop_sorts [of 1 0 2 "[100, 250 :: u64]"] obtain ys where "MergeSort_Do [100, 250 :: u64] 2 = Some ys"
    by (auto simp: MergeSort_Do_def runs_1)
  moreover have "\<not> (2 :: u32) \<le> 1" by (simp add: word_le_nat_alt)
  ultimately obtain s2 where s2: "Oracle_Set 1 250 ?s = Some s2"
    using fr p1 by (simp add: Oracle_Set_def Halt_if_def AddSig_def Let_def upt_rec)
  have r: "Oracle_reach 7 [?p1, ?p2] s2" by (rule Oracle_reach.set [OF Oracle_reach.create [OF s1] s2])
  have "oracle_ok ?s" "o_Count ?s \<le> 2 ^ 31" using Oracle_Ctor_ok [OF s1] fr Oracle_frame [of ?s s1] by (simp_all add: oracle_ok_def)
  then have v: "map pd_Value (o_Provs s2) = [100, 250]" using Oracle_Set_ok [OF s2] fr(1) p1(1) by simp
  have "map (unat \<circ> pd_Value) (o_Provs s2) = map unat (map pd_Value (o_Provs s2))" by simp
  also have "\<dots> = [100, 250]" unfolding v by simp
  finally have "unat (Oracle_Get s2) = median [100, 250]" using Oracle_publishes_median [OF r] by simp
  then show ?thesis using r v by (auto simp: median_def Let_def)
qed

end
