(* ===== verification/Bvm_Assets.thy ===== *)
theory Bvm_Assets
  imports Bvm_Host Node_Rollback
begin

text \<open>
  Assets owned by contracts: the methods \<open>AssetCreate\<close>, \<open>AssetEmit\<close> and \<open>AssetDestroy\<close> of \<open>src/bvm/bvm2.cpp\<close> on top of the
  node's handlers (\<open>BvmProcessor\<close> in \<open>src/node/processor.cpp\<close>).  The state adds to the host the owner keys of the assets
  of a contract (the variables under \<open>VarKey::Tag::OwnedAsset\<close>) and the node's side: the interpretation context with its
  rollback buffer and the asset table.  The hash functions, among them the one that derives the owner of an asset from
  the contract and the metadata, are parameters.  Events for the explorer are not modelled.
\<close>

section \<open>Operations\<close>

record 'h AssetEnv =
  ev_f :: "'h \<Rightarrow> 'h \<Rightarrow> 'h"
  ev_z :: 'h
  ev_gh :: "nat \<Rightarrow> AssetInfo \<Rightarrow> 'h"
  ev_own :: "ContractID \<Rightarrow> bytes \<Rightarrow> PeerID"

record 'h AHost = Host +
  a_Owned :: "ContractID \<Rightarrow> AssetID \<Rightarrow> PeerID option"
  a_Bic :: Bic
  a_Db :: "'h AssetDb"

definition DepositForList :: Amount where
  "DepositForList = 3000 * 100000000"

definition s_MetadataMaxSize :: nat where
  "s_MetadataMaxSize = 1024 * 16"

definition BvmProcessor_AssetCreate ::
  "'h AssetEnv \<Rightarrow> bytes \<Rightarrow> PeerID \<Rightarrow> ('h, 'm) AHost_scheme \<Rightarrow> (nat \<times> ('h, 'm) AHost_scheme) option" where
  "BvmProcessor_AssetCreate E md owner s =
     HandleAssetCreate (ev_f E) (ev_z E) (ev_gh E) owner md (a_Bic s) (a_Db s) \<bind> (\<lambda>(ok, aid, bic, db).
     if ok then Some (aid, s\<lparr>a_Bic := bic_Ser PortionTagCreate bic, a_Db := db\<rparr>)
     else Some (0, s\<lparr>a_Bic := bic, a_Db := db\<rparr>))"

definition BvmProcessor_AssetEmit ::
  "'h AssetEnv \<Rightarrow> nat \<Rightarrow> PeerID \<Rightarrow> u64 \<Rightarrow> ('h, 'm) AHost_scheme \<Rightarrow> (bool \<times> ('h, 'm) AHost_scheme) option" where
  "BvmProcessor_AssetEmit E aid owner val s =
     HandleAssetEmit (ev_f E) (ev_z E) (ev_gh E) owner aid val (a_Bic s) (a_Db s) \<bind> (\<lambda>(ok, bic, db).
     if ok then Some (True, s\<lparr>a_Bic := bic_Ser (PortionTagEmit aid val) bic, a_Db := db\<rparr>)
     else Some (False, s\<lparr>a_Bic := bic, a_Db := db\<rparr>))"

definition BvmProcessor_AssetDestroy ::
  "'h AssetEnv \<Rightarrow> nat \<Rightarrow> PeerID \<Rightarrow> ('h, 'm) AHost_scheme \<Rightarrow> (bool \<times> ('h, 'm) AHost_scheme) option" where
  "BvmProcessor_AssetDestroy E aid owner s =
     HandleAssetDestroy (ev_f E) (ev_z E) (ev_gh E) owner aid (a_Bic s) (a_Db s) \<bind> (\<lambda>(ok, bic, db).
     if ok then Some (True, s\<lparr>a_Bic := bic_Ser (PortionTagDestroy aid owner) bic, a_Db := db\<rparr>)
     else Some (False, s\<lparr>a_Bic := bic, a_Db := db\<rparr>))"

definition get_AssetStrict :: "AssetID \<Rightarrow> ('h, 'm) AHost_scheme \<Rightarrow> PeerID option" where
  "get_AssetStrict aid s = (case h_Calls s of [] \<Rightarrow> None | me # _ \<Rightarrow> a_Owned s me aid)"

definition set_Owned :: "AssetID \<Rightarrow> PeerID option \<Rightarrow> ('h, 'm) AHost_scheme \<Rightarrow> ('h, 'm) AHost_scheme" where
  "set_Owned aid owner s =
     (case h_Calls s of [] \<Rightarrow> s | me # _ \<Rightarrow> s\<lparr>a_Owned := (a_Owned s)(me := (a_Owned s me)(aid := owner))\<rparr>)"

definition bvm_AssetCreate ::
  "'h AssetEnv \<Rightarrow> bytes \<Rightarrow> ('h, 'm) AHost_scheme \<Rightarrow> (AssetID \<times> ('h, 'm) AHost_scheme) option" where
  "bvm_AssetCreate E md s =
     (case h_Calls s of
        [] \<Rightarrow> None
      | me # _ \<Rightarrow>
          do {
            Halt_if (md = [] \<or> length md > s_MetadataMaxSize);
            let owner = ev_own E me md;
            (ret, s) \<leftarrow> BvmProcessor_AssetCreate E md owner s;
            if ret \<noteq> 0 then
              Some (of_nat ret, set_Owned (of_nat ret) (Some owner) (HandleAmountOuter DepositForList 0 True s))
            else Some (0, s)
          })"

definition bvm_AssetEmit ::
  "'h AssetEnv \<Rightarrow> AssetID \<Rightarrow> Amount \<Rightarrow> bool \<Rightarrow> ('h, 'm) AHost_scheme \<Rightarrow> (bool \<times> ('h, 'm) AHost_scheme) option" where
  "bvm_AssetEmit E aid amt bEmit s = do {
     owner \<leftarrow> get_AssetStrict aid s;
     Halt_if (sint amt < 0);
     let valS = (if bEmit then amt else - amt);
     Halt_if (\<not> bEmit \<and> sint valS > 0);
     (b, s) \<leftarrow> BvmProcessor_AssetEmit E (unat aid) owner valS s;
     if b then do { s \<leftarrow> HandleAmountInner amt aid bEmit s; Some (True, s) } else Some (False, s)
   }"

definition bvm_AssetDestroy ::
  "'h AssetEnv \<Rightarrow> AssetID \<Rightarrow> ('h, 'm) AHost_scheme \<Rightarrow> (bool \<times> ('h, 'm) AHost_scheme) option" where
  "bvm_AssetDestroy E aid s = do {
     owner \<leftarrow> get_AssetStrict aid s;
     (b, s) \<leftarrow> BvmProcessor_AssetDestroy E (unat aid) owner s;
     if b then Some (True, set_Owned aid None (HandleAmountOuter DepositForList 0 False s)) else Some (False, s)
   }"

section \<open>Emission is balanced\<close>

definition asset_supply :: "('h, 'm) AHost_scheme \<Rightarrow> AssetID \<Rightarrow> nat" where
  "asset_supply s aid = (case db_Assets (a_Db s) (unat aid) of None \<Rightarrow> 0 | Some ai \<Rightarrow> be_val (ai_Value ai))"

lemma emit_value_up:
  assumes "amount16 v" and "emit_fits True v (emit_amount val)" and "0 \<le> sint val"
  shows "be_val (emit_value True v (emit_amount val)) = be_val v + unat val"
proof -
  have e: "be_val (emit_amount val) = unat val" using assms(3) by (simp add: emit_amount_def amount_of_u64)
  have s: "be_val (emit_amount val) < 2 ^ 128" by (rule amount_less) (simp add: emit_amount_def amount_of_u64)
  show ?thesis using assms(2) amount_add(2) [OF assms(1) s] e by (simp add: emit_fits_def emit_value_def)
qed

lemma emit_amount_neg:
  assumes "0 < sint val"
  shows "sint (- val) < 0" "emit_amount (- val) = uAssignOrdinal (replicate 16 0) val"
proof -
  have "sint (- val) = signed_take_bit 63 (- sint val)" by (simp add: sint_word_ariths)
  moreover have "signed_take_bit 63 (- sint val) = - sint val"
    using assms sint_less [of val] by (intro signed_take_bit_int_eq_self) simp_all
  ultimately show "sint (- val) < 0" using assms by simp
  then show "emit_amount (- val) = uAssignOrdinal (replicate 16 0) val" by (simp add: emit_amount_def)
qed

lemma emit_value_down:
  assumes "amount16 v" and "emit_fits False v (emit_amount (- val))" and "0 < sint val"
  shows "unat val \<le> be_val v" "be_val (emit_value False v (emit_amount (- val))) = be_val v - unat val"
proof -
  let ?a = "uAssignOrdinal (replicate 16 0) val"
  show le: "unat val \<le> be_val v"
    using assms(2) by (simp add: emit_fits_def emit_amount_neg [OF assms(3)] uCmp_less_0 amount_of_u64 not_less)
  show "be_val (emit_value False v (emit_amount (- val))) = be_val v - unat val"
    using amount_sub_negated [OF assms(1), of ?a] le by (simp add: emit_value_def emit_amount_neg [OF assms(3)] amount_of_u64)
qed

lemma HandleAssetEmit_value:
  assumes "HandleAssetEmit f z gh owner aid (if bEmit then amt else - amt) bic db = Some (True, bic', db')"
    and "applying bic" and "values_ok db" and "0 \<le> sint amt"
  shows "\<exists>ai ai'. db_Assets db aid = Some ai \<and> db_Assets db' = (db_Assets db)(aid \<mapsto> ai') \<and> ai_Owner ai = owner \<and>
    ai_Owner ai' = owner \<and> amount16 (ai_Value ai') \<and> (\<not> bEmit \<longrightarrow> unat amt \<le> be_val (ai_Value ai)) \<and>
    be_val (ai_Value ai') = (if bEmit then be_val (ai_Value ai) + unat amt else be_val (ai_Value ai) - unat amt) \<and>
    applying bic'"
proof -
  obtain ai where ai: "db_Assets db aid = Some ai"
    using assms(1) by (auto simp: HandleAssetEmit_def split: option.splits)
  have fwd: "m_Fwd bic" "\<not> m_AlreadyValidated bic" using assms(2) by (simp_all add: applying_def)
  have va: "amount16 (ai_Value ai)" by (rule values_okD [OF assms(3) ai])
  let ?val = "if bEmit then amt else - amt"
  let ?up = "0 \<le> sint ?val"
  define w where "w = emit_value ?up (ai_Value ai) (emit_amount ?val)"
  define l where "l = (if memis0 w \<noteq> memis0 (ai_Value ai) then m_Height bic else ai_LockHeight ai)"
  have own: "ai_Owner ai = owner" and fits: "emit_fits ?up (ai_Value ai) (emit_amount ?val)"
    and db': "db' = emit_store f gh aid (ai\<lparr>ai_Value := w, ai_LockHeight := l\<rparr>) (m_SkipDefinition bic) db"
    and ap: "applying bic'"
    using assms(1) fwd assms(2)
    by (auto simp: HandleAssetEmit_eq [OF ai] Let_def w_def [symmetric] l_def emit_lock_def applying_def bic_Ser_def split: if_splits)
  have wv: "(\<not> bEmit \<longrightarrow> unat amt \<le> be_val (ai_Value ai)) \<and>
    be_val w = (if bEmit then be_val (ai_Value ai) + unat amt else be_val (ai_Value ai) - unat amt)"
  proof (cases "bEmit \<or> amt = 0")
    case True
    then have "?val = amt" by auto
    then show ?thesis using True emit_value_up [OF va, of amt] fits assms(4) by (auto simp: w_def)
  next
    case False
    then have "0 < sint amt" using assms(4) by (metis order_le_less sint_0 signed_word_eqI)
    then show ?thesis using False emit_value_down [OF va, of amt] emit_amount_neg(1) [of amt] fits by (simp add: w_def)
  qed
  have "amount16 w" using va by (simp add: w_def)
  then show ?thesis
    by (intro exI [of _ ai] exI [of _ "ai\<lparr>ai_Value := w, ai_LockHeight := l\<rparr>"]) (use ai own wv ap in \<open>simp add: db'\<close>)
qed

text \<open>C12: A contract emits and burns its asset in balance.  When \<open>AssetEmit\<close> succeeds, the running contract owns the asset,
  the supply of the asset and the funds of the contract in it both grow by the amount, or both fall by it when burning,
  neither below zero; no other asset, no other balance and no transfer with the transaction is touched.\<close>

theorem AssetEmit_balanced:
  fixes s s' :: "('h, 'm) AHost_scheme"
  assumes "bvm_AssetEmit E aid amt bEmit s = Some (True, s')" and "applying (a_Bic s)" and "values_ok (a_Db s)" and "in_call s"
  shows "a_Owned s (hd (h_Calls s)) aid \<noteq> None \<and> h_FundsIO s' = h_FundsIO s \<and>
    (if bEmit then asset_supply s' aid = asset_supply s aid + unat amt \<and> my_funds s' aid = my_funds s aid + unat amt
     else asset_supply s' aid + unat amt = asset_supply s aid \<and> my_funds s' aid + unat amt = my_funds s aid) \<and>
    (\<forall>b. b \<noteq> aid \<longrightarrow> asset_supply s' b = asset_supply s b) \<and>
    (\<forall>c b. c \<noteq> hd (h_Calls s) \<or> b \<noteq> aid \<longrightarrow> locked s' c b = locked s c b)"
proof -
  obtain me cs where me: "h_Calls s = me # cs" using assms(4) by (cases "h_Calls s") (simp_all add: in_call_def)
  obtain owner bic db where own: "a_Owned s me aid = Some owner" and pos: "0 \<le> sint amt"
    and h: "HandleAssetEmit (ev_f E) (ev_z E) (ev_gh E) owner (unat aid) (if bEmit then amt else - amt) (a_Bic s) (a_Db s) = Some (True, bic, db)"
    and i: "HandleAmountInner amt aid bEmit (s\<lparr>a_Bic := bic_Ser (PortionTagEmit (unat aid) (if bEmit then amt else - amt)) bic, a_Db := db\<rparr>) = Some s'"
    using assms(1)
    by (auto simp: bvm_AssetEmit_def get_AssetStrict_def me Halt_if_def Let_def BvmProcessor_AssetEmit_def split: bind_splits if_splits)
  define s1 where "s1 = s\<lparr>a_Bic := bic_Ser (PortionTagEmit (unat aid) (if bEmit then amt else - amt)) bic, a_Db := db\<rparr>"
  obtain ai ai' where d: "db_Assets (a_Db s) (unat aid) = Some ai" "db_Assets db = (db_Assets (a_Db s))(unat aid \<mapsto> ai')"
    "\<not> bEmit \<longrightarrow> unat amt \<le> be_val (ai_Value ai)"
    "be_val (ai_Value ai') = (if bEmit then be_val (ai_Value ai) + unat amt else be_val (ai_Value ai) - unat amt)"
    using HandleAssetEmit_value [OF h assms(2,3) pos] by blast
  have l1: "locked s1 = locked s" "h_Calls s1 = me # cs" "h_FundsIO s1 = h_FundsIO s"
    by (simp_all add: locked_def fun_eq_iff me s1_def)
  have i': "if bEmit then locked s me aid + unat amt < 2 ^ 128 \<and> s' = set_locked me aid (locked s me aid + unat amt) s1
    else unat amt \<le> locked s me aid \<and> s' = set_locked me aid (locked s me aid - unat amt) s1"
    using i [folded s1_def] HandleAmountInner_lock [OF l1(2), of amt aid] HandleAmountInner_unlock [OF l1(2), of amt aid]
    by (cases bEmit) (auto simp: l1 split: if_splits)
  have db: "a_Db s' = db" using i' by (auto simp: set_locked_def s1_def split: if_splits)
  have "h_FundsIO s' = h_FundsIO s" "h_Calls s' = h_Calls s" using i' l1 by (auto simp: me split: if_splits)
  moreover have "locked s' c b = (if c = me \<and> b = aid then (if bEmit then locked s me aid + unat amt else locked s me aid - unat amt) else locked s c b)" for c b
  proof -
    have "locked s me aid - unat amt < 2 ^ 128" using locked_less [of s me aid] by linarith
    then show ?thesis using i' l1(1) by (auto split: if_splits)
  qed
  moreover have "asset_supply s' b = (if b = aid then be_val (ai_Value ai') else asset_supply s b)" for b
    using d(2) by (cases "b = aid") (simp_all add: asset_supply_def db word_unat_eq_iff)
  moreover have "asset_supply s aid = be_val (ai_Value ai)" using d(1) by (simp add: asset_supply_def)
  ultimately show ?thesis using own d(3,4) i' by (auto simp: me my_funds_def)
qed

text \<open>A node with one asset of contract 7.\<close>

definition ahost_example :: "unit AHost" where
  "ahost_example = \<lparr>h_Calls = [7], h_Height = 0, h_ImportNnz = (\<lambda>pk. m_X pk \<noteq> 0), h_Sigs = [], h_FundsIO = Map.empty,
     h_Locked = (\<lambda>c a. []), h_Refs = (\<lambda>c d. []), h_RefsTotal = (\<lambda>c. []), h_Code = (\<lambda>c. []),
     a_Owned = (\<lambda>c a. if c = 7 \<and> a = 1 then Some 5 else None), a_Bic = bic_init True 10 [],
     a_Db = \<lparr>db_Assets = [1 \<mapsto> \<lparr>ai_Value = replicate 16 0, ai_Owner = 5, ai_LockHeight = 0, ai_Metadata = [1]\<rparr>],
       db_Empty = [], db_Count = 1, db_Used = 1, db_Mmr = \<lparr>m_Count = 1, m_Store = (\<lambda>i. ())\<rparr>\<rparr>\<rparr>"

definition env_example :: "unit AssetEnv" where
  "env_example = \<lparr>ev_f = (\<lambda>x y. ()), ev_z = (), ev_gh = (\<lambda>i ai. ()), ev_own = (\<lambda>c md. 5)\<rparr>"

theorem AssetEmit_balanced_witness:
  "\<exists>s'. bvm_AssetEmit env_example 1 100 True ahost_example = Some (True, s') \<and> asset_supply s' 1 = 100 \<and> my_funds s' 1 = 100"
proof -
  have ap: "applying (a_Bic ahost_example)" by (simp add: applying_def ahost_example_def bic_init_def)
  have vo: "values_ok (a_Db ahost_example)" by (simp add: values_ok_def ahost_example_def)
  have c: "in_call ahost_example" by (simp add: in_call_def ahost_example_def)
  have z: "asset_supply ahost_example 1 = 0" "my_funds ahost_example 1 = 0"
    by (simp_all add: asset_supply_def my_funds_def locked_def LoadFixedOrZero_def ahost_example_def)
  let ?ai = "\<lparr>ai_Value = replicate 16 0, ai_Owner = 5, ai_LockHeight = 0, ai_Metadata = [1]\<rparr> :: AssetInfo"
  have ai: "db_Assets (a_Db ahost_example) 1 = Some ?ai" by (simp add: ahost_example_def)
  have f: "emit_fits True (replicate 16 0) (emit_amount 100)" by code_simp
  have b: "m_Fwd (a_Bic ahost_example)" "0 \<le> sint (100 :: u64)" by (simp_all add: ahost_example_def bic_init_def)
  let ?w = "emit_value True (replicate 16 0) (emit_amount 100)"
  obtain hb where "emit_lock (memis0 ?w \<noteq> memis0 (replicate 16 0)) 0 (a_Bic ahost_example) = Some hb"
    using b(1) by (cases "memis0 ?w \<noteq> memis0 (replicate 16 (0 :: u8))") (simp_all add: emit_lock_def)
  then obtain bic db where h: "HandleAssetEmit (ev_f env_example) (ev_z env_example) (ev_gh env_example) 5 1 100 (a_Bic ahost_example) (a_Db ahost_example) = Some (True, bic, db)"
    unfolding HandleAssetEmit_eq [OF ai] using f b by (cases hb) (simp add: Let_def)
  let ?s1 = "ahost_example\<lparr>a_Bic := bic_Ser (PortionTagEmit 1 100) bic, a_Db := db\<rparr>"
  have "h_Calls ?s1 = 7 # []" "locked ?s1 7 1 = 0" by (simp_all add: ahost_example_def locked_def LoadFixedOrZero_def)
  then have "\<exists>s'. HandleAmountInner 100 1 True ?s1 = Some s'" using HandleAmountInner_lock [of ?s1 7 "[]" 100 1] by simp
  moreover have "get_AssetStrict 1 ahost_example = Some 5" by (simp add: get_AssetStrict_def ahost_example_def)
  ultimately have "\<exists>s'. bvm_AssetEmit env_example 1 100 True ahost_example = Some (True, s')"
    using h b by (auto simp: bvm_AssetEmit_def Halt_if_def Let_def BvmProcessor_AssetEmit_def)
  then obtain s' where s': "bvm_AssetEmit env_example 1 100 True ahost_example = Some (True, s')" by blast
  show ?thesis using AssetEmit_balanced [OF s' ap vo c] z s' by auto
qed

end
