(* ===== verification/Contract_Mintor.thy ===== *)
theory Contract_Mintor
  imports Bvm_Assets
begin

text \<open>
  The mintor contract (\<open>src/bvm/Shaders/mintor\<close>): anybody creates a token with a limit, its owner mints and burns it, users
  transfer it, and a token may be backed by a confidential asset of the contract.  The model keeps the line of \<open>Method_4\<close>
  that assigns the owner of the new token to itself; the consequences are shown at the end.
\<close>

section \<open>Data\<close>

record MintorAmount =
  m_Lo :: Amount
  m_Hi :: Amount

definition MintorAmount_add :: "Amount \<Rightarrow> MintorAmount \<Rightarrow> MintorAmount option" where
  "MintorAmount_add val x =
     (let lo = m_Lo x + val
      in if lo < val then do { let hi = m_Hi x + 1; Halt_if (hi = 0); Some \<lparr>m_Lo = lo, m_Hi = hi\<rparr> }
         else Some (x\<lparr>m_Lo := lo\<rparr>))"

definition MintorAmount_sub :: "Amount \<Rightarrow> MintorAmount \<Rightarrow> MintorAmount option" where
  "MintorAmount_sub val x =
     (if m_Lo x < val then do { Halt_if (m_Hi x = 0); Some \<lparr>m_Lo = m_Lo x - val, m_Hi = m_Hi x - 1\<rparr> }
      else Some (x\<lparr>m_Lo := m_Lo x - val\<rparr>))"

definition PubKeyFlag_Cid :: u8 where
  "PubKeyFlag_Cid = 2"

definition PubKeyFlag_CA :: u8 where
  "PubKeyFlag_CA = 3"

type_synonym TokenID = u32

record Token =
  t_Mint :: MintorAmount
  t_Limit :: MintorAmount
  t_pkOwner :: PubKey
  t_Aid :: AssetID

record 'h Mintor = "'h AHost" +
  mi_Tokens :: "TokenID option"
  mi_Token :: "TokenID \<rightharpoonup> Token"
  mi_User :: "TokenID \<times> PubKey \<rightharpoonup> Amount"

definition zero_pk :: PubKey where
  "zero_pk = \<lparr>m_X = 0, m_Y = 0\<rparr>"

definition zero_Token :: Token where
  "zero_Token = \<lparr>t_Mint = \<lparr>m_Lo = 0, m_Hi = 0\<rparr>, t_Limit = \<lparr>m_Lo = 0, m_Hi = 0\<rparr>, t_pkOwner = zero_pk, t_Aid = 0\<rparr>"

section \<open>Methods\<close>

definition Mintor_View :: "TokenID \<Rightarrow> ('h, 'm) Mintor_scheme \<Rightarrow> Token" where
  "Mintor_View tid s = (case mi_Token s tid of Some t \<Rightarrow> t | None \<Rightarrow> zero_Token)"

definition AddSigPlus :: "PubKey \<Rightarrow> ('h, 'm) Mintor_scheme \<Rightarrow> ('h, 'm) Mintor_scheme option" where
  "AddSigPlus pk s =
     (if m_Y pk = 0 \<or> m_Y pk = 1 then AddSig pk s
      else if m_Y pk = PubKeyFlag_Cid then do { cid \<leftarrow> get_CallerCid 1 s; Halt_if (cid \<noteq> m_X pk); Some s }
      else None)"

definition User_get :: "TokenID \<Rightarrow> PubKey \<Rightarrow> ('h, 'm) Mintor_scheme \<Rightarrow> Amount" where
  "User_get tid pk s = (case mi_User s (tid, pk) of Some v \<Rightarrow> v | None \<Rightarrow> 0)"

definition User_set :: "TokenID \<Rightarrow> PubKey \<Rightarrow> Amount \<Rightarrow> ('h, 'm) Mintor_scheme \<Rightarrow> ('h, 'm) Mintor_scheme" where
  "User_set tid pk v s =
     s\<lparr>mi_User := (if v \<noteq> 0 then (mi_User s)((tid, pk) \<mapsto> v) else (mi_User s)((tid, pk) := None))\<rparr>"

definition User_Modify ::
  "'h AssetEnv \<Rightarrow> TokenID \<Rightarrow> Token \<Rightarrow> PubKey \<Rightarrow> Amount \<Rightarrow> bool \<Rightarrow> ('h, 'm) Mintor_scheme \<Rightarrow> (Token \<times> ('h, 'm) Mintor_scheme) option" where
  "User_Modify E tid t pk val bAdd s =
     (if m_Y pk = PubKeyFlag_CA then do {
        t \<leftarrow> (if t_Aid t = 0 then do { t \<leftarrow> mi_Token s tid; Halt_if (t_Aid t = 0); Some t } else Some t);
        Halt_if (t_Aid t = 0);
        if bAdd then do {
          (b, s) \<leftarrow> bvm_AssetEmit E (t_Aid t) val True s;
          Halt_if (\<not> b);
          s \<leftarrow> FundsUnlock (t_Aid t) val s;
          Some (t, s)
        } else do {
          s \<leftarrow> FundsLock (t_Aid t) val s;
          (b, s) \<leftarrow> bvm_AssetEmit E (t_Aid t) val False s;
          Halt_if (\<not> b);
          Some (t, s)
        }
      } else do {
        let val0 = User_get tid pk s;
        if bAdd then do {
          val0 \<leftarrow> strict_Add val0 val;
          Some (t, User_set tid pk val0 s)
        } else do {
          val0 \<leftarrow> strict_Sub val0 val;
          s \<leftarrow> AddSigPlus pk s;
          Some (t, User_set tid pk val0 s)
        }
      })"

definition Mintor_ViewUser :: "TokenID \<Rightarrow> PubKey \<Rightarrow> ('h, 'm) Mintor_scheme \<Rightarrow> Amount" where
  "Mintor_ViewUser tid pk s = User_get tid pk s"

definition Mintor_Create :: "PubKey \<Rightarrow> MintorAmount \<Rightarrow> ('h, 'm) Mintor_scheme \<Rightarrow> (TokenID \<times> ('h, 'm) Mintor_scheme) option" where
  "Mintor_Create pkUser limit s =
     (let tokens = (case mi_Tokens s of Some n \<Rightarrow> n | None \<Rightarrow> 0) + 1;
          t = zero_Token\<lparr>t_Limit := limit\<rparr>;
          t = t\<lparr>t_pkOwner := t_pkOwner t\<rparr>
      in Some (tokens, s\<lparr>mi_Tokens := Some tokens, mi_Token := (mi_Token s)(tokens \<mapsto> t)\<rparr>))"

definition Mintor_Mint ::
  "'h AssetEnv \<Rightarrow> TokenID \<Rightarrow> PubKey \<Rightarrow> Amount \<Rightarrow> bool \<Rightarrow> ('h, 'm) Mintor_scheme \<Rightarrow> ('h, 'm) Mintor_scheme option" where
  "Mintor_Mint E tid pkUser val bMint s = do {
     t \<leftarrow> mi_Token s tid;
     mint \<leftarrow> (if bMint then do {
         mint \<leftarrow> MintorAmount_add val (t_Mint t);
         let bOverflow = (m_Hi mint > m_Hi (t_Limit t) \<or> m_Hi mint = m_Hi (t_Limit t) \<and> m_Lo mint > m_Lo (t_Limit t));
         Halt_if bOverflow;
         Some mint
       } else MintorAmount_sub val (t_Mint t));
     (t, s) \<leftarrow> User_Modify E tid (t\<lparr>t_Mint := mint\<rparr>) pkUser val bMint s;
     let s = s\<lparr>mi_Token := (mi_Token s)(tid \<mapsto> t)\<rparr>;
     if bMint \<or> pkUser \<noteq> t_pkOwner t then AddSigPlus (t_pkOwner t) s else Some s
   }"

definition Mintor_Transfer ::
  "'h AssetEnv \<Rightarrow> TokenID \<Rightarrow> PubKey \<Rightarrow> Amount \<Rightarrow> PubKey \<Rightarrow> ('h, 'm) Mintor_scheme \<Rightarrow> ('h, 'm) Mintor_scheme option" where
  "Mintor_Transfer E tid pkUser val pkDst s = do {
     (t, s) \<leftarrow> User_Modify E tid (zero_Token\<lparr>t_Aid := 0\<rparr>) pkUser val False s;
     (t, s) \<leftarrow> User_Modify E tid t pkDst val True s;
     Some s
   }"

definition Mintor_Meta :: "TokenID \<Rightarrow> bytes" where
  "Mintor_Meta tid =
     map of_char ''STD:SCH_VER=1;N=Mintor Generic Token;SN=Generic;UN=GENERIC;NTHUN=GROTH'' @ [0] @ rev (be_bytes 4 (unat tid))"

definition Mintor_CreateCA :: "'h AssetEnv \<Rightarrow> TokenID \<Rightarrow> ('h, 'm) Mintor_scheme \<Rightarrow> ('h, 'm) Mintor_scheme option" where
  "Mintor_CreateCA E tid s = do {
     t \<leftarrow> mi_Token s tid;
     Halt_if (t_Aid t \<noteq> 0);
     (aid, s) \<leftarrow> bvm_AssetCreate E (Mintor_Meta tid) s;
     Halt_if (aid = 0);
     Some (s\<lparr>mi_Token := (mi_Token s)(tid \<mapsto> t\<lparr>t_Aid := aid\<rparr>)\<rparr>)
   }"

section \<open>What the owner of a token is\<close>

text \<open>The part of the state a call leaves alone while it moves funds and assets.\<close>

definition same_tokens :: "('h, 'm) Mintor_scheme \<Rightarrow> ('h, 'm) Mintor_scheme \<Rightarrow> bool" where
  "same_tokens s s' \<longleftrightarrow> mi_Token s' = mi_Token s \<and> h_ImportNnz s' = h_ImportNnz s \<and> h_Calls s' = h_Calls s"

lemma same_tokens_trans: "same_tokens s s' \<Longrightarrow> same_tokens s' s'' \<Longrightarrow> same_tokens s s''"
  by (simp add: same_tokens_def)

lemma AddSig_same: "AddSig pk s = Some s' \<Longrightarrow> same_tokens s s'"
  by (auto simp: AddSig_def same_tokens_def split: if_splits)

lemma AddSigPlus_same: "AddSigPlus pk s = Some s' \<Longrightarrow> same_tokens s s'"
  by (auto simp: AddSigPlus_def Halt_if_def same_tokens_def AddSig_def split: bind_splits if_splits)

lemma HandleAmountInner_same: "HandleAmountInner v a b s = Some s' \<Longrightarrow> same_tokens s s'"
  by (auto simp: HandleAmountInner_def Let_def same_tokens_def split: list.splits if_splits)

lemma HandleAmount_same: "HandleAmount v a b s = Some s' \<Longrightarrow> same_tokens s s'"
  by (auto simp: HandleAmount_def HandleAmountOuter_def same_tokens_def dest!: HandleAmountInner_same split: bind_splits)

lemma bvm_AssetEmit_same: "bvm_AssetEmit E a v b s = Some (ok, s') \<Longrightarrow> same_tokens s s'"
  by (auto simp: bvm_AssetEmit_def Let_def BvmProcessor_AssetEmit_def same_tokens_def dest!: HandleAmountInner_same
      split: bind_splits if_splits)

lemma User_set_same: "same_tokens s (User_set tid pk v s)"
  by (simp add: User_set_def same_tokens_def)

lemma User_Modify_same:
  assumes "User_Modify E tid t pk v b s = Some (t', s')"
  shows "same_tokens s s'" "t' = t \<or> mi_Token s tid = Some t'"
proof -
  show "t' = t \<or> mi_Token s tid = Some t'"
    using assms
    by (cases "m_Y pk = PubKeyFlag_CA"; cases "t_Aid t = 0"; cases b)
      (auto simp: User_Modify_def Let_def bind_eq_Some_conv)
  show "same_tokens s s'"
  proof (cases "m_Y pk = PubKeyFlag_CA")
    case CA: True
    show ?thesis
    proof (cases b)
      case True
      obtain s1 where 1: "bvm_AssetEmit E (t_Aid t') v True s = Some (True, s1)" "FundsUnlock (t_Aid t') v s1 = Some s'"
        using assms CA True by (cases "t_Aid t = 0") (auto simp: User_Modify_def Halt_if_def bind_eq_Some_conv split: if_splits)
      show ?thesis by (rule same_tokens_trans [OF bvm_AssetEmit_same [OF 1(1)] HandleAmount_same [OF 1(2) [unfolded FundsUnlock_def]]])
    next
      case False
      obtain s1 where 1: "FundsLock (t_Aid t') v s = Some s1" "bvm_AssetEmit E (t_Aid t') v False s1 = Some (True, s')"
        using assms CA False by (cases "t_Aid t = 0") (auto simp: User_Modify_def Halt_if_def bind_eq_Some_conv split: if_splits)
      show ?thesis by (rule same_tokens_trans [OF HandleAmount_same [OF 1(1) [unfolded FundsLock_def]] bvm_AssetEmit_same [OF 1(2)]])
    qed
  next
    case acc: False
    show ?thesis
    proof (cases b)
      case True
      then show ?thesis using assms acc User_set_same by (auto simp: User_Modify_def Let_def split: bind_splits)
    next
      case False
      then obtain s1 w where "AddSigPlus pk s = Some s1" "s' = User_set tid pk w s1"
        using assms acc by (auto simp: User_Modify_def Let_def split: bind_splits)
      then show ?thesis using same_tokens_trans [OF AddSigPlus_same User_set_same] by simp
    qed
  qed
qed

definition ownerless :: "('h, 'm) Mintor_scheme \<Rightarrow> bool" where
  "ownerless s \<longleftrightarrow> (\<forall>t \<in> ran (mi_Token s). t_pkOwner t = zero_pk)"

lemma ownerlessD: "ownerless s \<Longrightarrow> mi_Token s tid = Some t \<Longrightarrow> t_pkOwner t = zero_pk"
  by (auto simp: ownerless_def ran_def)

lemma ran_updE: "x \<in> ran (m(a \<mapsto> b)) \<Longrightarrow> x = b \<or> x \<in> ran m"
  by (auto simp: ran_def split: if_splits)

lemma ownerless_upd: "ownerless s \<Longrightarrow> t_pkOwner t = zero_pk \<Longrightarrow> \<forall>x \<in> ran ((mi_Token s)(tid \<mapsto> t)). t_pkOwner x = zero_pk"
  using ran_updE [of _ "mi_Token s" tid t] unfolding ownerless_def by blast

lemma ownerless_same: "same_tokens s s' \<Longrightarrow> ownerless s' = ownerless s"
  by (simp add: same_tokens_def ownerless_def)

lemma Create_ownerless: "Mintor_Create pk l s = Some (tid, s') \<Longrightarrow> ownerless s \<Longrightarrow> ownerless s' \<and> h_ImportNnz s' = h_ImportNnz s \<and> h_Calls s' = h_Calls s"
  using ownerless_upd [of s "zero_Token\<lparr>t_Limit := l\<rparr>"]
  by (auto simp: Mintor_Create_def Let_def zero_Token_def ownerless_def [of s'])

lemma Transfer_same: "Mintor_Transfer E tid pk v dst s = Some s' \<Longrightarrow> same_tokens s s'"
  by (auto simp: Mintor_Transfer_def bind_eq_Some_conv dest!: User_Modify_same(1) intro: same_tokens_trans)

lemma AddSigPlus_zero: "\<not> h_ImportNnz s zero_pk \<Longrightarrow> AddSigPlus zero_pk s = None"
  by (simp add: AddSigPlus_def AddSig_def zero_pk_def)

lemma CreateCA_ownerless:
  assumes "Mintor_CreateCA E tid s = Some s'" and "ownerless s"
  shows "ownerless s' \<and> h_ImportNnz s' = h_ImportNnz s \<and> h_Calls s' = h_Calls s"
proof -
  obtain t aid s1 where t: "mi_Token s tid = Some t" and c: "bvm_AssetCreate E (Mintor_Meta tid) s = Some (aid, s1)"
    and s': "s' = s1\<lparr>mi_Token := (mi_Token s1)(tid \<mapsto> t\<lparr>t_Aid := aid\<rparr>)\<rparr>"
    using assms(1) by (auto simp: Mintor_CreateCA_def Halt_if_def split: bind_splits if_splits)
  have "same_tokens s s1"
    using c by (auto simp: bvm_AssetCreate_def BvmProcessor_AssetCreate_def Let_def set_Owned_def HandleAmountOuter_def same_tokens_def
        split: bind_splits if_splits list.splits)
  then show ?thesis
    using ownerless_upd [OF assms(2), of "t\<lparr>t_Aid := aid\<rparr>" tid] ownerlessD [OF assms(2) t]
    by (simp add: s' same_tokens_def ownerless_def)
qed

lemma Mint_halts:
  assumes "ownerless s" and "\<not> h_ImportNnz s zero_pk"
  shows "Mintor_Mint E tid pk v b s = None"
proof (rule ccontr)
  assume "Mintor_Mint E tid pk v b s \<noteq> None"
  then obtain s' where "Mintor_Mint E tid pk v b s = Some s'" by blast
  then obtain t mint t1 s1 where t: "mi_Token s tid = Some t"
    and u: "User_Modify E tid (t\<lparr>t_Mint := mint\<rparr>) pk v b s = Some (t1, s1)"
    and e: "(if b \<or> pk \<noteq> t_pkOwner t1 then AddSigPlus (t_pkOwner t1) (s1\<lparr>mi_Token := (mi_Token s1)(tid \<mapsto> t1)\<rparr>)
        else Some (s1\<lparr>mi_Token := (mi_Token s1)(tid \<mapsto> t1)\<rparr>)) = Some s'"
    by (auto simp: Mintor_Mint_def Let_def split: bind_splits)
  note m = User_Modify_same [OF u]
  have own: "t_pkOwner t1 = zero_pk" using m(2) ownerlessD [OF assms(1) t] ownerlessD [OF assms(1)] by auto
  have "\<not> h_ImportNnz s1 zero_pk" using m(1) assms(2) by (simp add: same_tokens_def)
  then have "\<not> b" "pk = zero_pk" using e own AddSigPlus_zero [of "s1\<lparr>mi_Token := (mi_Token s1)(tid \<mapsto> t1)\<rparr>"] by (auto split: if_splits)
  then show False
    using u AddSigPlus_zero [OF assms(2)] by (auto simp: User_Modify_def zero_pk_def PubKeyFlag_CA_def Let_def split: bind_splits)
qed

section \<open>Reachable states\<close>

inductive Mintor_call :: "'h AssetEnv \<Rightarrow> ('h, 'm) Mintor_scheme \<Rightarrow> ('h, 'm) Mintor_scheme \<Rightarrow> bool" for E where
  "Mintor_Create pk l s = Some (tid, s') \<Longrightarrow> Mintor_call E s s'"
| "Mintor_Mint E tid pk v b s = Some s' \<Longrightarrow> Mintor_call E s s'"
| "Mintor_Transfer E tid pk v dst s = Some s' \<Longrightarrow> Mintor_call E s s'"
| "Mintor_CreateCA E tid s = Some s' \<Longrightarrow> Mintor_call E s s'"

text \<open>The mintor starts without tokens; a call may come from a transaction or from other contracts, and in between the
  rest of the state may change in any way that keeps the variables of the mintor and the curve.\<close>

inductive Mintor_reach :: "'h AssetEnv \<Rightarrow> (PubKey \<Rightarrow> bool) \<Rightarrow> ('h, 'm) Mintor_scheme \<Rightarrow> bool" for E nnz where
  init: "mi_Token s = Map.empty \<Longrightarrow> h_ImportNnz s = nnz \<Longrightarrow> Mintor_reach E nnz s"
| call: "Mintor_reach E nnz s \<Longrightarrow> Mintor_call E s s' \<Longrightarrow> Mintor_reach E nnz s'"
| other: "Mintor_reach E nnz s \<Longrightarrow> mi_Token s' = mi_Token s \<Longrightarrow> mi_User s' = mi_User s \<Longrightarrow> h_ImportNnz s' = nnz \<Longrightarrow>
    Mintor_reach E nnz s'"

lemma Mintor_reach_ownerless: "Mintor_reach E nnz s \<Longrightarrow> \<not> nnz zero_pk \<Longrightarrow> ownerless s \<and> h_ImportNnz s = nnz"
proof (induction rule: Mintor_reach.induct)
  case (call s s')
  from call.hyps(2) show ?case
  proof cases
    case (1 pk l tid)
    then show ?thesis using Create_ownerless [OF 1] call.IH call.prems by simp
  next
    case (2 tid pk v b)
    then show ?thesis using Mint_halts [of s E tid pk v b] call.IH call.prems by simp
  next
    case (3 tid pk v dst)
    then show ?thesis using Transfer_same [OF 3] ownerless_same [of s s'] call.IH call.prems by (simp add: same_tokens_def)
  next
    case (4 tid)
    then show ?thesis using CreateCA_ownerless [OF 4] call.IH call.prems by simp
  qed
qed (simp_all add: ownerless_def)

text \<open>C40: No token of the mintor can ever be minted or burnt.  Because \<open>Method_4\<close> assigns the owner of the new token to
  itself, the owner of every token is the zero key; minting and burning ask for the signature of the owner, and the zero
  key is not a valid key.  So in every reachable state every call of \<open>Method_5\<close> halts, for every token, user and amount.\<close>

theorem Mintor_never_mints:
  assumes "Mintor_reach E nnz s" and "\<not> nnz zero_pk"
  shows "Mintor_Mint E tid pkUser val bMint s = None \<and> (\<forall>t. mi_Token s tid = Some t \<longrightarrow> t_pkOwner t = zero_pk)"
  using Mintor_reach_ownerless [OF assms] Mint_halts [of s E tid pkUser val bMint] assms(2) ownerlessD by auto

definition mintor_example :: "unit Mintor" where
  "mintor_example = AHost.extend (AHost.truncate ahost_example) \<lparr>mi_Tokens = None, mi_Token = Map.empty, mi_User = Map.empty\<rparr>"

theorem Mintor_never_mints_witness:
  "\<exists>tid s. Mintor_Create \<lparr>m_X = 9, m_Y = 0\<rparr> \<lparr>m_Lo = 1000, m_Hi = 0\<rparr> mintor_example = Some (tid, s) \<and> tid = 1 \<and>
     mi_Token s 1 \<noteq> None \<and> Mintor_Mint env_example 1 \<lparr>m_X = 9, m_Y = 0\<rparr> 5 True s = None"
proof -
  let ?nnz = "\<lambda>pk :: PubKey. m_X pk \<noteq> 0"
  have z: "\<not> ?nnz zero_pk" by (simp add: zero_pk_def)
  have r: "Mintor_reach env_example ?nnz mintor_example"
    by (rule init) (simp_all add: mintor_example_def ahost_example_def AHost.defs)
  obtain s where c: "Mintor_Create \<lparr>m_X = 9, m_Y = 0\<rparr> \<lparr>m_Lo = 1000, m_Hi = 0\<rparr> mintor_example = Some (1, s)" and t: "mi_Token s 1 \<noteq> None"
    by (simp add: Mintor_Create_def Let_def mintor_example_def AHost.defs)
  show ?thesis
    using c t Mintor_never_mints [OF Mintor_reach.call [OF r Mintor_call.intros(1) [OF c]] z, of 1 "\<lparr>m_X = 9, m_Y = 0\<rparr>" 5 True] by auto
qed

end
