(* ===== verification/Contract_Upgradable2.thy ===== *)
theory Contract_Upgradable2
  imports Bvm_Host
begin

text \<open>
  The upgradable contract (\<open>src/bvm/Shaders/upgradable2\<close>): it forwards its methods to an active implementation and lets a
  quorum of admins schedule the next one.  The implementation is another contract, run in the context of this one; it is
  the parameter \<open>impl\<close> of the model.  Its header asks that it does not use the two variables of this contract, which is
  the hypothesis \<open>impl_ok\<close>.  The two variables exist from the constructor to the destructor, the only time the host runs
  the other methods; the model halts where the code would load a missing one.
\<close>

unbundle bit_operations_syntax

section \<open>The contract\<close>

record Next =
  n_Cid :: ContractID
  n_hTarget :: Height

record Upgradable2_State =
  us_Active :: ContractID
  us_Next :: Next

record Upgradable2_Settings =
  m_hMinUpgadeDelay :: Height
  m_MinApprovers :: u32
  m_pAdmin :: "PubKey list"

record Upgr = Host +
  u_State :: "Upgradable2_State option"
  u_Settings :: "Upgradable2_Settings option"

type_synonym 'm Impl = "ContractID \<Rightarrow> nat \<Rightarrow> bytes \<Rightarrow> 'm Upgr_scheme \<Rightarrow> 'm Upgr_scheme option"

definition s_AdminsMax :: u32 where
  "s_AdminsMax = 32"

datatype Control =
    ExplicitUpgrade
  | ScheduleUpgrade u32 Next
  | ReplaceAdmin u32 u32 PubKey
  | SetApprovers u32 u32
  | UnknownControl u8 u32

definition ResetNext :: "Upgradable2_State \<Rightarrow> Upgradable2_State" where
  "ResetNext u = u\<lparr>us_Next := \<lparr>n_Cid = 0, n_hTarget = - 1\<rparr>\<rparr>"

definition RefManageSafe :: "bool \<Rightarrow> Upgradable2_State \<Rightarrow> 'm Upgr_scheme \<Rightarrow> (bool \<times> 'm Upgr_scheme) option" where
  "RefManageSafe bAdd u s =
     (if us_Active u = 0 then Some (False, s)
      else do {
        (ok, s) \<leftarrow> HandleRef (us_Active u) bAdd s;
        Halt_if (\<not> ok);
        Some (True, s)
      })"

definition CallActive :: "'m Impl \<Rightarrow> nat \<Rightarrow> bytes \<Rightarrow> Upgradable2_State \<Rightarrow> 'm Upgr_scheme \<Rightarrow> 'm Upgr_scheme option" where
  "CallActive impl iMethod arg u s = do {
     (_, s) \<leftarrow> CallFar (us_Active u) True (\<lambda>s. impl (us_Active u) iMethod arg s \<bind> (\<lambda>s. Some ((), s))) s;
     Some s
   }"

definition Load_UpgradeIfNecessary :: "'m Impl \<Rightarrow> 'm Upgr_scheme \<Rightarrow> (bool \<times> Upgradable2_State \<times> 'm Upgr_scheme) option" where
  "Load_UpgradeIfNecessary impl s = do {
     u \<leftarrow> u_State s;
     if h_Height s < n_hTarget (us_Next u) then Some (False, u, s)
     else do {
       (_, s) \<leftarrow> RefManageSafe False u s;
       let u = u\<lparr>us_Active := n_Cid (us_Next u)\<rparr>;
       (_, s) \<leftarrow> RefManageSafe True u s;
       let u = ResetNext u;
       let s = s\<lparr>u_State := Some u\<rparr>;
       s \<leftarrow> CallActive impl 2 [] u s;
       Some (True, u, s)
     }
   }"

definition TestNumApprovers :: "Upgradable2_Settings \<Rightarrow> unit option" where
  "TestNumApprovers stg = (let val = m_MinApprovers stg - 1 in Halt_if (val \<ge> s_AdminsMax))"

definition Upgradable2_Ctor :: "'m Impl \<Rightarrow> ContractID \<Rightarrow> Upgradable2_Settings \<Rightarrow> bytes \<Rightarrow> 'm Upgr_scheme \<Rightarrow> 'm Upgr_scheme option" where
  "Upgradable2_Ctor impl active stg arg s = do {
     let u = ResetNext \<lparr>us_Active = active, us_Next = \<lparr>n_Cid = 0, n_hTarget = 0\<rparr>\<rparr>;
     let s = s\<lparr>u_State := Some u\<rparr>;
     TestNumApprovers stg;
     let s = s\<lparr>u_Settings := Some stg\<rparr>;
     (b, s) \<leftarrow> RefManageSafe True u s;
     if b then CallActive impl 0 arg u s else Some s
   }"

definition Upgradable2_Dtor :: "'m Impl \<Rightarrow> bytes \<Rightarrow> 'm Upgr_scheme \<Rightarrow> 'm Upgr_scheme option" where
  "Upgradable2_Dtor impl arg s = do {
     u \<leftarrow> u_State s;
     let s = s\<lparr>u_State := None, u_Settings := None\<rparr>;
     (b, s) \<leftarrow> RefManageSafe False u s;
     if b then CallActive impl 1 arg u s else Some s
   }"

fun AddSigMask :: "PubKey list \<Rightarrow> u32 \<Rightarrow> u32 \<Rightarrow> 'm Upgr_scheme \<Rightarrow> (u32 \<times> 'm Upgr_scheme) option" where
  "AddSigMask [] nMask nSigned s = Some (nSigned, s)"
| "AddSigMask (pk # pks) nMask nSigned s =
     (if 1 AND nMask \<noteq> 0 then do { s \<leftarrow> AddSig pk s; AddSigMask pks (drop_bit 1 nMask) (nSigned + 1) s }
      else AddSigMask pks (drop_bit 1 nMask) nSigned s)"

fun ApproveMask :: "Control \<Rightarrow> u32" where
  "ApproveMask ExplicitUpgrade = 0"
| "ApproveMask (ScheduleUpgrade msk n) = msk"
| "ApproveMask (ReplaceAdmin msk i pk) = msk"
| "ApproveMask (SetApprovers msk n) = msk"
| "ApproveMask (UnknownControl t msk) = msk"

text \<open>The part of \<open>Method_2\<close> after the signatures.\<close>

fun ControlSigned :: "Control \<Rightarrow> Upgradable2_Settings \<Rightarrow> 'm Upgr_scheme \<Rightarrow> 'm Upgr_scheme option" where
  "ControlSigned (ScheduleUpgrade msk nxt) stg s = do {
     Halt_if (n_hTarget nxt < h_Height s + m_hMinUpgadeDelay stg);
     u \<leftarrow> u_State s;
     Some (s\<lparr>u_State := Some (u\<lparr>us_Next := nxt\<rparr>)\<rparr>)
   }"
| "ControlSigned (ReplaceAdmin msk i pk) stg s = do {
     Halt_if (i \<ge> s_AdminsMax);
     Some (s\<lparr>u_Settings := Some (stg\<lparr>m_pAdmin := (m_pAdmin stg)[unat i := pk]\<rparr>)\<rparr>)
   }"
| "ControlSigned (SetApprovers msk v) stg s = do {
     let stg = stg\<lparr>m_MinApprovers := v\<rparr>;
     TestNumApprovers stg;
     Some (s\<lparr>u_Settings := Some stg\<rparr>)
   }"
| "ControlSigned ctl stg s = None"

definition Upgradable2_Control :: "'m Impl \<Rightarrow> Control \<Rightarrow> 'm Upgr_scheme \<Rightarrow> 'm Upgr_scheme option" where
  "Upgradable2_Control impl ctl s =
     (if ctl = ExplicitUpgrade then do {
        (b, _, s) \<leftarrow> Load_UpgradeIfNecessary impl s;
        Halt_if (\<not> b);
        Some s
      } else do {
        stg \<leftarrow> u_Settings s;
        (nSigned, s) \<leftarrow> AddSigMask (m_pAdmin stg) (ApproveMask ctl) 0 s;
        Halt_if (nSigned < m_MinApprovers stg);
        ControlSigned ctl stg s
      })"

definition InvokeActive :: "'m Impl \<Rightarrow> nat \<Rightarrow> bytes \<Rightarrow> 'm Upgr_scheme \<Rightarrow> 'm Upgr_scheme option" where
  "InvokeActive impl iMethod arg s = do {
     (_, u, s) \<leftarrow> Load_UpgradeIfNecessary impl s;
     CallActive impl iMethod arg u s
   }"

section \<open>What one call does\<close>

text \<open>The implementation leaves the variables of the contract, the frames of the calls and the height alone.\<close>

definition same_upgr :: "'m Upgr_scheme \<Rightarrow> 'm Upgr_scheme \<Rightarrow> bool" where
  "same_upgr s s' \<longleftrightarrow> u_State s' = u_State s \<and> u_Settings s' = u_Settings s \<and> h_Calls s' = h_Calls s \<and> h_Height s' = h_Height s"

definition impl_ok :: "'m Impl \<Rightarrow> bool" where
  "impl_ok impl \<longleftrightarrow> (\<forall>cid i arg s s'. impl cid i arg s = Some s' \<longrightarrow> same_upgr s s')"

lemma CallActive_same: "impl_ok impl \<Longrightarrow> CallActive impl i arg u s = Some s' \<Longrightarrow> same_upgr s s'"
  by (auto simp: CallActive_def CallFar_def impl_ok_def same_upgr_def split: bind_splits if_splits)

lemma HandleRef_same: "HandleRef cid b s = Some (ok, s') \<Longrightarrow> same_upgr s s'"
  by (auto simp: HandleRef_def same_upgr_def Let_def split: list.splits bind_splits if_splits)

lemma RefManageSafe_same: "RefManageSafe b u s = Some (ok, s') \<Longrightarrow> same_upgr s s'"
  by (auto simp: RefManageSafe_def same_upgr_def split: if_splits bind_splits dest!: HandleRef_same)

lemma Load_UpgradeIfNecessary_SomeD:
  assumes "Load_UpgradeIfNecessary impl s = Some (b, u', s')" and "impl_ok impl"
  obtains u where "u_State s = Some u" "u_State s' = Some u'" "u_Settings s' = u_Settings s" "h_Height s' = h_Height s"
    "b = (n_hTarget (us_Next u) \<le> h_Height s)"
    "u' = (if b then ResetNext (u\<lparr>us_Active := n_Cid (us_Next u)\<rparr>) else u)"
proof (cases "u_State s")
  case None
  then show thesis using assms(1) by (simp add: Load_UpgradeIfNecessary_def)
next
  case (Some u)
  show thesis
  proof (cases "h_Height s < n_hTarget (us_Next u)")
    case True
    then show thesis using assms(1) Some by (intro that [of u]) (auto simp: Load_UpgradeIfNecessary_def)
  next
    case False
    let ?u = "u\<lparr>us_Active := n_Cid (us_Next u)\<rparr>"
    obtain b1 s1 b2 s2 where 1: "RefManageSafe False u s = Some (b1, s1)" "RefManageSafe True ?u s1 = Some (b2, s2)"
      and c: "CallActive impl 2 [] (ResetNext ?u) (s2\<lparr>u_State := Some (ResetNext ?u)\<rparr>) = Some s'" and b: "b" "u' = ResetNext ?u"
      using assms(1) Some False by (auto simp: Load_UpgradeIfNecessary_def Let_def split: bind_splits)
    show thesis
      using RefManageSafe_same [OF 1(1)] RefManageSafe_same [OF 1(2)] CallActive_same [OF assms(2) c] False Some b
      by (intro that [of u]) (simp_all add: same_upgr_def)
  qed
qed

lemma AddSigMask_SomeD:
  assumes "AddSigMask pks msk n s = Some (k, s')" and "unat n + length pks < 2 ^ 32"
  shows "same_upgr s s' \<and> (\<exists>l. h_Sigs s' = h_Sigs s @ l \<and> set l \<subseteq> set pks \<and> unat k = unat n + length l \<and> length l \<le> length pks)"
  using assms
proof (induction pks msk n s rule: AddSigMask.induct)
  case (1 msk n s)
  then show ?case by (simp add: same_upgr_def)
next
  case (2 pk pks msk n s)
  show ?case
  proof (cases "1 AND msk \<noteq> 0")
    case True
    then obtain s1 where s1: "AddSig pk s = Some s1" "AddSigMask pks (drop_bit 1 msk) (n + 1) s1 = Some (k, s')"
      using "2.prems"(1) by (auto split: bind_splits)
    have u: "unat (n + 1) = unat n + 1" using "2.prems"(2) by (subst unat_add_lem [THEN iffD1]) simp_all
    then obtain l where "same_upgr s1 s'" "h_Sigs s' = h_Sigs s1 @ l" "set l \<subseteq> set pks" "unat k = unat (n + 1) + length l" "length l \<le> length pks"
      using "2.IH"(1) [OF True s1(1) s1(2)] "2.prems"(2) by auto
    then show ?thesis using AddSig_SomeD [OF s1(1)] u
      by (intro conjI exI [of _ "pk # l"]) (auto simp: same_upgr_def)
  next
    case False
    then show ?thesis using "2.IH"(2) [OF False] "2.prems" by fastforce
  qed
qed

definition settings_ok :: "Upgradable2_Settings \<Rightarrow> bool" where
  "settings_ok stg \<longleftrightarrow> length (m_pAdmin stg) = 32 \<and> 1 \<le> m_MinApprovers stg \<and> m_MinApprovers stg \<le> 32"

lemma TestNumApprovers_iff: "TestNumApprovers stg = Some () \<longleftrightarrow> 1 \<le> m_MinApprovers stg \<and> m_MinApprovers stg \<le> 32"
  by (auto simp: TestNumApprovers_def Halt_if_def s_AdminsMax_def word_le_nat_alt unat_sub_if' unat_arith_simps split: if_splits)

lemma TestNumApprovers_SomeD: "TestNumApprovers stg = Some x \<Longrightarrow> 1 \<le> m_MinApprovers stg \<and> m_MinApprovers stg \<le> 32"
  using TestNumApprovers_iff [of stg] by (cases x) simp

section \<open>Runs\<close>

text \<open>A successful call of \<open>ScheduleUpgrade\<close>: its height, the implementation it schedules, the keys that had to sign and the
  settings it was checked against.\<close>

record Sched =
  sc_Height :: Height
  sc_Next :: Next
  sc_Sigs :: "PubKey list"
  sc_Settings :: Upgradable2_Settings

definition sched_log :: "Control \<Rightarrow> 'm Upgr_scheme \<Rightarrow> 'm Upgr_scheme \<Rightarrow> Sched list" where
  "sched_log ctl s s' =
     (case ctl of
        ScheduleUpgrade msk nxt \<Rightarrow>
          [\<lparr>sc_Height = h_Height s', sc_Next = nxt, sc_Sigs = h_Sigs s', sc_Settings = the (u_Settings s)\<rparr>]
      | _ \<Rightarrow> [])"

text \<open>The life of an upgradable contract \<open>cid\<close> created with the delay \<open>d\<close>: calls at heights at which the delay does not
  overflow, and transfers of other contracts, with the log of the scheduled upgrades.\<close>

inductive upgr_run :: "'m Impl \<Rightarrow> ContractID \<Rightarrow> Height \<Rightarrow> 'm Upgr_scheme \<Rightarrow> Sched list \<Rightarrow> bool" for impl cid d where
  create: "Upgradable2_Ctor impl active stg arg (begin_call cid ht s) = Some s' \<Longrightarrow> length (m_pAdmin stg) = 32 \<Longrightarrow>
    m_hMinUpgadeDelay stg = d \<Longrightarrow> upgr_run impl cid d s' []"
| control: "upgr_run impl cid d s H \<Longrightarrow> unat ht + unat d < 2 ^ 64 - 1 \<Longrightarrow>
    Upgradable2_Control impl ctl (begin_call cid ht s) = Some s' \<Longrightarrow>
    upgr_run impl cid d s' (sched_log ctl (begin_call cid ht s) s' @ H)"
| invoke: "upgr_run impl cid d s H \<Longrightarrow> unat ht + unat d < 2 ^ 64 - 1 \<Longrightarrow>
    InvokeActive impl i arg (begin_call cid ht s) = Some s' \<Longrightarrow> upgr_run impl cid d s' H"
| others: "upgr_run impl cid d s H \<Longrightarrow> others_move cid s s' \<Longrightarrow> upgr_run impl cid d s' H"

definition sched_ok :: "Height \<Rightarrow> Sched \<Rightarrow> bool" where
  "sched_ok d e \<longleftrightarrow> m_hMinUpgadeDelay (sc_Settings e) = d \<and> unat (sc_Height e) + unat d \<le> unat (n_hTarget (sc_Next e)) \<and>
     1 \<le> m_MinApprovers (sc_Settings e) \<and> unat (m_MinApprovers (sc_Settings e)) \<le> length (sc_Sigs e) \<and>
     set (sc_Sigs e) \<subseteq> set (m_pAdmin (sc_Settings e))"

definition upgr_inv :: "Height \<Rightarrow> 'm Upgr_scheme \<Rightarrow> Sched list \<Rightarrow> bool" where
  "upgr_inv d s H \<longleftrightarrow> (\<exists>u stg. u_State s = Some u \<and> u_Settings s = Some stg \<and> settings_ok stg \<and> m_hMinUpgadeDelay stg = d \<and>
     (n_hTarget (us_Next u) = - 1 \<or> us_Next u \<in> sc_Next ` set H)) \<and> (\<forall>e \<in> set H. sched_ok d e)"

lemma upgr_inv_begin [simp]: "upgr_inv d (begin_call cid ht s) H = upgr_inv d s H"
  by (simp add: upgr_inv_def begin_call_def)

lemma upgr_inv_same: "same_upgr s s' \<Longrightarrow> upgr_inv d s' H = upgr_inv d s H"
  by (simp add: upgr_inv_def same_upgr_def)

lemma Load_UpgradeIfNecessary_inv:
  assumes "Load_UpgradeIfNecessary impl s = Some (b, u', s')" and "impl_ok impl" and "upgr_inv d s H"
  shows "upgr_inv d s' H"
proof -
  obtain u where u: "u_State s = Some u" "u_State s' = Some u'" "u_Settings s' = u_Settings s"
    "u' = (if b then ResetNext (u\<lparr>us_Active := n_Cid (us_Next u)\<rparr>) else u)"
    using Load_UpgradeIfNecessary_SomeD [OF assms(1,2)] by metis
  then show ?thesis using assms(3) by (cases b) (auto simp: upgr_inv_def ResetNext_def)
qed

lemma Control_signed:
  assumes "Upgradable2_Control impl ctl s = Some s'" and "ctl \<noteq> ExplicitUpgrade" and "u_Settings s = Some stg" and "settings_ok stg"
  obtains s1 l where "same_upgr s s1" "h_Sigs s1 = h_Sigs s @ l" "set l \<subseteq> set (m_pAdmin stg)"
    "unat (m_MinApprovers stg) \<le> length l" "ControlSigned ctl stg s1 = Some s'"
proof -
  obtain k s1 where 1: "AddSigMask (m_pAdmin stg) (ApproveMask ctl) 0 s = Some (k, s1)" "\<not> k < m_MinApprovers stg"
    "ControlSigned ctl stg s1 = Some s'"
    using assms by (auto simp: Upgradable2_Control_def Halt_if_def split: bind_splits if_splits)
  obtain l where "same_upgr s s1" "h_Sigs s1 = h_Sigs s @ l" "set l \<subseteq> set (m_pAdmin stg)" "unat k = length l"
    using AddSigMask_SomeD [OF 1(1)] assms(4) by (auto simp: settings_ok_def)
  then show thesis using 1(2,3) by (intro that [of s1 l]) (simp_all add: word_less_nat_alt)
qed

lemma Control_inv:
  assumes "Upgradable2_Control impl ctl s = Some s'" and "impl_ok impl" and "upgr_inv d s H"
    and "unat (h_Height s) + unat d < 2 ^ 64 - 1" and "h_Sigs s = []"
  shows "upgr_inv d s' (sched_log ctl s s' @ H)"
proof (cases "ctl = ExplicitUpgrade")
  case True
  then obtain b u where "Load_UpgradeIfNecessary impl s = Some (b, u, s')"
    using assms(1) by (auto simp: Upgradable2_Control_def Halt_if_def split: bind_splits if_splits)
  then show ?thesis using Load_UpgradeIfNecessary_inv assms(2,3) True by (simp add: sched_log_def)
next
  case False
  obtain u stg where v: "u_State s = Some u" "u_Settings s = Some stg" "settings_ok stg" "m_hMinUpgadeDelay stg = d"
    "n_hTarget (us_Next u) = - 1 \<or> us_Next u \<in> sc_Next ` set H" and H: "\<forall>e \<in> set H. sched_ok d e"
    using assms(3) by (auto simp: upgr_inv_def)
  obtain s1 l where c: "same_upgr s s1" "h_Sigs s1 = l" "set l \<subseteq> set (m_pAdmin stg)"
    "unat (m_MinApprovers stg) \<le> length l" "ControlSigned ctl stg s1 = Some s'"
    using Control_signed [OF assms(1) False v(2,3)] assms(5) by auto
  show ?thesis
  proof (cases ctl)
    case (ScheduleUpgrade msk nxt)
    have t: "\<not> n_hTarget nxt < h_Height s + d" "s' = s1\<lparr>u_State := Some (u\<lparr>us_Next := nxt\<rparr>)\<rparr>"
      using c(5,1) v ScheduleUpgrade by (auto simp: Halt_if_def same_upgr_def split: if_splits)
    have "unat (h_Height s + d) = unat (h_Height s) + unat d" using assms(4) by (subst unat_add_lem [THEN iffD1]) simp_all
    then have "unat (h_Height s) + unat d \<le> unat (n_hTarget nxt)" using t(1) by (simp add: word_less_nat_alt)
    then show ?thesis
      using c v H by (auto simp: upgr_inv_def t(2) ScheduleUpgrade sched_log_def sched_ok_def same_upgr_def settings_ok_def)
  next
    case (ReplaceAdmin msk i pk)
    then have "s' = s1\<lparr>u_Settings := Some (stg\<lparr>m_pAdmin := (m_pAdmin stg)[unat i := pk]\<rparr>)\<rparr>"
      using c(5) by (auto simp: Halt_if_def split: if_splits)
    then show ?thesis using c(1) v H by (auto simp: upgr_inv_def ReplaceAdmin sched_log_def same_upgr_def settings_ok_def)
  next
    case (SetApprovers msk n)
    then have "s' = s1\<lparr>u_Settings := Some (stg\<lparr>m_MinApprovers := n\<rparr>)\<rparr>" "1 \<le> n \<and> n \<le> 32"
      using c(5) TestNumApprovers_SomeD [of "stg\<lparr>m_MinApprovers := n\<rparr>"] by (auto simp: Let_def split: bind_splits)
    then show ?thesis using c(1) v H by (auto simp: upgr_inv_def SetApprovers sched_log_def same_upgr_def settings_ok_def)
  qed (use c(5) False in simp_all)
qed

lemma Invoke_inv:
  assumes "InvokeActive impl i arg s = Some s'" and "impl_ok impl" and "upgr_inv d s H"
  shows "upgr_inv d s' H"
proof -
  obtain b u s1 where l: "Load_UpgradeIfNecessary impl s = Some (b, u, s1)" and c: "CallActive impl i arg u s1 = Some s'"
    using assms(1) by (auto simp: InvokeActive_def split: bind_splits)
  show ?thesis using Load_UpgradeIfNecessary_inv [OF l assms(2,3)] upgr_inv_same [OF CallActive_same [OF assms(2) c]] by simp
qed

lemma Ctor_inv:
  assumes "Upgradable2_Ctor impl active stg arg s = Some s'" and "impl_ok impl" and "length (m_pAdmin stg) = 32"
  shows "upgr_inv (m_hMinUpgadeDelay stg) s' []"
proof -
  let ?u = "ResetNext \<lparr>us_Active = active, us_Next = \<lparr>n_Cid = 0, n_hTarget = 0\<rparr>\<rparr>"
  let ?s = "s\<lparr>u_State := Some ?u, u_Settings := Some stg\<rparr>"
  obtain x b s1 where 1: "TestNumApprovers stg = Some x" "RefManageSafe True ?u ?s = Some (b, s1)"
    and e: "(if b then CallActive impl 0 arg ?u s1 else Some s1) = Some s'"
    using assms(1) by (auto simp: Upgradable2_Ctor_def Let_def simp del: One_nat_def split: bind_splits)
  have i: "upgr_inv (m_hMinUpgadeDelay stg) ?s []"
    using TestNumApprovers_SomeD [OF 1(1)] assms(3) by (simp add: upgr_inv_def settings_ok_def ResetNext_def)
  have c: "same_upgr s1 s'" using e CallActive_same [OF assms(2)] by (cases b) (auto simp: same_upgr_def)
  show ?thesis
    using upgr_inv_same [OF RefManageSafe_same [OF 1(2)], of "m_hMinUpgadeDelay stg" "[]"] upgr_inv_same [OF c, of "m_hMinUpgadeDelay stg" "[]"] i
    by blast
qed

lemma upgr_run_inv: "upgr_run impl cid d s H \<Longrightarrow> impl_ok impl \<Longrightarrow> upgr_inv d s H"
proof (induction rule: upgr_run.induct)
  case (create active stg arg ht s s')
  then show ?case using Ctor_inv [OF create.hyps(1) create.prems create.hyps(2)] by simp
next
  case (control s H ht ctl s')
  then show ?case by (intro Control_inv) simp_all
next
  case (invoke s H ht i arg s')
  then show ?case using Invoke_inv [OF invoke.hyps(3)] by simp
next
  case (others s H s')
  from others.hyps(2) obtain L where "s' = s\<lparr>h_Locked := L\<rparr>" by (auto simp: others_move_def)
  then show ?case using others.IH others.prems by (simp add: upgr_inv_def)
qed

lemma change_by_upgrade:
  assumes "Upgradable2_Control impl ctl s = Some s' \<or> InvokeActive impl i arg s = Some s'" and "impl_ok impl"
    and "u_State s = Some u" and "u_Settings s = Some stg" and "settings_ok stg"
    and "us_Active (the (u_State s')) \<noteq> us_Active u"
  shows "n_hTarget (us_Next u) \<le> h_Height s \<and> us_Active (the (u_State s')) = n_Cid (us_Next u)"
proof -
  consider b v s1 where "Load_UpgradeIfNecessary impl s = Some (b, v, s1)" "same_upgr s1 s'"
    | "ctl \<noteq> ExplicitUpgrade" "Upgradable2_Control impl ctl s = Some s'"
  proof -
    assume a: thesis if "Load_UpgradeIfNecessary impl s = Some (b, v, s1)" "same_upgr s1 s'" for b v s1
    assume b: thesis if "ctl \<noteq> ExplicitUpgrade" "Upgradable2_Control impl ctl s = Some s'"
    from assms(1) show thesis
    proof
      assume c: "Upgradable2_Control impl ctl s = Some s'"
      show thesis
      proof (cases "ctl = ExplicitUpgrade")
        case True
        then show ?thesis using c a by (auto simp: Upgradable2_Control_def Halt_if_def same_upgr_def split: bind_splits if_splits)
      qed (use b c in simp)
    next
      assume "InvokeActive impl i arg s = Some s'"
      then show thesis using a CallActive_same [OF assms(2)] by (auto simp: InvokeActive_def split: bind_splits)
    qed
  qed
  then show ?thesis
  proof cases
    case (1 b v s1)
    obtain w where "u_State s = Some w" "u_State s1 = Some v" "b = (n_hTarget (us_Next w) \<le> h_Height s)"
      "v = (if b then ResetNext (w\<lparr>us_Active := n_Cid (us_Next w)\<rparr>) else w)"
      using Load_UpgradeIfNecessary_SomeD [OF 1(1) assms(2)] by metis
    then show ?thesis using 1(2) assms(3,6) by (cases b) (auto simp: same_upgr_def ResetNext_def)
  next
    case 2
    obtain s1 where "same_upgr s s1" "ControlSigned ctl stg s1 = Some s'"
      using Control_signed [OF 2(2,1) assms(4,5)] by metis
    then have "us_Active (the (u_State s')) = us_Active u"
      using assms(3) by (cases ctl) (auto simp: same_upgr_def Halt_if_def Let_def split: bind_splits if_splits)
    then show ?thesis using assms(6) by simp
  qed
qed


text \<open>A contract without an implementation; one of its 32 admins, with the key \<open>9\<close>, schedules contract 6.\<close>

definition idle_impl :: "unit Impl" where
  "idle_impl = (\<lambda>cid i arg s. Some s)"

definition settings_example :: Upgradable2_Settings where
  "settings_example = \<lparr>m_hMinUpgadeDelay = 100, m_MinApprovers = 1, m_pAdmin = replicate 32 \<lparr>m_X = 9, m_Y = 0\<rparr>\<rparr>"

definition next_example :: Next where
  "next_example = \<lparr>n_Cid = 6, n_hTarget = 150\<rparr>"

definition upgr_example :: Upgr where
  "upgr_example = Host.extend host_init \<lparr>u_State = None, u_Settings = None\<rparr>"

lemma idle_impl_ok: "impl_ok idle_impl"
  by (simp add: impl_ok_def idle_impl_def same_upgr_def)

lemma AddSigMask_0: "AddSigMask pks 0 n s = Some (n, s)"
  by (induction pks arbitrary: n s) simp_all

lemma replicate_32: "replicate 32 x = x # replicate 31 x"
  by (simp add: numeral_eq_Suc)

lemma HandleRefRaw_first: "HandleRefRaw [] True = Some (True, [0, 0, 0, 1])"
  by code_simp


end
