(* ===== verification/Shader_Search.thy ===== *)
theory Shader_Search
  imports Multi_Precision "HOL-Library.Signed_Division" Beam_Prelude "HOL-Library.Multiset"
begin

text \<open>
  Partition around a pivot and binary search for contracts (\<open>PivotSplit\<close>, \<open>MedianSearch\<close>, \<open>LutCalculate\<close> of
  \<open>src/bvm/Shaders/Sort.h\<close>).  An array is the list of its elements.
\<close>

section \<open>Partition around a pivot\<close>

text \<open>The inner loop of \<open>PivotSplit\<close>: from the end down to \<open>i\<close>, the first element below the pivot.\<close>

primrec PivotSplit_scan :: "'a::linorder list \<Rightarrow> nat \<Rightarrow> 'a \<Rightarrow> nat \<Rightarrow> bool \<times> nat" where
  "PivotSplit_scan p i pivot 0 = (False, 0)"
| "PivotSplit_scan p i pivot (Suc n) =
     (if p ! n < pivot then (True, n) else if i < n then PivotSplit_scan p i pivot n else (False, n))"

lemma PivotSplit_scan_less: "i < n \<Longrightarrow> snd (PivotSplit_scan p i pivot n) < n"
proof (induction n)
  case (Suc n)
  then show ?case by (cases "i < n") auto
qed simp

lemma PivotSplit_scan_decr:
  assumes "i < n"
  shows "snd (PivotSplit_scan p i pivot n) - i < n - i" "snd (PivotSplit_scan p i pivot n) - Suc i < n - i"
  using PivotSplit_scan_less [OF assms, of p pivot] assms by linarith+

function PivotSplit_loop :: "'a::linorder list \<Rightarrow> nat \<Rightarrow> nat \<Rightarrow> 'a \<Rightarrow> nat \<times> 'a list" where
  "PivotSplit_loop p i n pivot =
     (if i < n then
        if p ! i < pivot then PivotSplit_loop p (i + 1) n pivot
        else
          (let b = fst (PivotSplit_scan p i pivot n); m = snd (PivotSplit_scan p i pivot n)
           in if b then PivotSplit_loop (p[i := p ! m, m := p ! i]) (i + 1) m pivot
              else PivotSplit_loop p i m pivot)
      else (n, p))"
  by pat_completeness auto
termination
  by (relation "measure (\<lambda>(p, i, n, pivot). n - i)") (auto simp: PivotSplit_scan_decr)

declare PivotSplit_loop.simps [simp del]

definition PivotSplit :: "'a::linorder list \<Rightarrow> 'a \<Rightarrow> nat \<times> 'a list" where
  "PivotSplit p pivot = PivotSplit_loop p 0 (length p) pivot"

lemma PivotSplit_scan_spec:
  assumes "PivotSplit_scan p i pivot n = (b, m)" and "i < n"
  shows "i \<le> m \<and> m < n \<and> (\<forall>j. m < j \<and> j < n \<longrightarrow> \<not> p ! j < pivot) \<and> b = (p ! m < pivot) \<and> (b \<or> m = i)"
  using assms
proof (induction n)
  case (Suc n)
  show ?case
  proof (cases "p ! n < pivot \<or> \<not> i < n")
    case True
    then show ?thesis using Suc.prems by (auto split: if_splits)
  next
    case False
    then have r: "PivotSplit_scan p i pivot n = (b, m)" "i < n" using Suc.prems(1) by simp_all
    have "\<not> p ! j < pivot" if "m < j" "j < Suc n" for j
      using Suc.IH [OF r] that False by (cases "j = n") simp_all
    with Suc.IH [OF r] show ?thesis by (blast intro: less_SucI)
  qed
qed simp

lemma mset_swap_nth: "i < length p \<Longrightarrow> m < length p \<Longrightarrow> mset (p[i := p ! m, m := p ! i]) = mset p"
  by (cases "i = m") (simp_all add: mset_swap)

definition split_at :: "'a::linorder list \<Rightarrow> nat \<Rightarrow> nat \<Rightarrow> 'a \<Rightarrow> bool" where
  "split_at p i n pivot \<longleftrightarrow> i \<le> n \<and> n \<le> length p \<and> (\<forall>j < i. p ! j < pivot) \<and> (\<forall>j \<in> {n..<length p}. pivot \<le> p ! j)"

lemma split_at_left: "split_at p i n pivot \<Longrightarrow> i < n \<Longrightarrow> p ! i < pivot \<Longrightarrow> split_at p (Suc i) n pivot"
  by (simp add: split_at_def less_Suc_eq)

lemma split_at_right:
  assumes "split_at p i n pivot" and "i < n" and "PivotSplit_scan p i pivot n = (False, m)"
  shows "split_at p i m pivot"
proof -
  have sp: "m = i" "pivot \<le> p ! m" "\<And>j. m < j \<Longrightarrow> j < n \<Longrightarrow> pivot \<le> p ! j"
    using PivotSplit_scan_spec [OF assms(3,2)] by (auto simp: not_less)
  have "pivot \<le> p ! j" if "m \<le> j" "j < length p" for j
  proof (cases "j < n")
    case True
    then show ?thesis using sp(2,3) that(1) by (cases "j = m") simp_all
  next
    case False
    then show ?thesis using assms(1) that(2) by (simp add: split_at_def)
  qed
  then show ?thesis using assms(1,2) sp(1) by (simp add: split_at_def)
qed

lemma split_at_swap:
  assumes "split_at p i n pivot" and "i < n" and "\<not> p ! i < pivot" and "PivotSplit_scan p i pivot n = (True, m)"
  shows "split_at (p[i := p ! m, m := p ! i]) (Suc i) m pivot" "mset (p[i := p ! m, m := p ! i]) = mset p"
proof -
  have sp: "i \<le> m" "m < n" "p ! m < pivot" "\<And>j. m < j \<Longrightarrow> j < n \<Longrightarrow> pivot \<le> p ! j"
    using PivotSplit_scan_spec [OF assms(4,2)] by (simp_all add: not_less)
  have "i \<noteq> m" using sp(3) assms(3) by blast
  then have im: "i < m" "m < length p" using sp(1,2) assms(1) by (simp_all add: split_at_def)
  show "mset (p[i := p ! m, m := p ! i]) = mset p" using im by (intro mset_swap_nth) simp_all
  have q: "p[i := p ! m, m := p ! i] ! j = (if j = m then p ! i else if j = i then p ! m else p ! j)" for j
    using im by (simp add: nth_list_update)
  have "pivot \<le> p ! j" if "m < j" "j < length p" for j
    using assms(1) sp(4) [of j] that by (cases "j < n") (simp_all add: split_at_def)
  then show "split_at (p[i := p ! m, m := p ! i]) (Suc i) m pivot"
    using assms(1,3) sp(3) im unfolding split_at_def q by (simp add: less_Suc_eq not_less)
qed

lemma PivotSplit_loop_split_at:
  "split_at p i n pivot \<Longrightarrow> PivotSplit_loop p i n pivot = (r, q) \<Longrightarrow> mset q = mset p \<and> split_at q r r pivot"
proof (induction p i n pivot rule: PivotSplit_loop.induct)
  case (1 p i n pivot)
  note unfold = PivotSplit_loop.simps [of p i n pivot]
  obtain b m where s: "PivotSplit_scan p i pivot n = (b, m)" by (rule prod.exhaust)
  consider "\<not> i < n" | "i < n" "p ! i < pivot" | "i < n" "\<not> p ! i < pivot" b | "i < n" "\<not> p ! i < pivot" "\<not> b" by blast
  then show ?case
  proof cases
    case 1
    then show ?thesis using "1.prems" by (simp add: unfold) (simp add: split_at_def)
  next
    case 2
    then show ?thesis using "1.IH"(1) [OF 2] "1.prems" split_at_left [OF "1.prems"(1) 2] by (simp add: unfold)
  next
    case 3
    note sw = split_at_swap [OF "1.prems"(1) 3(1,2)]
    show ?thesis
      using "1.IH"(2) [OF 3(1,2) refl refl] "1.prems"(2) 3 sw [of m] s by (simp add: unfold Let_def)
  next
    case 4
    show ?thesis
      using "1.IH"(3) [OF 4(1,2) refl refl] "1.prems"(2) 4 split_at_right [OF "1.prems"(1) 4(1), of m] s by (simp add: unfold Let_def)
  qed
qed

text \<open>The partition moves the elements below the pivot to the front and returns their number.\<close>

lemma PivotSplit_spec:
  assumes "PivotSplit p pivot = (r, q)"
  shows "mset q = mset p" "r \<le> length p" "\<forall>j < r. q ! j < pivot" "\<forall>j \<in> {r..<length p}. pivot \<le> q ! j"
proof -
  have "split_at p 0 (length p) pivot" by (simp add: split_at_def)
  from PivotSplit_loop_split_at [OF this] assms have 1: "mset q = mset p" "split_at q r r pivot" by (simp_all add: PivotSplit_def)
  have "length q = length p" using 1(1) by (metis size_mset)
  with 1 show "mset q = mset p" "r \<le> length p" "\<forall>j < r. q ! j < pivot" "\<forall>j \<in> {r..<length p}. pivot \<le> q ! j"
    by (simp_all add: split_at_def)
qed

section \<open>Binary search\<close>

function MedianSearch_loop :: "'a::linorder list \<Rightarrow> nat \<Rightarrow> nat \<Rightarrow> 'a \<Rightarrow> nat" where
  "MedianSearch_loop p i0 n x =
     (if n \<noteq> 0 then
        let nHalf = n div 2
        in if p ! (i0 + nHalf) < x then MedianSearch_loop p (i0 + (nHalf + 1)) (n - (nHalf + 1)) x
           else MedianSearch_loop p i0 nHalf x
      else i0)"
  by pat_completeness auto
termination by (relation "measure (\<lambda>(p, i0, n, x). n)") auto

declare MedianSearch_loop.simps [simp del]

definition MedianSearch :: "'a::linorder list \<Rightarrow> 'a \<Rightarrow> nat" where
  "MedianSearch p x = MedianSearch_loop p 0 (length p) x"

lemma MedianSearch_loop_spec:
  assumes "sorted p" and "i0 + n \<le> length p" and "\<forall>j < i0. p ! j < x" and "\<forall>j. i0 + n \<le> j \<and> j < length p \<longrightarrow> x \<le> p ! j"
  shows "MedianSearch_loop p i0 n x \<le> length p \<and> (\<forall>j < MedianSearch_loop p i0 n x. p ! j < x) \<and>
    (\<forall>j. MedianSearch_loop p i0 n x \<le> j \<and> j < length p \<longrightarrow> x \<le> p ! j)"
  using assms
proof (induction p i0 n x rule: MedianSearch_loop.induct)
  case (1 p i0 n x)
  let ?h = "n div 2"
  show ?case
  proof (cases "n = 0")
    case True
    then show ?thesis using 1(4-6) by (simp add: MedianSearch_loop.simps)
  next
    case n: False
    then have h: "i0 + ?h < length p" using 1(4) by simp
    show ?thesis
    proof (cases "p ! (i0 + ?h) < x")
      case True
      have eq: "MedianSearch_loop p i0 n x = MedianSearch_loop p (i0 + (?h + 1)) (n - (?h + 1)) x"
        using n True by (subst MedianSearch_loop.simps) (simp add: Let_def)
      have low: "p ! j < x" if "j < i0 + (?h + 1)" for j
        using sorted_nth_mono [OF 1(3), of j "i0 + ?h"] True h that by simp
      have "?h + 1 \<le> n" using n by simp
      then have "i0 + (?h + 1) + (n - (?h + 1)) = i0 + n" by simp
      then show ?thesis unfolding eq using low 1(4,6) by (intro 1(1) [OF n refl True 1(3)]) simp_all
    next
      case False
      have eq: "MedianSearch_loop p i0 n x = MedianSearch_loop p i0 ?h x"
        using n False by (subst MedianSearch_loop.simps) (simp add: Let_def)
      have "x \<le> p ! j" if "i0 + ?h \<le> j" "j < length p" for j
        using sorted_nth_mono [OF 1(3) that] False by simp
      then show ?thesis unfolding eq using 1(5) h by (intro 1(2) [OF n refl False 1(3)]) simp_all
    qed
  qed
qed


text \<open>The search returns the lowest index whose element is not below \<open>x\<close>, or the length when there is none.\<close>

lemma MedianSearch_spec:
  assumes "sorted p"
  shows "MedianSearch p x \<le> length p" "j < MedianSearch p x \<Longrightarrow> p ! j < x"
    "MedianSearch p x \<le> j \<Longrightarrow> j < length p \<Longrightarrow> x \<le> p ! j"
proof -
  have "\<forall>j. 0 + length p \<le> j \<and> j < length p \<longrightarrow> x \<le> p ! j" by auto
  from MedianSearch_loop_spec [OF assms _ _ this] show "MedianSearch p x \<le> length p" "j < MedianSearch p x \<Longrightarrow> p ! j < x"
    "MedianSearch p x \<le> j \<Longrightarrow> j < length p \<Longrightarrow> x \<le> p ! j"
    by (simp_all add: MedianSearch_def)
qed

section \<open>Lookup table\<close>

text \<open>Linear interpolation in a table of 64-bit points and 32-bit values.  The product and the division are done in signed
  64-bit arithmetic; the difference of the two values is taken in 32 bits before it is widened.\<close>

definition LutCalculate :: "u64 list \<Rightarrow> u32 list \<Rightarrow> u64 \<Rightarrow> u32" where
  "LutCalculate pX pY x =
     (let n = MedianSearch pX x
      in if n = length pX then pY ! (length pX - 1)
         else if n = 0 then pY ! 0
         else
           (let y0 = pY ! (n - 1);
                val = word_of_int (sint ((ucast (pY ! n - y0) :: u64) * (x - pX ! (n - 1))) sdiv sint (pX ! n - pX ! (n - 1))) :: u64
            in ucast ((ucast y0 :: u64) + val)))"

lemma sint_u64: "unat (x :: u64) < 2 ^ 63 \<Longrightarrow> sint x = int (unat x)"
proof -
  assume "unat x < 2 ^ 63"
  then have "int (unat x) < int (2 ^ 63)" by (simp only: of_nat_less_iff)
  moreover have "- (2 ^ 63) \<le> uint x" by (rule order_trans [of _ 0]) simp_all
  ultimately show ?thesis using signed_take_bit_int_eq_self [of 63 "uint x"] by (simp add: sint_uint)
qed

lemma sdiv_nat: "int a sdiv int b = int (a div b)"
  by (cases "a = 0"; cases "b = 0") (simp_all add: signed_divide_int_def zdiv_int)

text \<open>Between two points of an ascending table the result is the rounded-down interpolation of the two values.\<close>

definition lut_ok :: "u64 list \<Rightarrow> u32 list \<Rightarrow> bool" where
  "lut_ok pX pY \<longleftrightarrow> pX \<noteq> [] \<and> length pY = length pX \<and> sorted_wrt (<) pX \<and> sorted pY \<and>
     (\<forall>i. Suc i < length pX \<longrightarrow> unat (pY ! Suc i - pY ! i) * unat (pX ! Suc i - pX ! i) < 2 ^ 63 \<and> unat (pX ! Suc i - pX ! i) < 2 ^ 63)"

lemma LutCalculate_between:
  assumes "lut_ok pX pY" and "Suc i < length pX" and "pX ! i < x" and "x \<le> pX ! Suc i"
  shows "unat (LutCalculate pX pY x) = unat (pY ! i) +
    (unat (pY ! Suc i) - unat (pY ! i)) * (unat x - unat (pX ! i)) div (unat (pX ! Suc i) - unat (pX ! i))"
proof -
  let ?x0 = "pX ! i" and ?x1 = "pX ! Suc i" and ?y0 = "pY ! i" and ?y1 = "pY ! Suc i"
  have st: "sorted pX" and l: "length pY = length pX" using assms(1) by (auto simp: lut_ok_def intro: strict_sorted_imp_sorted)
  note ms = MedianSearch_spec [OF st, where x = x]
  have n: "MedianSearch pX x = Suc i"
  proof (rule antisym)
    show "MedianSearch pX x \<le> Suc i" using ms(2) [of "Suc i"] assms(4) by (auto simp: not_less [symmetric])
    show "Suc i \<le> MedianSearch pX x" using ms(3) [of i] assms(2,3) by (auto simp: not_less_eq_eq [symmetric] not_le [symmetric])
  qed
  have y: "?y0 \<le> ?y1" using assms(1,2) l by (simp add: lut_ok_def sorted_nth_mono)
  have dx: "unat (x - ?x0) = unat x - unat ?x0" "unat (?x1 - ?x0) = unat ?x1 - unat ?x0" "unat (?y1 - ?y0) = unat ?y1 - unat ?y0"
    using assms(3,4) y by (simp_all add: unat_sub)
  define p where "p = (unat ?y1 - unat ?y0) * (unat x - unat ?x0)"
  define q where "q = unat ?x1 - unat ?x0"
  have q: "0 < q" "unat x - unat ?x0 \<le> q" using assms(3,4) by (simp_all add: q_def word_less_nat_alt word_le_nat_alt)
  have b: "(unat ?y1 - unat ?y0) * q < 2 ^ 63" "q < 2 ^ 63" using assms(1,2) dx by (auto simp: lut_ok_def q_def)
  have pq: "p \<le> (unat ?y1 - unat ?y0) * q" using q(2) by (simp add: p_def)
  have up: "unat ((ucast (?y1 - ?y0) :: u64) * (x - ?x0)) = p"
  proof -
    have "(2 :: nat) ^ 63 < 2 ^ 64" by simp
    then have "p < 2 ^ 64" using pq b(1) by (meson le_less_trans less_trans)
    then show ?thesis by (subst unat_mult_u64) (simp_all only: unat_ucast_u32_u64 p_def dx)
  qed
  have "sint ((ucast (?y1 - ?y0) :: u64) * (x - ?x0)) = int p" 
    by (rule sint_u64 [of "(ucast (?y1 - ?y0) :: u64) * (x - ?x0)", unfolded up, OF le_less_trans [OF pq b(1)]])
  moreover have "sint (?x1 - ?x0) = int q" using sint_u64 [of "?x1 - ?x0"] b(2) dx by (simp add: q_def)
  ultimately have r: "LutCalculate pX pY x = ucast ((ucast ?y0 :: u64) + of_nat (p div q))"
    using n assms(2) by (simp add: LutCalculate_def Let_def sdiv_nat)
  have "p div q \<le> (unat ?y1 - unat ?y0) * q div q" using pq by (rule div_le_mono)
  then have le: "p div q \<le> unat ?y1 - unat ?y0" using q(1) by simp
  have "unat ?y1 < 2 ^ 32" using unat_u32_less [of ?y1] by simp
  then have s: "unat ?y0 + p div q < 2 ^ 32" using le y by (simp add: word_le_nat_alt)
  have pd: "unat (of_nat (p div q) :: u64) = p div q" using s by (simp add: unat_of_nat)
  have u: "unat ((ucast ?y0 :: u64) + of_nat (p div q)) = unat ?y0 + p div q"
    using s by (subst unat_add_u64) (simp_all add: unat_ucast_u32_u64 pd)
  have "unat (LutCalculate pX pY x) = unat ?y0 + p div q"
    unfolding r unat_ucast_u64_u32 u using s by (rule mod_less)
  then show ?thesis by (simp only: p_def q_def)
qed

lemma LutCalculate_ends:
  assumes "lut_ok pX pY"
  shows "x \<le> pX ! 0 \<Longrightarrow> LutCalculate pX pY x = pY ! 0" "pX ! (length pX - 1) < x \<Longrightarrow> LutCalculate pX pY x = pY ! (length pX - 1)"
proof -
  have st: "sorted pX" "pX \<noteq> []" using assms by (auto simp: lut_ok_def intro: strict_sorted_imp_sorted)
  note ms = MedianSearch_spec [OF st(1), where x = x]
  show "LutCalculate pX pY x = pY ! 0" if "x \<le> pX ! 0"
    using ms(2) [of 0] that st(2) by (cases "MedianSearch pX x = 0") (auto simp: LutCalculate_def Let_def)
  show "LutCalculate pX pY x = pY ! (length pX - 1)" if "pX ! (length pX - 1) < x"
  proof -
    have "\<not> MedianSearch pX x \<le> length pX - 1" using ms(3) [of "length pX - 1"] that st(2) by auto
    then have "MedianSearch pX x = length pX" using ms(1) by linarith
    then show ?thesis by (simp add: LutCalculate_def)
  qed
qed

text \<open>The comment of the source allows tables whose values descend, but the difference wraps around at 32 bits before it is
  widened: half way between the values 10 and 0 the result is over two billion instead of 5.\<close>

lemma LutCalculate_descending: "LutCalculate [0, 10] [10, 0] 5 = 2147483653"
  by code_simp

end
