(* ===== verification/Amm_Totals.thy ===== *)
theory Amm_Totals
  imports Shader_Float "HOL-Library.Monad_Syntax"
begin

text \<open>
  The arithmetic of a liquidity pool of the exchange contract (\<open>struct Totals\<close> of \<open>src/bvm/Shaders/amm/contract.h\<close>):
  the reserves of the two tokens, the amount of control tokens, and what adding or removing liquidity and trading do
  to them.  \<open>None\<close> is a halted call; the assertions are not part of a release build.
\<close>

section \<open>Operations\<close>

type_synonym amm_amount = u64

record Amounts =
  m_Tok1 :: amm_amount
  m_Tok2 :: amm_amount

record Totals = Amounts +
  m_Ctl :: amm_amount

definition Totals_Swap :: "Totals \<Rightarrow> Totals" where
  "Totals_Swap t = t\<lparr>m_Tok1 := m_Tok2 t, m_Tok2 := m_Tok1 t\<rparr>"

definition TestAdd :: "Totals \<Rightarrow> Amounts \<Rightarrow> int" where
  "TestAdd t d =
     (let adb = mp_mul (mp_From (m_Tok1 t)) (mp_From (m_Tok2 d));
          bda = mp_mul (mp_From (m_Tok2 t)) (mp_From (m_Tok1 d));
          n = mp_cmp adb bda
      in if n \<noteq> 0 then
           if n > 0 then
             if mp_cmp adb (mp_add bda (mp_From (m_Tok2 t + m_Tok1 d + 1))) > 0 then - 1 else 0
           else
             if mp_cmp bda (mp_add adb (mp_From (m_Tok1 t + m_Tok2 d + 1))) > 0 then 1 else 0
         else 0)"

definition ToAmount :: "Float \<Rightarrow> amm_amount option" where
  "ToAmount f = (if sint (fl_Order f) > 0 then None else Some (fl_Get f))"

definition Totals_Add :: "Amounts \<Rightarrow> Totals \<Rightarrow> Totals option" where
  "Totals_Add d v = do {
     tok1 \<leftarrow> strict_Add (m_Tok1 v) (m_Tok1 d);
     tok2 \<leftarrow> strict_Add (m_Tok2 v) (m_Tok2 d);
     let kGrow1 = fl_div (fl_Set tok1) (fl_Set (m_Tok1 v));
     let kGrow2 = fl_div (fl_Set tok2) (fl_Set (m_Tok2 v));
     let kGrow = fl_add kGrow1 kGrow2;
     let kGrow = kGrow\<lparr>fl_Order := fl_Order kGrow - 1\<rparr>;
     ctl \<leftarrow> ToAmount (fl_mul (fl_Set (m_Ctl v)) kGrow);
     Some (v\<lparr>m_Tok1 := tok1, m_Tok2 := tok2, m_Ctl := ctl\<rparr>)
   }"

definition Totals_Remove :: "amm_amount \<Rightarrow> Totals \<Rightarrow> (Amounts \<times> Totals) option" where
  "Totals_Remove dCtl t = do {
     dRet \<leftarrow>
       (if dCtl < m_Ctl t then
          (let kRet = fl_div (fl_Set dCtl) (fl_Set (m_Ctl t))
           in Some \<lparr>m_Tok1 = fl_Get (fl_mul (fl_Set (m_Tok1 t)) kRet), m_Tok2 = fl_Get (fl_mul (fl_Set (m_Tok1 t)) kRet)\<rparr>)
        else if dCtl \<noteq> m_Ctl t then None
        else Some \<lparr>m_Tok1 = m_Tok1 t, m_Tok2 = m_Tok2 t\<rparr>);
     Some (dRet, t\<lparr>m_Ctl := m_Ctl t - dCtl, m_Tok1 := m_Tok1 t - m_Tok1 dRet, m_Tok2 := m_Tok2 t - m_Tok2 dRet\<rparr>)
   }"

definition Totals_Trade :: "amm_amount \<Rightarrow> Totals \<Rightarrow> (amm_amount \<times> Totals) option" where
  "Totals_Trade vBuy1 t =
     (let vol = fl_mul (fl_Set (m_Tok1 t)) (fl_Set (m_Tok2 t))
      in if m_Tok1 t \<le> vBuy1 then None
         else do {
           let tok1 = m_Tok1 t - vBuy1;
           valPay \<leftarrow> ToAmount (fl_div vol (fl_Set tok1));
           valPay \<leftarrow> strict_Sub valPay (m_Tok2 t);
           let fee = valPay div 1000 * 3 + 1;
           valPay \<leftarrow> strict_Add valPay fee;
           tok2 \<leftarrow> strict_Add (m_Tok2 t) valPay;
           Some (valPay, t\<lparr>m_Tok1 := tok1, m_Tok2 := tok2\<rparr>)
         })"

section \<open>Trading\<close>

text \<open>The digit estimates of the division of a trade do not overflow.\<close>

definition trade_div_ok :: "amm_amount \<Rightarrow> Totals \<Rightarrow> bool" where
  "trade_div_ok vBuy1 t = fl_div_ok (fl_mul (fl_Set (m_Tok1 t)) (fl_Set (m_Tok2 t))) (fl_Set (m_Tok1 t - vBuy1))"

lemma fee_val: "unat ((v :: u64) div 1000 * 3 + 1) = unat v div 1000 * 3 + 1"
proof -
  have "unat v < 18446744073709551616" using unat_u64_less [of v] by simp
  then have "unat v div 1000 * 3 + 1 < 18446744073709551616" by linarith
  then have "unat v div 1000 * 3 + 1 < 2 ^ 64" by simp
  then show ?thesis by (simp add: unat_word_ariths unat_div)
qed

lemma Totals_Trade_SomeD:
  assumes "Totals_Trade b t = Some (pay, t')"
  obtains v where "b < m_Tok1 t" "ToAmount (fl_div (fl_mul (fl_Set (m_Tok1 t)) (fl_Set (m_Tok2 t))) (fl_Set (m_Tok1 t - b))) = Some v"
    "unat (m_Tok2 t) \<le> unat v" "unat pay = unat v - unat (m_Tok2 t) + ((unat v - unat (m_Tok2 t)) div 1000 * 3 + 1)"
    "unat (m_Tok1 t') = unat (m_Tok1 t) - unat b" "unat (m_Tok2 t') = unat (m_Tok2 t) + unat pay" "m_Ctl t' = m_Ctl t"
proof -
  from assms obtain v w x where 1: "b < m_Tok1 t"
    "ToAmount (fl_div (fl_mul (fl_Set (m_Tok1 t)) (fl_Set (m_Tok2 t))) (fl_Set (m_Tok1 t - b))) = Some v"
    "strict_Sub v (m_Tok2 t) = Some w" "strict_Add w (w div 1000 * 3 + 1) = Some pay" "strict_Add (m_Tok2 t) pay = Some x"
    "t' = t\<lparr>m_Tok1 := m_Tok1 t - b, m_Tok2 := x\<rparr>"
    by (auto simp: Totals_Trade_def Let_def not_le split: bind_splits if_splits)
  have w: "unat (m_Tok2 t) \<le> unat v" "unat w = unat v - unat (m_Tok2 t)" using strict_SubD [OF 1(3)] by simp_all
  have p: "unat pay = unat v - unat (m_Tok2 t) + ((unat v - unat (m_Tok2 t)) div 1000 * 3 + 1)"
    using strict_AddD [OF 1(4)] unfolding fee_val w(2) .
  show thesis
    using w(1) p strict_AddD [OF 1(5)] 1(1,2,6) by (intro that) (simp_all only: unat_sub order_less_imp_le, simp_all add: unat_sub order_less_imp_le)
qed

lemma trade_real_bound:
  fixes a b c x y :: real
  assumes "(1 - 1 / 2 ^ 62) * (a * b / c) \<le> x" and "x < y" and "0 < c"
  shows "(1 - 1 / 2 ^ 62) * (a * b) < c * y"
proof -
  have "c * ((1 - 1 / 2 ^ 62) * (a * b / c)) < c * y" using assms by (intro mult_strict_left_mono) auto
  moreover have "c * ((1 - 1 / 2 ^ 62) * (a * b / c)) = (1 - 1 / 2 ^ 62) * (a * b)" using assms(3) by simp
  ultimately show ?thesis by simp
qed

text \<open>C16: A trade keeps the product of the reserves.  Whenever a trade succeeds, both reserves are positive and no digit
  estimate of its division overflows, the new reserves are the old ones less what is bought and plus what is paid, and
  their product falls by less than one part in \<open>2 ^ 62\<close>; so it does not fall at all while it is at most \<open>2 ^ 62\<close>.\<close>

theorem Trade_keeps_product:
  assumes "Totals_Trade b t = Some (pay, t')" and "0 < m_Tok1 t" and "0 < m_Tok2 t" and "trade_div_ok b t"
  shows "unat (m_Tok1 t') = unat (m_Tok1 t) - unat b \<and> unat (m_Tok2 t') = unat (m_Tok2 t) + unat pay \<and>
    (1 - 1 / 2 ^ 62) * (real (unat (m_Tok1 t)) * real (unat (m_Tok2 t))) < real (unat (m_Tok1 t')) * real (unat (m_Tok2 t')) \<and>
    (unat (m_Tok1 t) * unat (m_Tok2 t) \<le> 2 ^ 62 \<longrightarrow>
      unat (m_Tok1 t) * unat (m_Tok2 t) \<le> unat (m_Tok1 t') * unat (m_Tok2 t'))"
proof -
  from assms(1) obtain v where v: "b < m_Tok1 t"
    "ToAmount (fl_div (fl_mul (fl_Set (m_Tok1 t)) (fl_Set (m_Tok2 t))) (fl_Set (m_Tok1 t - b))) = Some v"
    "unat (m_Tok2 t) \<le> unat v" "unat pay = unat v - unat (m_Tok2 t) + ((unat v - unat (m_Tok2 t)) div 1000 * 3 + 1)"
    "unat (m_Tok1 t') = unat (m_Tok1 t) - unat b" "unat (m_Tok2 t') = unat (m_Tok2 t) + unat pay"
    by (rule Totals_Trade_SomeD)
  let ?a = "real (unat (m_Tok1 t))" and ?b = "real (unat (m_Tok2 t))" and ?c = "real (unat (m_Tok1 t'))"
  let ?vol = "fl_mul (fl_Set (m_Tok1 t)) (fl_Set (m_Tok2 t))" and ?d = "fl_Set (m_Tok1 t - b)"
  have nz: "m_Tok1 t \<noteq> 0" "m_Tok2 t \<noteq> 0" "m_Tok1 t - b \<noteq> 0" using assms(2,3) v(1) by auto
  note s1 = fl_Set_val [OF nz(1)] and s2 = fl_Set_val [OF nz(2)] and s3 = fl_Set_val [OF nz(3)]
  note m = fl_mul_accurate [OF s1(2) s2(2) fl_Set_small [OF nz(1)] fl_Set_small [OF nz(2)]]
  have small: "fl_small ?vol" using m(3) s1(3,4) s2(3,4) by (simp add: fl_small_def)
  note q = fl_div_accurate [OF m(1) s3(2) small fl_Set_small [OF nz(3)] assms(4) [unfolded trade_div_ok_def]]
  have c: "?c = real (unat (m_Tok1 t - b))" using v(1,5) by (simp add: unat_sub order_less_imp_le)
  have c0: "0 < ?c" using nz(3) c by (simp add: unat_gt_0)
  have "tr64 (?a * ?b / ?c) (fl_val ?vol / ?c)"
    using m(2) c0 by (simp add: tr64_def s1(1) s2(1) divide_right_mono mult.assoc [symmetric]) (simp add: divide_right_mono field_simps)
  moreover have "tr64 (fl_val ?vol / ?c) (fl_val (fl_div ?vol ?d))" using q(2) by (simp add: s3(1) c)
  ultimately have lo: "(1 - 1 / 2 ^ 62) * (?a * ?b / ?c) \<le> fl_val (fl_div ?vol ?d)"
    by (rule tr64_trans2(1)) simp
  have "sint (fl_Order (fl_div ?vol ?d)) \<le> 0" "v = fl_Get (fl_div ?vol ?d)"
    using v(2) by (simp_all add: ToAmount_def split: if_splits)
  then have "fl_val (fl_div ?vol ?d) < real (unat v) + 1" using fl_Get_floor(2) by simp
  also have "real (unat v) + 1 \<le> real (unat (m_Tok2 t'))" using v(3,4,6) by simp
  finally have strict: "(1 - 1 / 2 ^ 62) * (?a * ?b) < ?c * real (unat (m_Tok2 t'))"
    by (rule trade_real_bound [OF lo _ c0])
  have "unat (m_Tok1 t) * unat (m_Tok2 t) \<le> unat (m_Tok1 t') * unat (m_Tok2 t')"
    if "unat (m_Tok1 t) * unat (m_Tok2 t) \<le> 2 ^ 62"
  proof -
    have "?a * ?b \<le> 2 ^ 62" using that by (metis of_nat_le_iff of_nat_mult of_nat_numeral of_nat_power)
    then have "?a * ?b - 1 \<le> (1 - 1 / 2 ^ 62) * (?a * ?b)" by (simp add: algebra_simps)
    then have "?a * ?b < ?c * real (unat (m_Tok2 t')) + 1" using strict by linarith
    then have "real (unat (m_Tok1 t) * unat (m_Tok2 t)) < real (unat (m_Tok1 t') * unat (m_Tok2 t') + 1)" by simp
    then show ?thesis by (simp only: of_nat_less_iff)
  qed
  then show ?thesis using v(5,6) strict by simp
qed

theorem Trade_keeps_product_witness:
  "\<exists>t'. Totals_Trade 1000 \<lparr>m_Tok1 = 1000000, m_Tok2 = 2000000, m_Ctl = 1\<rparr> = Some (2009, t') \<and>
    1000000 * 2000000 \<le> unat (m_Tok1 t') * unat (m_Tok2 t')"
proof -
  let ?t = "\<lparr>m_Tok1 = 1000000, m_Tok2 = 2000000, m_Ctl = 1\<rparr> :: Totals"
  have 1: "Totals_Trade 1000 ?t = Some (2009, \<lparr>m_Tok1 = 999000, m_Tok2 = 2002009, m_Ctl = 1\<rparr>)" by code_simp
  have 2: "trade_div_ok 1000 ?t" by code_simp
  show ?thesis using Trade_keeps_product [OF 1 _ _ 2] 1 by simp
qed


section \<open>Liquidity\<close>

text \<open>Liquidity is accepted in proportion.  With reserves \<open>a\<close>, \<open>b\<close> and additions \<open>da\<close>, \<open>db\<close>, \<open>TestAdd\<close> returns -1
  exactly when \<open>a * db\<close> exceeds \<open>b * da + (b + da + 1)\<close>, 1 exactly when \<open>b * da\<close> exceeds \<open>a * db + (a + db + 1)\<close>, and 0
  otherwise, as long as the two sums in parentheses do not overflow.\<close>

theorem TestAdd_proportional:
  assumes "unat (m_Tok1 t) + unat (m_Tok2 d) + 1 < 2 ^ 64" and "unat (m_Tok2 t) + unat (m_Tok1 d) + 1 < 2 ^ 64"
  shows "TestAdd t d =
    (if unat (m_Tok2 t) * unat (m_Tok1 d) + (unat (m_Tok2 t) + unat (m_Tok1 d) + 1) < unat (m_Tok1 t) * unat (m_Tok2 d) then - 1
     else if unat (m_Tok1 t) * unat (m_Tok2 d) + (unat (m_Tok1 t) + unat (m_Tok2 d) + 1) < unat (m_Tok2 t) * unat (m_Tok1 d) then 1
     else 0)"
proof -
  have 1: "unat (m_Tok1 t + m_Tok2 d + 1) = unat (m_Tok1 t) + unat (m_Tok2 d) + 1"
    "unat (m_Tok2 t + m_Tok1 d + 1) = unat (m_Tok2 t) + unat (m_Tok1 d) + 1"
    using assms by (simp_all add: unat_word_ariths)
  show ?thesis by (simp add: TestAdd_def Let_def mp_cmp_val mp_mul_val mp_add_val 1)
qed

theorem TestAdd_proportional_witness:
  "TestAdd \<lparr>m_Tok1 = 1000, m_Tok2 = 2000, m_Ctl = 5\<rparr> \<lparr>m_Tok1 = 10, m_Tok2 = 20\<rparr> = 0 \<and>
   TestAdd \<lparr>m_Tok1 = 1000, m_Tok2 = 2000, m_Ctl = 5\<rparr> \<lparr>m_Tok1 = 10, m_Tok2 = 40\<rparr> = - 1"
  using TestAdd_proportional [of "\<lparr>m_Tok1 = 1000, m_Tok2 = 2000, m_Ctl = 5\<rparr>" "\<lparr>m_Tok1 = 10, m_Tok2 = 20\<rparr>"]
    TestAdd_proportional [of "\<lparr>m_Tok1 = 1000, m_Tok2 = 2000, m_Ctl = 5\<rparr>" "\<lparr>m_Tok1 = 10, m_Tok2 = 40\<rparr>"] by simp


end
