(* ===== verification/Spec2Isabelle.thy ===== *)
theory Spec2Isabelle
  imports Difficulty_Retarget Merkle_Compact Merkle_MultiProof Mp_Division Shader_Float
    Shader_Difficulty Node_Asset_Tree
    Contract_Vault Contract_Voting Contract_Faucet Contract_Faucet2 Contract_Oracle Contract_Mintor Contract_Upgradable2 Shader_Search Amm_Totals
begin

text \<open>
  Beam is a Mimblewimble node with confidential assets and smart contracts.  This library models the parts of it that
  decide about consensus and money without cryptography: the integers and difficulties of a block header, the Merkle
  trees behind the header's commitments, the asset table of the node with its rollback, the services the contract host
  offers, the arithmetic library of contracts, and a number of contracts.  Hash functions and the check that a public
  key is a valid point are parameters everywhere.

  A C++ object is a record, a member function a function on it; a buffer of bytes is a list of \<open>8 word\<close>, big-endian as in
  the source; machine integers keep their width.  Whatever makes the code halt (\<open>Env::Halt\<close>, \<open>Wasm::Test\<close>, a thrown
  exception) is \<open>None\<close>, and the model reverts the call as the host does.  Contracts are modelled from their C++ source,
  their variables as maps in an extension of the host's record.

  \<^bold>\<open>Parts, theories and sources.\<close>

  \<^item> \<open>Beam_Prelude\<close>: words, byte lists and their numeric values.

  \<^item> \<open>Uint_Big\<close>, \<open>Uint_Shift\<close>, \<open>Uint_Mul_Div\<close>, \<open>Uint_Codec\<close> (\<open>src/core/uintBig.h\<close>, \<open>uintBig.cpp\<close>, \<open>memis0\<close> of
    \<open>src/utility/common.cpp\<close>): the byte-wise loops of the big integers, each shown to compute the sum, negation,
    comparison, shift, product, quotient or text of the numbers the buffers stand for, for all sizes of the operands.

  \<^item> \<open>Difficulty\<close>, \<open>Difficulty_Retarget\<close> (\<open>src/core/difficulty.h\<close>, \<open>difficulty.cpp\<close>): packed difficulties, the target test,
    chain work and the calculation of the next difficulty, whose error is bounded.

  \<^item> \<open>Merkle_Tree\<close> (the specification: the root of a list of leaves), \<open>Merkle\<close>, \<open>Merkle_Store\<close>, \<open>Merkle_Compact\<close>,
    \<open>Merkle_MultiProof\<close> (\<open>src/core/merkle.h\<close>, \<open>merkle.cpp\<close>): mountain ranges over an abstract store (locales \<open>mmr_reader\<close> and
    \<open>mmr_store\<close>), over an array, computed on the fly and in compact form; proofs and their verifiers.  They show that
    the variants agree with the specification, that proofs lead to the root, and that an accepted proof commits to the
    leaf unless the hash function collides.

  \<^item> \<open>Amount_Big\<close>, \<open>Node_Assets\<close>, \<open>Node_Rollback\<close>, \<open>Node_Asset_Tree\<close> (\<open>src/node/db.cpp\<close>, \<open>src/node/processor.cpp\<close>): the asset
    table, the handlers that create, emit and destroy assets and their rollback from the recorded data.  Rolling back
    restores the table; applying keeps the asset tree in step with it, and one case is shown in which rolling back does
    not.

  \<^item> \<open>Bvm_Host\<close>, \<open>Bvm_Assets\<close> (\<open>src/bvm/bvm2.cpp\<close>, \<open>FundsChangeMap\<close> of \<open>src/core/block_crypt.cpp\<close>, \<open>BvmProcessor\<close> of
    \<open>src/node/processor.cpp\<close>): funds, signatures, references, far calls and the assets of contracts.  Funds are conserved
    and emission is balanced.  The locale \<open>funds\<close> is what a contract relies on, \<open>ledger\<close> what a contract that keeps accounts
    promises; the contracts interpret them.

  \<^item> \<open>Multi_Precision\<close>, \<open>Mp_Division\<close>, \<open>Shader_Float\<close>, \<open>Shader_Difficulty\<close>, \<open>Shader_Sort\<close>, \<open>Shader_Search\<close>
    (\<open>src/bvm/Shaders/Math.h\<close>, \<open>BeamDifficulty.h\<close>, \<open>Sort.h\<close>): the library contracts are built on.  Sums, products and
    comparisons are exact; division is exact under the condition that no digit estimate is truncated, and examples show
    what happens otherwise; sorting sorts, and searching and interpolating return what they should.

  \<^item> \<open>Contract_Vault\<close>, \<open>Contract_Voting\<close>, \<open>Contract_Faucet\<close>, \<open>Contract_Faucet2\<close> (with \<open>Rate_Limit\<close>), \<open>Contract_Oracle\<close>,
    \<open>Contract_Mintor\<close>, \<open>Contract_Upgradable2\<close>, \<open>Amm_Totals\<close> (the directories \<open>vault\<close>, \<open>voting\<close>, \<open>faucet\<close>, \<open>faucet2\<close>, \<open>oracle\<close>,
    \<open>mintor\<close>, \<open>upgradable2\<close>, \<open>amm\<close> of \<open>src/bvm/Shaders\<close>).  Each has a definition per method and a reachability relation over
    calls at arbitrary heights, interleaved with what other contracts do.  Accounts are always covered by funds and can
    be withdrawn; votes are backed by locked coins; a faucet pays at most its limit per period; the oracle
    publishes the median; an implementation is replaced only after an announcement signed by a quorum; a trade keeps
    the product of the reserves, up to rounding in the last of 62 bits, when no digit of its division is truncated.  Errors of the code are theorems too: a trade that is
    underpaid, a share paid from the wrong token, a mintor that never mints.

  \<^bold>\<open>Bounds.\<close>  No definition uses fuel.  Every function of the model is proved to terminate but one, the outer loop of the
  merge sort, whose 32-bit width doubles and may wrap: it is a partial function, and it is shown to return for the
  sizes at which it cannot.  Loops count as in the source, on natural numbers where the counter cannot overflow and on words where it may.  Where a theorem needs that a
  quantity fits its type (a height plus a delay, the number of leaves of a tree) it says so as a hypothesis, and a
  witness shows an instance.

  \<^bold>\<open>Not modelled.\<close>  Elliptic curve cryptography and the proofs on top of it (\<open>src/core/ecc*\<close>, \<open>lelantus\<close>, \<open>shielded\<close>): their
  security is a matter of hardness assumptions.  The interpreter of compiled contracts and the cost of execution: the
  contracts are modelled from source.  Serialisation, databases, networking, wallets, user interfaces and bindings: input
  and output.  \<open>DistributedMmr\<close> and the radix trees of \<open>src/core\<close>, the other contracts of \<open>src/bvm/Shaders\<close>, and the methods of
  the market maker that move tokens through the mintor: not covered yet.
\<close>

end
